(* ===== verification/Prelude.thy ===== *)
theory Prelude
  imports Main "HOL-Library.Word" "HOL-Library.AList" "HOL-Library.Monad_Syntax"
begin

section \<open>Shared notions: undefined behaviour as None, lists, association lists, words\<close>

text \<open>
  A C++ operation of the models that can run into undefined behaviour (a null or dangling
  pointer, a signed overflow, a read of a block that holds no object) or that may not return is
  a function into \<open>'a option\<close>: \<open>None\<close> is undefined behaviour or divergence, \<open>Some\<close> a normal
  end. They are composed with the \<open>do\<close> notation of the library's option monad.

  The file also holds the generic facts that several components use: the steps of the option
  monad, relational lifting of lists (\<open>list_all2\<close>), deletion from association lists, and the
  arithmetic of counters that are kept modulo \<open>2 ^ 64\<close>.
\<close>

named_theorems frame_intros \<open>rules that carry a heap predicate over an update elsewhere\<close>

type_synonym size_t = "64 word"
type_synonym uint64 = "64 word"

subsection \<open>The option monad\<close>

definition guard :: "bool \<Rightarrow> unit option" where
  "guard b = (if b then Some () else None)"

lemma guard_Some [simp]: "guard b = Some u \<longleftrightarrow> b"
  by (simp add: guard_def)

lemma guard_bind [simp]: "Option.bind (guard b) f = (if b then f () else None)"
  by (simp add: guard_def)

lemma bind_Some_iff: "Option.bind m f = Some y \<longleftrightarrow> (\<exists>x. m = Some x \<and> f x = Some y)"
  by (cases m) auto

subsection \<open>Lists\<close>

lemma list_all2_fst_eq:
  assumes "list_all2 (\<lambda>(k, v) (k', v'). k = k' \<and> R v v') xs ys"
  shows "map fst xs = map fst ys"
  using assms by (induction rule: list_all2_induct) auto

subsection \<open>Association lists\<close>

lemma set_AList_delete: "set (AList.delete k xs) = {x \<in> set xs. fst x \<noteq> k}"
  by (auto simp: AList.delete_eq)

lemma distinct_AList_delete:
  "distinct (map fst xs) \<Longrightarrow> distinct (map fst (AList.delete k xs))"
  by (rule distinct_delete)

lemma map_of_AList_delete: "map_of (AList.delete k xs) = (map_of xs)(k := None)"
  by (simp add: delete_conv')

subsection \<open>Counters modulo the word size\<close>

lemma unat64_less: "unat (w :: 64 word) < 2 ^ 64"
proof -
  have "unat w < 2 ^ LENGTH(64)" by (rule unsigned_less)
  then show ?thesis by simp
qed

lemma unat_of_nat64: "n < 2 ^ 64 \<Longrightarrow> unat (of_nat n :: 64 word) = n"
  by (simp add: unat_of_nat take_bit_nat_eq_self)

lemma of_nat_word_eq_iff:
  "a < 2 ^ 64 \<Longrightarrow> b < 2 ^ 64 \<Longrightarrow> (of_nat a :: 64 word) = of_nat b \<longleftrightarrow> a = b"
  by (simp add: word_of_nat_eq_iff take_bit_nat_eq_self)

end
