(* ===== verification/Market_Types.thy ===== *)
theory Market_Types
  imports Prelude
begin

section \<open>Value types of the engine (types.hpp, trade.hpp, order.hpp)\<close>

text \<open>
  The C++ type \<open>std::int64_t\<close> is \<open>int64\<close>, a 64-bit word read in two's complement by \<open>val\<close>,
  ordered by its signed value (an instance of \<open>linorder\<close>, so that \<open>std::min\<close>, \<open>std::less\<close> and
  \<open>std::greater\<close> are the library's \<open>min\<close>, \<open><\<close> and \<open>>\<close>) and a ring modulo \<open>2 ^ 64\<close>.  C++ leaves
  signed overflow undefined: \<open>checked_add\<close> and \<open>checked_sub\<close> are \<open>None\<close> there.  Unsigned 64-bit
  values (\<open>OrderId\<close>, \<open>Sequence\<close>, \<open>size_t\<close>) are plain words and wrap around.
\<close>

datatype int64 = Int64 (raw: "64 word")

definition val :: "int64 \<Rightarrow> int" where
  "val a = sint (raw a)"

lemma val_inject: "val a = val b \<longleftrightarrow> a = b"
  by (cases a; cases b) (auto simp: val_def intro: signed_word_eqI)

lemma val_range: "- (2 ^ 63) \<le> val a" "val a < 2 ^ 63"
  using sint_range_size [of "raw a"] by (simp_all add: val_def word_size)

subsection \<open>Signed order\<close>

instantiation int64 :: linorder
begin

definition less_eq_int64 :: "int64 \<Rightarrow> int64 \<Rightarrow> bool" where
  "less_eq_int64 a b \<longleftrightarrow> val a \<le> val b"

definition less_int64 :: "int64 \<Rightarrow> int64 \<Rightarrow> bool" where
  "less_int64 a b \<longleftrightarrow> val a < val b"

instance
  by standard (auto simp: less_eq_int64_def less_int64_def val_inject)

end

lemmas int64_order_defs = less_eq_int64_def less_int64_def

lemma val_min: "val (min a b) = min (val a) (val b)"
  by (simp add: min_def less_eq_int64_def)

subsection \<open>Arithmetic modulo \<open>2 ^ 64\<close>\<close>

instantiation int64 :: comm_ring_1
begin

definition zero_int64 :: int64 where "zero_int64 = Int64 0"
definition one_int64 :: int64 where "one_int64 = Int64 1"
definition plus_int64 :: "int64 \<Rightarrow> int64 \<Rightarrow> int64" where
  "plus_int64 a b = Int64 (raw a + raw b)"
definition minus_int64 :: "int64 \<Rightarrow> int64 \<Rightarrow> int64" where
  "minus_int64 a b = Int64 (raw a - raw b)"
definition uminus_int64 :: "int64 \<Rightarrow> int64" where
  "uminus_int64 a = Int64 (- raw a)"
definition times_int64 :: "int64 \<Rightarrow> int64 \<Rightarrow> int64" where
  "times_int64 a b = Int64 (raw a * raw b)"

instance
  by standard
    (auto simp: zero_int64_def one_int64_def plus_int64_def minus_int64_def uminus_int64_def
      times_int64_def algebra_simps int64.expand)

end

lemma raw_arith [simp]:
  "raw 0 = 0" "raw 1 = 1" "raw (a + b) = raw a + raw b" "raw (a - b) = raw a - raw b"
  "raw (- a) = - raw a" "raw (a * b) = raw a * raw b"
  by (simp_all add: zero_int64_def one_int64_def plus_int64_def minus_int64_def
      uminus_int64_def times_int64_def)

lemma raw_numeral [simp]: "raw (numeral n) = numeral n"
  by (induction n) (simp_all only: numeral.simps raw_arith)

lemma val_0 [simp]: "val 0 = 0"
  by (simp add: val_def)

lemma val_1 [simp]: "val 1 = 1"
  by (simp add: val_def)

lemma val_numeral: "val (numeral n) = sint (numeral n :: 64 word)"
  by (simp add: val_def)

lemma val_eq_0_iff: "val a = 0 \<longleftrightarrow> a = 0"
  using val_inject [of a 0] by simp

definition in_int64 :: "int \<Rightarrow> bool" where
  "in_int64 i \<longleftrightarrow> - (2 ^ 63) \<le> i \<and> i < 2 ^ 63"

lemma in_int64_val [simp]: "in_int64 (val a)"
  using val_range [of a] by (simp add: in_int64_def)

lemma sint_word64_add: "in_int64 (sint x + sint y) \<Longrightarrow> sint (x + y :: 64 word) = sint x + sint y"
  by (simp add: in_int64_def signed_take_bit_int_eq_self sint_word_ariths)

lemma sint_word64_sub: "in_int64 (sint x - sint y) \<Longrightarrow> sint (x - y :: 64 word) = sint x - sint y"
  by (simp add: in_int64_def signed_take_bit_int_eq_self sint_word_ariths)

lemma val_add: "in_int64 (val a + val b) \<Longrightarrow> val (a + b) = val a + val b"
  by (simp add: val_def sint_word64_add)

lemma val_sub: "in_int64 (val a - val b) \<Longrightarrow> val (a - b) = val a - val b"
  by (simp add: val_def sint_word64_sub)

text \<open>Signed addition and subtraction as C++ has them: undefined on overflow.\<close>

definition checked_add :: "int64 \<Rightarrow> int64 \<Rightarrow> int64 option" where
  "checked_add a b = (if in_int64 (val a + val b) then Some (a + b) else None)"

definition checked_sub :: "int64 \<Rightarrow> int64 \<Rightarrow> int64 option" where
  "checked_sub a b = (if in_int64 (val a - val b) then Some (a - b) else None)"

lemma checked_sub_le:
  assumes "0 \<le> b" and "b \<le> a"
  shows "checked_sub a b = Some (a - b)" and "val (a - b) = val a - val b"
proof -
  have "in_int64 (val a - val b)"
    using assms val_range [of a] by (auto simp: in_int64_def less_eq_int64_def)
  then show "checked_sub a b = Some (a - b)" and "val (a - b) = val a - val b"
    by (simp_all add: checked_sub_def val_sub)
qed

subsection \<open>Sides, orders and trades\<close>

datatype side = Buy | Sell

type_synonym OrderId = uint64
type_synonym Price = int64
type_synonym Quantity = int64
type_synonym Sequence = uint64

record Trade =
  aggressor_order_id :: OrderId
  resting_order_id :: OrderId
  aggressor_side :: side
  trade_price :: Price
  trade_quantity :: Quantity
  trade_sequence :: Sequence

record RestingOrder =
  order_id :: OrderId
  order_price :: Price
  order_quantity :: Quantity
  order_sequence :: Sequence

end
