(* ===== verification/Ordered_Map.thy ===== *)
theory Ordered_Map
  imports Market_Types
begin

section \<open>The side containers: std::map with its comparator\<close>

text \<open>
  A \<open>std::map<Key, T, Compare>\<close> is an association list kept in the order of its comparator
  \<open>lt\<close>: \<open>begin()\<close> is its first element, \<open>find\<close>, \<open>operator[]\<close> and \<open>erase\<close> walk it by
  comparisons only, as the library does.  The interface the order book relies on is the locale
  \<open>comparator\<close>: whoever provides a strict total order gets the search, update and removal laws.
  The book's two comparators, \<open>std::less<Price>\<close> for the asks and \<open>std::greater<Price>\<close> for the
  bids (order_book.hpp), are interpreted at the end.
\<close>

type_synonym ('k, 'v) omap = "('k \<times> 'v) list"

fun om_find :: "('k \<Rightarrow> 'k \<Rightarrow> bool) \<Rightarrow> 'k \<Rightarrow> ('k, 'v) omap \<Rightarrow> 'v option" where
  "om_find lt k [] = None"
| "om_find lt k ((k', v) # m) =
     (if lt k' k then om_find lt k m else if lt k k' then None else Some v)"

text \<open>\<open>m[k] = v\<close>: overwrite the element at \<open>k\<close>, or insert one at its place in the order.\<close>

fun om_put :: "('k \<Rightarrow> 'k \<Rightarrow> bool) \<Rightarrow> 'k \<Rightarrow> 'v \<Rightarrow> ('k, 'v) omap \<Rightarrow> ('k, 'v) omap" where
  "om_put lt k v [] = [(k, v)]"
| "om_put lt k v ((k', v') # m) =
     (if lt k' k then (k', v') # om_put lt k v m
      else if lt k k' then (k, v) # (k', v') # m else (k', v) # m)"

fun om_erase :: "('k \<Rightarrow> 'k \<Rightarrow> bool) \<Rightarrow> 'k \<Rightarrow> ('k, 'v) omap \<Rightarrow> ('k, 'v) omap" where
  "om_erase lt k [] = []"
| "om_erase lt k ((k', v') # m) =
     (if lt k' k then (k', v') # om_erase lt k m
      else if lt k k' then (k', v') # m else m)"

definition om_sorted :: "('k \<Rightarrow> 'k \<Rightarrow> bool) \<Rightarrow> ('k, 'v) omap \<Rightarrow> bool" where
  "om_sorted lt m \<longleftrightarrow> sorted_wrt lt (map fst m)"

lemma om_sorted_simps [simp]:
  "om_sorted lt []"
  "om_sorted lt ((k, v) # m) \<longleftrightarrow> (\<forall>k' \<in> fst ` set m. lt k k') \<and> om_sorted lt m"
  by (auto simp: om_sorted_def)

lemma om_sorted_append:
  "om_sorted lt (us @ vs) \<longleftrightarrow>
   om_sorted lt us \<and> om_sorted lt vs \<and> (\<forall>a \<in> fst ` set us. \<forall>b \<in> fst ` set vs. lt a b)"
  by (simp add: om_sorted_def sorted_wrt_append)

lemma om_sorted_keys: "map fst m = map fst m' \<Longrightarrow> om_sorted lt m = om_sorted lt m'"
  by (simp add: om_sorted_def)

text \<open>The operations only look at keys: related values give related results.\<close>

definition om_rel :: "('v \<Rightarrow> 'w \<Rightarrow> bool) \<Rightarrow> ('k, 'v) omap \<Rightarrow> ('k, 'w) omap \<Rightarrow> bool" where
  "om_rel R = list_all2 (\<lambda>(k, v) (k', w). k = k' \<and> R v w)"

lemma om_rel_simps [simp]:
  "om_rel R [] m' \<longleftrightarrow> m' = []"
  "om_rel R m [] \<longleftrightarrow> m = []"
  "om_rel R ((k, v) # m) ((k', w) # m') \<longleftrightarrow> k = k' \<and> R v w \<and> om_rel R m m'"
  by (simp_all add: om_rel_def)

lemma om_rel_Cons_right:
  "om_rel R m ((k, w) # m') \<longleftrightarrow> (\<exists>v n. m = (k, v) # n \<and> R v w \<and> om_rel R n m')"
  by (cases m) auto

lemma om_rel_append_right:
  "om_rel R m (us @ vs) \<longleftrightarrow> (\<exists>ms ns. m = ms @ ns \<and> om_rel R ms us \<and> om_rel R ns vs)"
  by (auto simp: om_rel_def list_all2_append2 intro: list_all2_lengthD)

lemma om_rel_append:
  "om_rel R ms us \<Longrightarrow> om_rel R ns vs \<Longrightarrow> om_rel R (ms @ ns) (us @ vs)"
  by (auto simp: om_rel_def intro: list_all2_appendI)

lemma om_rel_keys: "om_rel R m m' \<Longrightarrow> map fst m = map fst m'"
  by (auto simp: om_rel_def dest: list_all2_fst_eq)

lemma om_rel_mono:
  "om_rel R m m' \<Longrightarrow> (\<And>k v w. (k, w) \<in> set m' \<Longrightarrow> R v w \<Longrightarrow> S v w) \<Longrightarrow> om_rel S m m'"
  unfolding om_rel_def by (erule list.rel_mono_strong) auto

lemma om_rel_find:
  "om_rel R m m' \<Longrightarrow> rel_option R (om_find lt k m) (om_find lt k m')"
  unfolding om_rel_def by (induction rule: list_all2_induct) auto

lemma om_rel_put:
  "om_rel R m m' \<Longrightarrow> R v w \<Longrightarrow> om_rel R (om_put lt k v m) (om_put lt k w m')"
  unfolding om_rel_def by (induction rule: list_all2_induct) auto

lemma om_rel_erase:
  "om_rel R m m' \<Longrightarrow> om_rel R (om_erase lt k m) (om_erase lt k m')"
  unfolding om_rel_def by (induction rule: list_all2_induct) auto

lemma om_map_find: "om_find lt k (map (\<lambda>(k, v). (k, f v)) m) = map_option f (om_find lt k m)"
  by (induction m) auto

lemma om_map_put:
  "om_put lt k (f v) (map (\<lambda>(k, v). (k, f v)) m) = map (\<lambda>(k, v). (k, f v)) (om_put lt k v m)"
  by (induction m) auto

lemma om_map_erase:
  "om_erase lt k (map (\<lambda>(k, v). (k, f v)) m) = map (\<lambda>(k, v). (k, f v)) (om_erase lt k m)"
  by (induction m) auto

subsection \<open>The interface: a strict total order on the keys\<close>

locale comparator =
  fixes lt :: "'k \<Rightarrow> 'k \<Rightarrow> bool"
  assumes lt_irrefl: "\<not> lt a a"
    and lt_trans: "lt a b \<Longrightarrow> lt b c \<Longrightarrow> lt a c"
    and lt_total: "a \<noteq> b \<Longrightarrow> lt a b \<or> lt b a"
begin

lemma lt_asym: "lt a b \<Longrightarrow> \<not> lt b a"
  using lt_irrefl lt_trans by blast

lemma sorted_distinct: "om_sorted lt m \<Longrightarrow> distinct (map fst m)"
  by (induction m) (use lt_irrefl in force)+

lemma find_Some_split:
  assumes "om_find lt k m = Some v" and "om_sorted lt m"
  obtains us vs where "m = us @ (k, v) # vs"
    and "\<And>w. om_put lt k w m = us @ (k, w) # vs"
    and "om_erase lt k m = us @ vs"
  using assms
proof (induction m arbitrary: thesis)
  case Nil
  then show ?case by simp
next
  case (Cons kv m)
  obtain k' v' where kv: "kv = (k', v')" by force
  show ?case
  proof (cases "lt k' k")
    case True
    with Cons.prems kv have "om_find lt k m = Some v" "om_sorted lt m" by auto
    then obtain us vs where "m = us @ (k, v) # vs"
      "\<And>w. om_put lt k w m = us @ (k, w) # vs" "om_erase lt k m = us @ vs"
      using Cons.IH by blast
    with True kv show ?thesis by (intro Cons.prems(1) [of "kv # us" vs]) auto
  next
    case False
    with Cons.prems(2) kv have "k' = k" "v' = v"
      using lt_total [of k k'] by (auto split: if_splits)
    with kv lt_irrefl show ?thesis by (intro Cons.prems(1) [of "[]" m]) auto
  qed
qed

lemma find_None_split:
  assumes "om_find lt k m = None" and "om_sorted lt m"
  obtains us vs where "m = us @ vs" and "\<And>w. om_put lt k w m = us @ (k, w) # vs"
  using assms
proof (induction m arbitrary: thesis)
  case Nil
  then show ?case by simp
next
  case (Cons kv m)
  obtain k' v' where kv: "kv = (k', v')" by force
  show ?case
  proof (cases "lt k' k")
    case True
    with Cons.prems kv have "om_find lt k m = None" "om_sorted lt m" by auto
    then obtain us vs where "m = us @ vs" "\<And>w. om_put lt k w m = us @ (k, w) # vs"
      using Cons.IH by blast
    with True kv show ?thesis by (intro Cons.prems(1) [of "kv # us" vs]) auto
  next
    case False
    with Cons.prems(2) kv have "lt k k'" by (auto split: if_splits)
    with False kv show ?thesis by (intro Cons.prems(1) [of "[]" "kv # m"]) auto
  qed
qed

lemma find_map_of: "om_sorted lt m \<Longrightarrow> om_find lt k m = map_of m k"
proof (induction m)
  case (Cons kv m)
  obtain k' v' where kv: "kv = (k', v')" by force
  have "lt k k' \<Longrightarrow> om_sorted lt (kv # m) \<Longrightarrow> map_of m k = None"
    using kv lt_trans lt_irrefl by (fastforce simp: map_of_eq_None_iff)
  with Cons kv lt_total [of k k'] show ?case by (auto simp: lt_irrefl lt_asym)
qed simp

lemma put_keys: "fst ` set (om_put lt k v m) = insert k (fst ` set m)"
proof (induction m)
  case (Cons kv m)
  then show ?case
    using lt_total [of k "fst kv"] by (cases kv) auto
qed simp

lemma erase_subset: "set (om_erase lt k m) \<subseteq> set m"
proof (induction m)
  case (Cons kv m)
  then show ?case by (cases kv) auto
qed simp

lemma put_sorted: "om_sorted lt m \<Longrightarrow> om_sorted lt (om_put lt k v m)"
proof (induction m)
  case (Cons kv m)
  obtain k' v' where kv: "kv = (k', v')" by force
  with Cons put_keys [of k v m] show ?case
    by (cases kv) (auto simp: image_iff intro: lt_trans)
qed simp

lemma erase_sorted: "om_sorted lt m \<Longrightarrow> om_sorted lt (om_erase lt k m)"
proof (induction m)
  case (Cons kv m)
  then show ?case
    using erase_subset [of k m] by (cases kv) auto
qed simp

lemma map_of_put:
  assumes "om_sorted lt m"
  shows "map_of (om_put lt k v m) = (map_of m)(k \<mapsto> v)"
  using assms
proof (induction m)
  case (Cons kv m)
  obtain k' v' where kv: "kv = (k', v')" by force
  have "map_of (om_put lt k v m) = (map_of m)(k \<mapsto> v)"
    by (rule Cons.IH) (use Cons.prems kv in simp)
  then have "map_of (om_put lt k v m) j = ((map_of m)(k \<mapsto> v)) j" for j by simp
  with kv lt_irrefl [of k] lt_total [of k k'] show ?case by (intro ext) auto
qed simp

lemma find_put:
  "om_sorted lt m \<Longrightarrow> om_find lt j (om_put lt k v m) = (if j = k then Some v else om_find lt j m)"
  by (simp add: find_map_of put_sorted map_of_put)

text \<open>What the operations do at a known place.\<close>

lemma at_place:
  assumes "om_sorted lt (ms @ (k, v) # ns)"
  shows "om_put lt k w (ms @ (k, v) # ns) = ms @ (k, w) # ns"
    and "om_put lt k w (ms @ ns) = ms @ (k, w) # ns"
    and "om_erase lt k (ms @ (k, v) # ns) = ms @ ns"
    and "om_find lt k (ms @ (k, v) # ns) = Some v"
    and "om_find lt k (ms @ ns) = None"
proof -
  have lt: "\<forall>a \<in> fst ` set ms. lt a k" "\<forall>b \<in> fst ` set ns. lt k b"
    using assms by (auto simp: om_sorted_append)
  show "om_put lt k w (ms @ (k, v) # ns) = ms @ (k, w) # ns"
    "om_erase lt k (ms @ (k, v) # ns) = ms @ ns" "om_find lt k (ms @ (k, v) # ns) = Some v"
    using lt(1) by (induction ms) (auto simp: lt_irrefl)
  have "om_put lt k w ns = (k, w) # ns" "om_find lt k ns = None"
    using lt(2) lt_asym by (cases ns; force)+
  with lt(1) show "om_put lt k w (ms @ ns) = ms @ (k, w) # ns" "om_find lt k (ms @ ns) = None"
    by (induction ms) auto
qed

lemma first_is_best:
  "om_sorted lt ((k, v) # m) \<Longrightarrow> j \<in> fst ` set ((k, v) # m) \<Longrightarrow> j = k \<or> lt k j"
  by auto

end

subsection \<open>The comparators of the two sides\<close>

definition asks_cmp :: "Price \<Rightarrow> Price \<Rightarrow> bool" where
  "asks_cmp a b \<longleftrightarrow> a < b"

definition bids_cmp :: "Price \<Rightarrow> Price \<Rightarrow> bool" where
  "bids_cmp a b \<longleftrightarrow> a > b"

interpretation asks_order: comparator asks_cmp
  by unfold_locales (auto simp: asks_cmp_def)

interpretation bids_order: comparator bids_cmp
  by unfold_locales (auto simp: bids_cmp_def)

end
