(* ===== verification/Slab_Allocator.thy ===== *)
theory Slab_Allocator
  imports Prelude
begin

section \<open>The slab allocator (slab_allocator.hpp)\<close>

text \<open>
  Memory is what the chunks of one \<open>SlabAllocator<T>\<close> hold: an address is a chunk (numbered in
  the order of the \<open>::operator new\<close> calls, whose results never overlap) and a byte offset in it,
  and \<open>mem\<close> says what object lives in each block: the intrusive \<open>FreeNode\<close>, an object of type
  \<open>T\<close>, or nothing (\<open>Raw\<close>, between a destructor call and the next placement new).  Reading a
  block through the wrong type, through null or outside every block is undefined behaviour, as
  is a placement new past the end of a chunk: these are \<open>None\<close>.  \<open>::operator new\<close> itself is
  taken to succeed.  \<open>deallocate\<close> does not check anything in the code and does not here: freeing
  a free block silently corrupts the list.  The counters are \<open>size_t\<close> and wrap around.

  \<open>slab_inv\<close> is the invariant: the free list threads exactly the blocks that are not handed
  out, once each, the blocks tile the chunks, and the counters count them.  The interface the
  order book uses is the locale \<open>object_pool\<close>, interpreted on the allocator at the end.
\<close>

datatype addr = Addr (chunk: nat) (offset: nat)

type_synonym ptr = "addr option" \<comment> \<open>\<open>None\<close> is \<open>nullptr\<close>\<close>

datatype 'a cell = Raw | FreeNode ptr | Object 'a

subsection \<open>Block geometry\<close>

record layout =
  sizeof_T :: size_t
  alignof_T :: size_t

definition sizeof_FreeNode :: size_t where "sizeof_FreeNode = 8"
definition alignof_FreeNode :: size_t where "alignof_FreeNode = 8"

definition kRawBlockSize :: "layout \<Rightarrow> size_t" where
  "kRawBlockSize L = (if sizeof_T L > sizeof_FreeNode then sizeof_T L else sizeof_FreeNode)"

definition kBlockAlign :: "layout \<Rightarrow> size_t" where
  "kBlockAlign L = (if alignof_T L > alignof_FreeNode then alignof_T L else alignof_FreeNode)"

definition kBlockSize :: "layout \<Rightarrow> size_t" where
  "kBlockSize L = ((kRawBlockSize L + kBlockAlign L - 1) div kBlockAlign L) * kBlockAlign L"

definition kDefaultInitialCapacity :: size_t where
  "kDefaultInitialCapacity = 4096"

subsection \<open>State and operations\<close>

record 'a slab =
  mem :: "addr \<rightharpoonup> 'a cell"
  chunks :: "nat list"
  free_list :: ptr
  chunk_size :: size_t
  total_capacity :: size_t
  in_use_n :: size_t
  growth_events_n :: size_t

text \<open>The loop of \<open>add_chunk\<close>: blocks \<open>i, i + 1, ...\<close>, \<open>n\<close> of them still to thread.\<close>

fun thread_blocks :: "layout \<Rightarrow> nat \<Rightarrow> size_t \<Rightarrow> nat \<Rightarrow> nat \<Rightarrow> 'a slab \<Rightarrow> 'a slab option" where
  "thread_blocks L c bytes i 0 s = Some s"
| "thread_blocks L c bytes i (Suc n) s = do {
     let off = unat (of_nat i * kBlockSize L);
     guard (off + unat sizeof_FreeNode \<le> unat bytes);
     let block = Addr c off;
     thread_blocks L c bytes (Suc i) n
       (s\<lparr>mem := (mem s)(block \<mapsto> FreeNode (free_list s)), free_list := Some block\<rparr>)
   }"

definition add_chunk :: "layout \<Rightarrow> size_t \<Rightarrow> 'a slab \<Rightarrow> 'a slab option" where
  "add_chunk L count s = do {
     let bytes = kBlockSize L * count;
     let c = length (chunks s);
     s1 \<leftarrow> thread_blocks L c bytes 0 (unat count) (s\<lparr>chunks := chunks s @ [c]\<rparr>);
     Some (s1\<lparr>total_capacity := total_capacity s1 + count\<rparr>)
   }"

definition slab_new :: "layout \<Rightarrow> size_t \<Rightarrow> 'a slab option" where
  "slab_new L initial_capacity =
     (let cs = (if initial_capacity = 0 then 1 else initial_capacity)
      in add_chunk L cs \<lparr>mem = Map.empty, chunks = [], free_list = None, chunk_size = cs,
           total_capacity = 0, in_use_n = 0, growth_events_n = 0\<rparr>)"

text \<open>Reads and writes of what lives in a block, by the static type of the access.\<close>

definition read_free :: "addr \<Rightarrow> 'a slab \<Rightarrow> ptr option" where
  "read_free a s = (case mem s a of Some (FreeNode n) \<Rightarrow> Some n | _ \<Rightarrow> None)"

definition load :: "addr \<Rightarrow> 'a slab \<Rightarrow> 'a option" where
  "load a s = (case mem s a of Some (Object v) \<Rightarrow> Some v | _ \<Rightarrow> None)"

definition store :: "addr \<Rightarrow> 'a \<Rightarrow> 'a slab \<Rightarrow> 'a slab option" where
  "store a v s = (case mem s a of
     Some (Object _) \<Rightarrow> Some (s\<lparr>mem := (mem s)(a \<mapsto> Object v)\<rparr>) | _ \<Rightarrow> None)"

definition construct :: "addr \<Rightarrow> 'a \<Rightarrow> 'a slab \<Rightarrow> 'a slab option" where
  "construct a v s = (case mem s a of
     Some _ \<Rightarrow> Some (s\<lparr>mem := (mem s)(a \<mapsto> Object v)\<rparr>) | None \<Rightarrow> None)"

definition destroy :: "addr \<Rightarrow> 'a slab \<Rightarrow> 'a slab option" where
  "destroy a s = (case mem s a of
     Some (Object _) \<Rightarrow> Some (s\<lparr>mem := (mem s)(a \<mapsto> Raw)\<rparr>) | _ \<Rightarrow> None)"

definition allocate :: "layout \<Rightarrow> 'a slab \<Rightarrow> (addr \<times> 'a slab) option" where
  "allocate L s = do {
     s1 \<leftarrow> (if free_list s = None
            then do {
              g \<leftarrow> add_chunk L (chunk_size s) s;
              Some (g\<lparr>growth_events_n := growth_events_n g + 1\<rparr>)
            }
            else Some s);
     node \<leftarrow> free_list s1;
     next \<leftarrow> read_free node s1;
     Some (node, s1\<lparr>free_list := next, in_use_n := in_use_n s1 + 1\<rparr>)
   }"

definition deallocate :: "addr \<Rightarrow> 'a slab \<Rightarrow> 'a slab option" where
  "deallocate p s = (case mem s p of
     None \<Rightarrow> None
   | Some _ \<Rightarrow> Some (s\<lparr>mem := (mem s)(p \<mapsto> FreeNode (free_list s)), free_list := Some p,
                  in_use_n := in_use_n s - 1\<rparr>))"

definition capacity :: "'a slab \<Rightarrow> size_t" where "capacity s = total_capacity s"
definition in_use :: "'a slab \<Rightarrow> size_t" where "in_use s = in_use_n s"
definition growth_events :: "'a slab \<Rightarrow> size_t" where "growth_events s = growth_events_n s"

text \<open>The destructor gives every chunk back: no block of a deleted chunk stays accessible.\<close>

fun delete_chunks :: "nat list \<Rightarrow> (addr \<rightharpoonup> 'a cell) \<Rightarrow> (addr \<rightharpoonup> 'a cell)" where
  "delete_chunks [] m = m"
| "delete_chunks (c # cs) m = delete_chunks cs (m |` {a. chunk a \<noteq> c})"

definition slab_destroy :: "'a slab \<Rightarrow> (addr \<rightharpoonup> 'a cell)" where
  "slab_destroy s = delete_chunks (chunks s) (mem s)"

subsection \<open>Geometry: blocks are large enough, aligned, disjoint and inside their chunk\<close>

definition sizes_fit :: "layout \<Rightarrow> size_t \<Rightarrow> bool" where
  "sizes_fit L count \<longleftrightarrow>
     unat (kRawBlockSize L) + unat (kBlockAlign L) \<le> 2 ^ 64 \<and>
     unat (kBlockSize L) * unat count < 2 ^ 64"

abbreviation block_bytes :: "layout \<Rightarrow> nat" where
  "block_bytes L \<equiv> unat (kBlockSize L)"

lemma kRawBlockSize_ge:
  "unat sizeof_FreeNode \<le> unat (kRawBlockSize L)" "unat (sizeof_T L) \<le> unat (kRawBlockSize L)"
  by (auto simp: kRawBlockSize_def word_less_nat_alt)

lemma kBlockAlign_ge:
  "unat alignof_FreeNode \<le> unat (kBlockAlign L)" "unat (alignof_T L) \<le> unat (kBlockAlign L)"
  by (auto simp: kBlockAlign_def word_less_nat_alt)

lemma kBlockAlign_pos: "0 < unat (kBlockAlign L)"
  using kBlockAlign_ge(1) [of L] by (simp add: alignof_FreeNode_def)

lemma round_up_bounds:
  fixes r a :: nat
  assumes "0 < a" shows "r \<le> (r + a - 1) div a * a" "(r + a - 1) div a * a < r + a"
proof -
  have "(r + a - 1) div a * a = r + a - 1 - (r + a - 1) mod a"
    by (rule minus_mod_eq_div_mult [symmetric])
  moreover have "(r + a - 1) mod a < a" "(r + a - 1) mod a \<le> r + a - 1"
    using assms by simp_all
  ultimately show "r \<le> (r + a - 1) div a * a" "(r + a - 1) div a * a < r + a"
    using assms by linarith+
qed

lemma block_bytes_eq:
  assumes "unat (kRawBlockSize L) + unat (kBlockAlign L) \<le> 2 ^ 64"
  shows "block_bytes L =
    (unat (kRawBlockSize L) + unat (kBlockAlign L) - 1) div unat (kBlockAlign L)
      * unat (kBlockAlign L)"
proof -
  let ?r = "kRawBlockSize L" and ?a = "kBlockAlign L"
  have pos: "0 < unat ?a" by (rule kBlockAlign_pos)
  have sum: "unat (?r + ?a - 1) = unat ?r + unat ?a - 1"
  proof -
    have "?r + ?a - 1 = of_nat (unat ?r + unat ?a - 1)"
      using pos by (simp add: of_nat_diff)
    moreover have "unat ?r + unat ?a - 1 < 2 ^ 64" using assms pos by linarith
    ultimately show ?thesis by (simp add: unat_of_nat take_bit_nat_eq_self)
  qed
  have "unat ((?r + ?a - 1) div ?a) * unat ?a < 2 ^ 64"
    using round_up_bounds(2) [OF pos, of "unat ?r"] assms by (simp add: unat_div sum)
  then have "block_bytes L = unat ((?r + ?a - 1) div ?a) * unat ?a"
    unfolding kBlockSize_def by (subst unat_mult_lem [THEN iffD1]) simp_all
  then show ?thesis by (simp add: unat_div sum)
qed

lemma block_bytes_ge:
  assumes "sizes_fit L count"
  shows "unat sizeof_FreeNode \<le> block_bytes L" "unat (sizeof_T L) \<le> block_bytes L"
    "unat (kBlockAlign L) dvd block_bytes L"
  using assms round_up_bounds(1) [OF kBlockAlign_pos, of "unat (kRawBlockSize L)" L]
    kRawBlockSize_ge [of L]
  by (auto simp: sizes_fit_def block_bytes_eq)

lemma block_bytes_pos: "sizes_fit L count \<Longrightarrow> 0 < block_bytes L"
  using block_bytes_ge(1) [of L count] by (simp add: sizeof_FreeNode_def)

definition block :: "layout \<Rightarrow> nat \<Rightarrow> nat \<Rightarrow> addr" where
  "block L c i = Addr c (i * block_bytes L)"

lemma block_inject:
  "sizes_fit L count \<Longrightarrow> block L c i = block L c' i' \<longleftrightarrow> c = c' \<and> i = i'"
  using block_bytes_pos [of L count] by (auto simp: block_def)

lemma block_offset_word:
  assumes "sizes_fit L count" and "i < unat count"
  shows "unat (of_nat i * kBlockSize L) = i * block_bytes L"
    and "i * block_bytes L + block_bytes L \<le> unat (kBlockSize L * count)"
proof -
  have total: "unat (kBlockSize L * count) = block_bytes L * unat count"
    using assms(1) by (simp add: sizes_fit_def unat_word_ariths)
  have fit: "i * block_bytes L + block_bytes L \<le> block_bytes L * unat count"
    using mult_le_mono2 [OF Suc_leI [OF assms(2)], of "block_bytes L"] by (simp add: algebra_simps)
  have "i < 2 ^ 64" using assms(2) unat64_less [of count] by simp
  then have i: "unat (of_nat i :: 64 word) = i" by (simp add: unat_of_nat take_bit_nat_eq_self)
  moreover have "i * block_bytes L < 2 ^ 64"
    using fit assms(1) block_bytes_pos [OF assms(1)] by (simp add: sizes_fit_def)
  ultimately show "unat (of_nat i * kBlockSize L) = i * block_bytes L"
    by (simp add: unat_word_ariths)
  show "i * block_bytes L + block_bytes L \<le> unat (kBlockSize L * count)"
    using fit total by simp
qed

text \<open>Two different blocks of a chunk never share a byte.\<close>

lemma blocks_disjoint:
  assumes "i \<noteq> j"
  shows "{offset (block L c i) ..< offset (block L c i) + block_bytes L} \<inter>
         {offset (block L c j) ..< offset (block L c j) + block_bytes L} = {}"
proof -
  have "i * b + b \<le> j * b \<or> j * b + b \<le> i * b" for b :: nat
    using assms mult_le_mono1 [of "Suc i" j b] mult_le_mono1 [of "Suc j" i b]
    by (cases "i < j") auto
  from this [of "block_bytes L"] show ?thesis by (auto simp: block_def)
qed

subsection \<open>The invariant\<close>

fun chain :: "(addr \<rightharpoonup> 'a cell) \<Rightarrow> ptr \<Rightarrow> addr list \<Rightarrow> bool" where
  "chain m p [] \<longleftrightarrow> p = None"
| "chain m p (a # as) \<longleftrightarrow> p = Some a \<and> (\<exists>n. m a = Some (FreeNode n) \<and> chain m n as)"

lemma chain_agree: "\<forall>a \<in> set as. m' a = m a \<Longrightarrow> chain m' p as = chain m p as"
  by (induction as arbitrary: p) auto

lemma chain_upd [simp]: "a \<notin> set as \<Longrightarrow> chain (m(a \<mapsto> x)) p as = chain m p as"
  by (rule chain_agree) auto

lemma chain_dom: "chain m p as \<Longrightarrow> set as \<subseteq> dom m"
  by (induction as arbitrary: p) auto

lemma chain_None: "chain m None as \<longleftrightarrow> as = []"
  by (cases as) auto

definition all_blocks :: "layout \<Rightarrow> nat \<Rightarrow> nat \<Rightarrow> addr set" where
  "all_blocks L k n = (\<lambda>(c, i). block L c i) ` ({..<k} \<times> {..<n})"

definition slab_core :: "layout \<Rightarrow> 'a slab \<Rightarrow> addr list \<Rightarrow> addr set \<Rightarrow> bool" where
  "slab_core L s free used \<longleftrightarrow>
     chain (mem s) (free_list s) free \<and> distinct free \<and> set free \<inter> used = {} \<and>
     set free \<union> used = dom (mem s) \<and>
     dom (mem s) = all_blocks L (length (chunks s)) (unat (chunk_size s)) \<and>
     chunks s = [0..<length (chunks s)] \<and>
     chunk_size s \<noteq> 0 \<and> sizes_fit L (chunk_size s) \<and>
     total_capacity s = of_nat (length (chunks s)) * chunk_size s \<and>
     in_use_n s = of_nat (card used)"

definition slab_inv :: "layout \<Rightarrow> 'a slab \<Rightarrow> addr list \<Rightarrow> addr set \<Rightarrow> bool" where
  "slab_inv L s free used \<longleftrightarrow>
     slab_core L s free used \<and> chunks s \<noteq> [] \<and>
     growth_events_n s = of_nat (length (chunks s) - 1)"

lemma all_blocks_Suc:
  "all_blocks L (Suc c) n = all_blocks L c n \<union> block L c ` {..<n}"
  by (auto simp: all_blocks_def less_Suc_eq)

lemma card_all_blocks:
  assumes "sizes_fit L count"
  shows "card (all_blocks L c n) = c * n"
proof -
  have "inj_on (\<lambda>(c, i). block L c i) ({..<c} \<times> {..<n})"
    using block_inject [OF assms] by (auto simp: inj_on_def)
  then show ?thesis by (simp add: all_blocks_def card_image card_cartesian_product)
qed

text \<open>The counters count: blocks reserved, blocks handed out, growth chunks.\<close>

lemma slab_core_counts:
  assumes "slab_core L s free used"
  shows "finite (dom (mem s))" "finite used"
    "card (dom (mem s)) = length (chunks s) * unat (chunk_size s)"
    "total_capacity s = of_nat (card (dom (mem s)))"
    "card used + length free = card (dom (mem s))"
proof -
  have dom: "dom (mem s) = all_blocks L (length (chunks s)) (unat (chunk_size s))"
    and fit: "sizes_fit L (chunk_size s)" and fu: "set free \<union> used = dom (mem s)"
    and tc: "total_capacity s = of_nat (length (chunks s)) * chunk_size s"
    and disj: "set free \<inter> used = {}" and dist: "distinct free"
    using assms by (auto simp: slab_core_def)
  show fin: "finite (dom (mem s))" unfolding dom by (simp add: all_blocks_def)
  then show finu: "finite used" using fu by (metis finite_Un)
  show card: "card (dom (mem s)) = length (chunks s) * unat (chunk_size s)"
    unfolding dom by (rule card_all_blocks [OF fit])
  show "total_capacity s = of_nat (card (dom (mem s)))" by (simp add: card tc)
  show "card used + length free = card (dom (mem s))"
    using card_Un_disjoint [OF _ finu disj] fu distinct_card [OF dist] by simp
qed

subsection \<open>Growing\<close>

lemma thread_blocks_spec:
  assumes "sizes_fit L count" "bytes = kBlockSize L * count" "i + n \<le> unat count"
    and "chain (mem s) (free_list s) free" and "\<forall>j \<ge> i. block L c j \<notin> set free"
  shows "\<exists>m p. thread_blocks L c bytes i n s = Some (s\<lparr>mem := m, free_list := p\<rparr>) \<and>
    chain m p (rev (map (block L c) [i..<i + n]) @ free) \<and>
    dom m = dom (mem s) \<union> block L c ` {i..<i + n} \<and>
    (\<forall>a. a \<notin> block L c ` {i..<i + n} \<longrightarrow> m a = mem s a)"
  using assms(3-5)
proof (induction n arbitrary: i s free)
  case 0
  then show ?case by (intro exI [of _ "mem s"] exI [of _ "free_list s"]) auto
next
  case (Suc n)
  let ?b = "block L c i"
  let ?s = "s\<lparr>mem := (mem s)(?b \<mapsto> FreeNode (free_list s)), free_list := Some ?b\<rparr>"
  have i: "i < unat count" using Suc.prems(1) by simp
  note off = block_offset_word [OF assms(1) i]
  have fits: "i * block_bytes L + unat sizeof_FreeNode \<le> unat bytes"
    using off(2) block_bytes_ge(1) [OF assms(1)] assms(2) by simp
  have nb: "?b \<notin> set free" using Suc.prems(3) by blast
  have step: "thread_blocks L c bytes i (Suc n) s = thread_blocks L c bytes (Suc i) n ?s"
    using fits by (simp add: off(1) block_def Let_def)
  have le: "Suc i + n \<le> unat count" using Suc.prems(1) by simp
  have ch: "chain (mem ?s) (free_list ?s) (?b # free)" using Suc.prems(2) nb by simp
  have nf: "\<forall>j \<ge> Suc i. block L c j \<notin> set (?b # free)"
    using Suc.prems(3) block_inject [OF assms(1)] by auto
  from Suc.IH [OF le ch nf] obtain m p where mp:
    "thread_blocks L c bytes (Suc i) n ?s = Some (?s\<lparr>mem := m, free_list := p\<rparr>)"
    "chain m p (rev (map (block L c) [Suc i..<Suc i + n]) @ ?b # free)"
    "dom m = dom (mem ?s) \<union> block L c ` {Suc i..<Suc i + n}"
    "\<forall>a. a \<notin> block L c ` {Suc i..<Suc i + n} \<longrightarrow> m a = mem ?s a"
    by blast
  have range: "{i..<i + Suc n} = insert i {Suc i..<Suc i + n}" by auto
  have upt: "[i..<i + Suc n] = i # [Suc i..<Suc i + n]" by (simp add: upt_conv_Cons)
  show ?case
    unfolding step range upt by (intro exI [of _ m] exI [of _ p]) (use mp in auto)
qed

definition chunk_blocks :: "layout \<Rightarrow> nat \<Rightarrow> nat \<Rightarrow> addr list" where
  "chunk_blocks L c n = rev (map (block L c) [0..<n])"

lemma chunk_blocks_props:
  assumes "sizes_fit L count"
  shows "set (chunk_blocks L c n) = block L c ` {..<n}" "distinct (chunk_blocks L c n)"
    "length (chunk_blocks L c n) = n"
  using block_inject [OF assms]
  by (auto simp: chunk_blocks_def distinct_map inj_on_def atLeast0LessThan)

lemma add_chunk_spec:
  assumes "slab_core L s free used"
  shows "\<exists>s'. add_chunk L (chunk_size s) s = Some s' \<and>
    slab_core L s' (chunk_blocks L (length (chunks s)) (unat (chunk_size s)) @ free) used \<and>
    (\<forall>a \<in> dom (mem s). mem s' a = mem s a) \<and>
    length (chunks s') = Suc (length (chunks s)) \<and> chunk_size s' = chunk_size s \<and>
    growth_events_n s' = growth_events_n s"
proof -
  let ?c = "length (chunks s)" and ?n = "unat (chunk_size s)"
  let ?s = "s\<lparr>chunks := chunks s @ [?c]\<rparr>"
  have core: "chain (mem s) (free_list s) free" "distinct free" "set free \<inter> used = {}"
    "set free \<union> used = dom (mem s)" "dom (mem s) = all_blocks L ?c ?n"
    "chunks s = [0..<?c]" "chunk_size s \<noteq> 0" "total_capacity s = of_nat ?c * chunk_size s"
    "in_use_n s = of_nat (card used)" and fit: "sizes_fit L (chunk_size s)"
    using assms by (auto simp: slab_core_def)
  have fresh: "block L ?c j \<notin> dom (mem s)" for j
    using block_inject [OF fit] by (auto simp: core(5) all_blocks_def)
  have fresh': "block L ?c j \<notin> set free" "block L ?c j \<notin> used" for j
    using fresh [of j] core(4) by blast+
  then obtain m p where mp:
    "thread_blocks L ?c (kBlockSize L * chunk_size s) 0 ?n ?s = Some (?s\<lparr>mem := m, free_list := p\<rparr>)"
    "chain m p (chunk_blocks L ?c ?n @ free)"
    "dom m = dom (mem s) \<union> block L ?c ` {0..<?n}"
    "\<forall>a. a \<notin> block L ?c ` {0..<?n} \<longrightarrow> m a = mem s a"
    using thread_blocks_spec [OF fit refl, of 0 ?n ?s free ?c] core(1) fresh'
    by (auto simp: chunk_blocks_def)
  let ?t = "?s\<lparr>mem := m, free_list := p, total_capacity := total_capacity s + chunk_size s\<rparr>"
  note new = chunk_blocks_props [OF fit, of ?c ?n]
  have "slab_core L ?t (chunk_blocks L ?c ?n @ free) used"
    unfolding slab_core_def
  proof (intro conjI)
    show "distinct (chunk_blocks L ?c ?n @ free)" using new core(2) fresh' by auto
    show "set (chunk_blocks L ?c ?n @ free) \<inter> used = {}" using new core(3) fresh' by auto
    show "set (chunk_blocks L ?c ?n @ free) \<union> used = dom (mem ?t)"
      using new mp(3) core(4) by (auto simp: atLeast0LessThan)
    show "dom (mem ?t) = all_blocks L (length (chunks ?t)) (unat (chunk_size ?t))"
      using mp(3) core(5) by (auto simp: all_blocks_Suc atLeast0LessThan)
    show "chunks ?t = [0..<length (chunks ?t)]" using core(6) by simp
    show "total_capacity ?t = of_nat (length (chunks ?t)) * chunk_size ?t"
      using core(8) by (simp add: algebra_simps)
  qed (use mp(2) core(7,9) fit in simp_all)
  moreover have "add_chunk L (chunk_size s) s = Some ?t"
    by (simp add: add_chunk_def Let_def mp(1))
  moreover have "mem ?t a = mem s a" if "a \<in> dom (mem s)" for a
    using mp(4) fresh that by (cases "a \<in> block L ?c ` {0..<?n}") auto
  ultimately show ?thesis by (intro exI [of _ ?t]) simp
qed

lemma slab_new_spec:
  assumes "sizes_fit L (if cap = 0 then 1 else cap)"
  shows "\<exists>s. slab_new L cap = Some s \<and> length (chunks s) = 1 \<and>
    chunk_size s = (if cap = 0 then 1 else cap) \<and>
    slab_inv L s (chunk_blocks L 0 (unat (chunk_size s))) {}"
proof -
  let ?cs = "if cap = 0 then 1 else cap"
  let ?z = "\<lparr>mem = Map.empty, chunks = [], free_list = None, chunk_size = ?cs,
    total_capacity = 0, in_use_n = 0, growth_events_n = 0\<rparr> :: 'a slab"
  have "slab_core L ?z [] {}"
    using assms by (simp add: slab_core_def all_blocks_def)
  from add_chunk_spec [OF this] show ?thesis
    by (force simp: slab_new_def slab_inv_def Let_def)
qed

subsection \<open>Handing blocks out and taking them back\<close>

lemma allocate_step:
  assumes "slab_core L s (a # free) used"
  shows "read_free a s = Some n \<Longrightarrow>
      slab_core L (s\<lparr>free_list := n, in_use_n := in_use_n s + 1\<rparr>) free (insert a used)"
    and "\<exists>n. read_free a s = Some n" and "free_list s = Some a"
    and "a \<notin> used"
proof -
  have fin: "finite used" by (rule slab_core_counts(2) [OF assms])
  show "a \<notin> used" "free_list s = Some a" "\<exists>n. read_free a s = Some n"
    using assms by (auto simp: slab_core_def read_free_def)
  then show "read_free a s = Some n \<Longrightarrow>
      slab_core L (s\<lparr>free_list := n, in_use_n := in_use_n s + 1\<rparr>) free (insert a used)"
    using assms fin by (auto simp: slab_core_def read_free_def)
qed

text \<open>
  With a free block, \<open>allocate\<close> pops the head of the free list and nothing else moves; with
  none left, it first adds exactly one chunk of \<open>chunk_size\<close> blocks and counts the event.
\<close>

lemma allocate_pop:
  assumes "slab_inv L s (a # free) used"
  shows "\<exists>s'. allocate L s = Some (a, s') \<and> slab_inv L s' free (insert a used) \<and>
    mem s' = mem s \<and> chunks s' = chunks s \<and> chunk_size s' = chunk_size s"
proof -
  have core: "slab_core L s (a # free) used" using assms by (simp add: slab_inv_def)
  note step = allocate_step [OF core]
  obtain n where n: "read_free a s = Some n" using step(2) by blast
  with step(1) [OF n] step(3) assms show ?thesis
    by (simp add: allocate_def slab_inv_def)
qed

lemma allocate_grow:
  assumes "slab_inv L s [] used"
  shows "\<exists>a free s'. allocate L s = Some (a, s') \<and> slab_inv L s' free (insert a used) \<and>
    a \<notin> used \<and> (\<forall>b \<in> used. mem s' b = mem s b) \<and>
    length (chunks s') = Suc (length (chunks s)) \<and> chunk_size s' = chunk_size s \<and>
    Suc (length free) = unat (chunk_size s)"
proof -
  have core: "slab_core L s [] used" and ne: "chunks s \<noteq> []"
    and ge: "growth_events_n s = of_nat (length (chunks s) - 1)"
    using assms by (auto simp: slab_inv_def)
  from core have fl: "free_list s = None" and dom: "used = dom (mem s)" and cs: "chunk_size s \<noteq> 0"
    and fit: "sizes_fit L (chunk_size s)"
    by (auto simp: slab_core_def)
  obtain g where g: "add_chunk L (chunk_size s) s = Some g"
    "slab_core L g (chunk_blocks L (length (chunks s)) (unat (chunk_size s))) used"
    "\<forall>a \<in> dom (mem s). mem g a = mem s a" "length (chunks g) = Suc (length (chunks s))"
    "chunk_size g = chunk_size s" "growth_events_n g = growth_events_n s"
    using add_chunk_spec [OF core] by auto
  obtain a free where af: "chunk_blocks L (length (chunks s)) (unat (chunk_size s)) = a # free"
    using chunk_blocks_props(3) [OF fit, of "length (chunks s)" "unat (chunk_size s)"] cs
    by (cases "chunk_blocks L (length (chunks s)) (unat (chunk_size s))") (auto simp: unat_eq_zero)
  let ?g = "g\<lparr>growth_events_n := growth_events_n g + 1\<rparr>"
  have "slab_core L ?g (a # free) used" using g(2) af by (simp add: slab_core_def)
  note step = allocate_step [OF this]
  obtain n where n: "read_free a ?g = Some n" using step(2) by blast
  have len: "Suc (length free) = unat (chunk_size s)"
    using chunk_blocks_props(3) [OF fit, of "length (chunks s)" "unat (chunk_size s)"] af by simp
  have "growth_events_n s + 1 = of_nat (length (chunks s))" using ne ge by (cases "chunks s") auto
  moreover have "\<forall>b \<in> used. mem g b = mem s b" using g(3) dom by simp
  ultimately show ?thesis
    using step(1) [OF n] step(3,4) n g(1,4-6) fl len
    by (intro exI [of _ a] exI [of _ free] exI) (auto simp: allocate_def slab_inv_def)
qed

lemma allocate_spec:
  assumes "slab_inv L s free used"
  shows "\<exists>a free' s'. allocate L s = Some (a, s') \<and> a \<notin> used \<and> slab_inv L s' free' (insert a used) \<and>
    (\<forall>b \<in> used. mem s' b = mem s b) \<and> chunk_size s' = chunk_size s"
proof (cases free)
  case Nil
  with allocate_grow assms show ?thesis by blast
next
  case (Cons a fs)
  have "a \<notin> used" using assms Cons by (auto simp: slab_inv_def slab_core_def)
  moreover obtain s' where "allocate L s = Some (a, s')" "slab_inv L s' fs (insert a used)"
    "mem s' = mem s" "chunk_size s' = chunk_size s"
    using allocate_pop [of L s a fs used] assms Cons by blast
  ultimately show ?thesis by (intro exI [of _ a] exI [of _ fs] exI [of _ s']) simp
qed

lemma deallocate_spec:
  assumes "slab_inv L s free used" and "a \<in> used"
  shows "\<exists>s'. deallocate a s = Some s' \<and> slab_inv L s' (a # free) (used - {a}) \<and>
    (\<forall>b. b \<noteq> a \<longrightarrow> mem s' b = mem s b) \<and> chunks s' = chunks s \<and> chunk_size s' = chunk_size s"
proof -
  have core: "slab_core L s free used" using assms by (simp add: slab_inv_def)
  have fin: "finite used" by (rule slab_core_counts(2) [OF core])
  have a: "a \<in> dom (mem s)" "a \<notin> set free" using core assms(2) by (auto simp: slab_core_def)
  have "Suc (card (used - {a})) = card used" by (rule card_Suc_Diff1 [OF fin assms(2)])
  then have cnt: "of_nat (card used) - 1 = (of_nat (card (used - {a})) :: 64 word)"
    by (metis add_diff_cancel_left' of_nat_Suc)
  let ?t = "s\<lparr>mem := (mem s)(a \<mapsto> FreeNode (free_list s)), free_list := Some a,
    in_use_n := in_use_n s - 1\<rparr>"
  have "slab_core L ?t (a # free) (used - {a})"
    using a core assms(2) cnt unfolding slab_core_def by auto
  moreover have "deallocate a s = Some ?t" using a(1) by (auto simp: deallocate_def)
  ultimately show ?thesis
    using assms(1) by (intro exI [of _ ?t]) (simp add: slab_inv_def)
qed

subsection \<open>The interface of an object pool\<close>

text \<open>
  What the order book relies on: a pool \<open>p\<close> that owns its memory and has handed out exactly
  the addresses of \<open>U\<close> gives a fresh block on request, takes a handed-out block back, and
  lets objects be created, written and ended in handed-out blocks; nothing else changes.
\<close>

locale object_pool =
  fixes alloc :: "'p \<Rightarrow> (addr \<times> 'p) option"
    and dealloc :: "addr \<Rightarrow> 'p \<Rightarrow> 'p option"
    and make :: "addr \<Rightarrow> 'a \<Rightarrow> 'p \<Rightarrow> 'p option"
    and kill :: "addr \<Rightarrow> 'p \<Rightarrow> 'p option"
    and put :: "addr \<Rightarrow> 'a \<Rightarrow> 'p \<Rightarrow> 'p option"
    and get :: "addr \<Rightarrow> 'p \<Rightarrow> 'a option"
    and content :: "'p \<Rightarrow> addr \<rightharpoonup> 'a cell"
    and owns :: "'p \<Rightarrow> addr set \<Rightarrow> bool"
  assumes alloc_law: "owns p U \<Longrightarrow> \<exists>a q. alloc p = Some (a, q) \<and> a \<notin> U \<and> owns q (insert a U) \<and>
      (\<forall>b \<in> U. content q b = content p b)"
    and dealloc_law: "owns p U \<Longrightarrow> a \<in> U \<Longrightarrow> \<exists>q. dealloc a p = Some q \<and> owns q (U - {a}) \<and>
      (\<forall>b. b \<noteq> a \<longrightarrow> content q b = content p b)"
    and make_law: "owns p U \<Longrightarrow> a \<in> U \<Longrightarrow>
      \<exists>q. make a v p = Some q \<and> owns q U \<and> content q = (content p)(a \<mapsto> Object v)"
    and kill_law: "owns p U \<Longrightarrow> a \<in> U \<Longrightarrow> content p a = Some (Object v) \<Longrightarrow>
      \<exists>q. kill a p = Some q \<and> owns q U \<and> content q = (content p)(a \<mapsto> Raw)"
    and put_law: "owns p U \<Longrightarrow> a \<in> U \<Longrightarrow> content p a = Some (Object v) \<Longrightarrow>
      \<exists>q. put a w p = Some q \<and> owns q U \<and> content q = (content p)(a \<mapsto> Object w)"
    and get_law: "content p a = Some (Object v) \<Longrightarrow> get a p = Some v"
begin

text \<open>Placement new into a fresh block; destructor call and return of the block.\<close>

lemma new_object:
  assumes "owns p U"
  obtains a q r where "alloc p = Some (a, q)" and "make a v q = Some r" and "a \<notin> U"
    and "owns r (insert a U)" and "content r a = Some (Object v)"
    and "\<forall>b \<in> U. content r b = content p b"
proof -
  obtain a q where aq: "alloc p = Some (a, q)" "a \<notin> U" "owns q (insert a U)"
    "\<forall>b \<in> U. content q b = content p b"
    using alloc_law [OF assms] by blast
  obtain r where r: "make a v q = Some r" "owns r (insert a U)"
    "content r = (content q)(a \<mapsto> Object v)"
    using make_law [OF aq(3) insertI1, of v] by blast
  show ?thesis
    by (rule that [OF aq(1) r(1) aq(2) r(2)]) (use aq r in auto)
qed

lemma delete_object:
  assumes "owns p U" and "a \<in> U" and "content p a = Some (Object v)"
  obtains q r where "kill a p = Some q" and "dealloc a q = Some r" and "owns r (U - {a})"
    and "\<forall>b. b \<noteq> a \<longrightarrow> content r b = content p b"
proof -
  obtain q where q: "kill a p = Some q" "owns q U" "content q = (content p)(a \<mapsto> Raw)"
    using kill_law [OF assms] by blast
  obtain r where r: "dealloc a q = Some r" "owns r (U - {a})"
    "\<forall>b. b \<noteq> a \<longrightarrow> content r b = content q b"
    using dealloc_law [OF q(2) assms(2)] by blast
  show ?thesis by (rule that [OF q(1) r(1,2)]) (use q r in auto)
qed

end

definition slab_owns :: "layout \<Rightarrow> 'a slab \<Rightarrow> addr set \<Rightarrow> bool" where
  "slab_owns L s used \<longleftrightarrow> (\<exists>free. slab_inv L s free used)"

text \<open>Writing objects into handed-out blocks never touches the free list.\<close>

lemma slab_inv_upd:
  assumes "slab_inv L s free used" and "a \<in> used"
  shows "slab_inv L (s\<lparr>mem := (mem s)(a \<mapsto> x)\<rparr>) free used" and "a \<in> dom (mem s)"
proof -
  show a: "a \<in> dom (mem s)" using assms by (auto simp: slab_inv_def slab_core_def)
  have "a \<notin> set free" using assms by (auto simp: slab_inv_def slab_core_def)
  moreover have "dom ((mem s)(a \<mapsto> x)) = dom (mem s)" using a by auto
  ultimately show "slab_inv L (s\<lparr>mem := (mem s)(a \<mapsto> x)\<rparr>) free used"
    using assms by (simp add: slab_inv_def slab_core_def)
qed

lemma slab_owns_upd:
  assumes "slab_owns L s used" and "a \<in> used"
  shows "slab_owns L (s\<lparr>mem := (mem s)(a \<mapsto> x)\<rparr>) used" and "\<exists>y. mem s a = Some y"
  using assms slab_inv_upd unfolding slab_owns_def by blast+

interpretation slab_pool: object_pool "allocate L" deallocate construct destroy store load mem
  "slab_owns L" for L
proof (unfold_locales, goal_cases)
  case (1 p U)
  then show ?case unfolding slab_owns_def using allocate_spec by metis
next
  case (2 p U a)
  then show ?case unfolding slab_owns_def using deallocate_spec by metis
next
  case (3 p U a v)
  from slab_owns_upd [OF this(1,2)] show ?case by (auto simp: construct_def)
next
  case (4 p U a v)
  from slab_owns_upd [OF this(1,2)] 4(3) show ?case by (auto simp: destroy_def)
next
  case (5 p U a v w)
  from slab_owns_upd [OF this(1,2)] 5(3) show ?case by (auto simp: store_def)
next
  case (6 p a v)
  then show ?case by (simp add: load_def)
qed

lemma slab_owns_counts:
  assumes "slab_owns L s used"
  shows "finite used" "in_use s = of_nat (card used)"
    "capacity s = of_nat (length (chunks s)) * chunk_size s"
    "card used \<le> length (chunks s) * unat (chunk_size s)"
    "growth_events s = of_nat (length (chunks s) - 1)"
proof -
  obtain free where inv: "slab_inv L s free used" using assms by (auto simp: slab_owns_def)
  then have core: "slab_core L s free used" by (simp add: slab_inv_def)
  show "finite used" by (rule slab_core_counts(2) [OF core])
  show "card used \<le> length (chunks s) * unat (chunk_size s)"
    using slab_core_counts(3,5) [OF core] by simp
  show "in_use s = of_nat (card used)" "growth_events s = of_nat (length (chunks s) - 1)"
    "capacity s = of_nat (length (chunks s)) * chunk_size s"
    using inv by (auto simp: slab_inv_def slab_core_def in_use_def growth_events_def capacity_def)
qed

subsection \<open>Destruction\<close>

lemma delete_chunks_eq: "delete_chunks cs m = m |` {a. chunk a \<notin> set cs}"
proof (induction cs arbitrary: m)
  case (Cons c cs)
  have "{a. chunk a \<noteq> c} \<inter> {a. chunk a \<notin> set cs} = {a. chunk a \<notin> set (c # cs)}" by auto
  with Cons show ?case by simp
qed (simp add: restrict_map_def)

lemma slab_destroy_empty:
  assumes "slab_owns L s used"
  shows "slab_destroy s = Map.empty"
proof -
  obtain free where core: "slab_core L s free used"
    using assms by (auto simp: slab_owns_def slab_inv_def)
  have "mem s a = None" if "chunk a \<notin> set (chunks s)" for a
  proof (rule ccontr)
    assume "mem s a \<noteq> None"
    then have "a \<in> all_blocks L (length (chunks s)) (unat (chunk_size s))"
      using core by (auto simp: slab_core_def)
    then have "chunk a < length (chunks s)" by (auto simp: all_blocks_def block_def)
    moreover have ch: "chunks s = [0..<length (chunks s)]" using core by (simp add: slab_core_def)
    have "set (chunks s) = {0..<length (chunks s)}" by (subst ch) simp
    ultimately show False using that by simp
  qed
  then show ?thesis
    by (auto simp: slab_destroy_def delete_chunks_eq restrict_map_def fun_eq_iff)
qed

end
