(* ===== verification/Intrusive_List.thy ===== *)
theory Intrusive_List
  imports Market_Types Slab_Allocator
begin

section \<open>Price levels as intrusive doubly linked lists (order_book.hpp, order_book.cpp)\<close>

text \<open>
  A \<open>PriceLevel\<close> is a head and a tail pointer over \<open>OrderNode\<close>s that live in the shared slab.
  The operations follow order_book.cpp statement by statement: every field access is a load from
  the slab, every assignment a store, so a dangling or null pointer is \<open>None\<close>.  The loops over
  the \<open>next\<close> pointers are partial functions; that they return is proved.

  \<open>seg\<close> and \<open>level_rep\<close> say which list of (address, order) pairs a level holds.  The lemmas give
  each operation's effect on that list, that the pool hands out one block more or takes one
  back, and that no other handed-out block changes.
\<close>

record OrderNode =
  node_order :: RestingOrder
  node_prev :: ptr
  node_next :: ptr

record PriceLevel =
  pl_head :: ptr
  pl_tail :: ptr

type_synonym pool = "OrderNode slab"

definition order_node_layout :: layout where
  "order_node_layout = \<lparr>sizeof_T = 48, alignof_T = 8\<rparr>"

definition empty_level :: PriceLevel where
  "empty_level = \<lparr>pl_head = None, pl_tail = None\<rparr>"

definition modify :: "addr \<Rightarrow> (OrderNode \<Rightarrow> OrderNode) \<Rightarrow> pool \<Rightarrow> pool option" where
  "modify a f p = do { n \<leftarrow> load a p; store a (f n) p }"

subsection \<open>The operations\<close>

definition push_back :: "PriceLevel \<Rightarrow> RestingOrder \<Rightarrow> pool \<Rightarrow> (addr \<times> PriceLevel \<times> pool) option" where
  "push_back level order p = do {
     (node, p1) \<leftarrow> allocate order_node_layout p;
     p2 \<leftarrow> construct node \<lparr>node_order = order, node_prev = pl_tail level, node_next = None\<rparr> p1;
     case pl_tail level of
       Some t \<Rightarrow> do {
         p3 \<leftarrow> modify t (\<lambda>n. n\<lparr>node_next := Some node\<rparr>) p2;
         Some (node, level\<lparr>pl_tail := Some node\<rparr>, p3)
       }
     | None \<Rightarrow> Some (node, level\<lparr>pl_head := Some node, pl_tail := Some node\<rparr>, p2)
   }"

definition pop_front :: "PriceLevel \<Rightarrow> pool \<Rightarrow> (PriceLevel \<times> pool) option" where
  "pop_front level p = do {
     node \<leftarrow> pl_head level;
     n \<leftarrow> load node p;
     let level1 = level\<lparr>pl_head := node_next n\<rparr>;
     (level2, p1) \<leftarrow> (case pl_head level1 of
         Some h \<Rightarrow> do { p1 \<leftarrow> modify h (\<lambda>n. n\<lparr>node_prev := None\<rparr>) p; Some (level1, p1) }
       | None \<Rightarrow> Some (level1\<lparr>pl_tail := None\<rparr>, p));
     p2 \<leftarrow> destroy node p1;
     p3 \<leftarrow> deallocate node p2;
     Some (level2, p3)
   }"

text \<open>The two \<open>if\<close>s of \<open>erase\<close>: past the predecessor (or the head), past the successor (or the tail).\<close>

definition relink_prev :: "PriceLevel \<Rightarrow> addr \<Rightarrow> pool \<Rightarrow> (PriceLevel \<times> pool) option" where
  "relink_prev level node p = do {
     n \<leftarrow> load node p;
     case node_prev n of
       Some q \<Rightarrow> do { p1 \<leftarrow> modify q (\<lambda>x. x\<lparr>node_next := node_next n\<rparr>) p; Some (level, p1) }
     | None \<Rightarrow> Some (level\<lparr>pl_head := node_next n\<rparr>, p)
   }"

definition relink_next :: "PriceLevel \<Rightarrow> addr \<Rightarrow> pool \<Rightarrow> (PriceLevel \<times> pool) option" where
  "relink_next level node p = do {
     n \<leftarrow> load node p;
     case node_next n of
       Some q \<Rightarrow> do { p1 \<leftarrow> modify q (\<lambda>x. x\<lparr>node_prev := node_prev n\<rparr>) p; Some (level, p1) }
     | None \<Rightarrow> Some (level\<lparr>pl_tail := node_prev n\<rparr>, p)
   }"

definition erase :: "PriceLevel \<Rightarrow> addr \<Rightarrow> pool \<Rightarrow> (PriceLevel \<times> pool) option" where
  "erase level node p = do {
     (level1, p1) \<leftarrow> relink_prev level node p;
     (level2, p2) \<leftarrow> relink_next level1 node p1;
     p3 \<leftarrow> destroy node p2;
     p4 \<leftarrow> deallocate node p3;
     Some (level2, p4)
   }"

partial_function (option) sum_from :: "ptr \<Rightarrow> Quantity \<Rightarrow> pool \<Rightarrow> Quantity option" where
  "sum_from node acc p = (case node of
     None \<Rightarrow> Some acc
   | Some a \<Rightarrow> do {
       n \<leftarrow> load a p;
       acc1 \<leftarrow> checked_add acc (order_quantity (node_order n));
       sum_from (node_next n) acc1 p
     })"

definition sum_quantity :: "PriceLevel \<Rightarrow> pool \<Rightarrow> Quantity option" where
  "sum_quantity level p = sum_from (pl_head level) 0 p"

partial_function (option) collect_from :: "ptr \<Rightarrow> OrderId list \<Rightarrow> pool \<Rightarrow> OrderId list option" where
  "collect_from node ids p = (case node of
     None \<Rightarrow> Some ids
   | Some a \<Rightarrow> do {
       n \<leftarrow> load a p;
       collect_from (node_next n) (ids @ [order_id (node_order n)]) p
     })"

definition collect_ids :: "PriceLevel \<Rightarrow> pool \<Rightarrow> OrderId list option" where
  "collect_ids level p = collect_from (pl_head level) [] p"

text \<open>The body of \<open>destroy_level\<close> in \<open>~OrderBook\<close>: \<open>next\<close> is read before the node ends.\<close>

partial_function (option) destroy_nodes :: "ptr \<Rightarrow> pool \<Rightarrow> pool option" where
  "destroy_nodes node p = (case node of
     None \<Rightarrow> Some p
   | Some a \<Rightarrow> do {
       n \<leftarrow> load a p;
       p1 \<leftarrow> destroy a p;
       p2 \<leftarrow> deallocate a p1;
       destroy_nodes (node_next n) p2
     })"

subsection \<open>What a level holds\<close>

type_synonym nodes = "(addr \<times> RestingOrder) list"

abbreviation pool_owns :: "pool \<Rightarrow> addr set \<Rightarrow> bool" where
  "pool_owns \<equiv> slab_owns order_node_layout"

abbreviation addrs :: "nodes \<Rightarrow> addr set" where
  "addrs xs \<equiv> fst ` set xs"

fun seg :: "(addr \<rightharpoonup> OrderNode cell) \<Rightarrow> ptr \<Rightarrow> ptr \<Rightarrow> nodes \<Rightarrow> ptr \<Rightarrow> ptr \<Rightarrow> bool" where
  "seg m pv p [] l nx \<longleftrightarrow> p = nx \<and> l = pv"
| "seg m pv p ((a, r) # xs) l nx \<longleftrightarrow> p = Some a \<and>
     (\<exists>n. m a = Some (Object \<lparr>node_order = r, node_prev = pv, node_next = n\<rparr>) \<and>
          seg m (Some a) n xs l nx)"

definition level_rep :: "(addr \<rightharpoonup> OrderNode cell) \<Rightarrow> PriceLevel \<Rightarrow> nodes \<Rightarrow> bool" where
  "level_rep m level xs \<longleftrightarrow> seg m None (pl_head level) xs (pl_tail level) None"

lemma seg_append:
  "seg m pv p (xs @ ys) l nx \<longleftrightarrow> (\<exists>q k. seg m pv p xs k q \<and> seg m k q ys l nx)"
proof (induction xs arbitrary: pv p)
  case (Cons x xs)
  then show ?case by (cases x) (simp, blast)
qed simp

lemma seg_agree:
  "\<forall>a \<in> addrs xs. m' a = m a \<Longrightarrow> seg m' pv p xs l nx = seg m pv p xs l nx"
  by (induction xs arbitrary: pv p) auto

lemma seg_upd [simp]: "a \<notin> addrs xs \<Longrightarrow> seg (m(a \<mapsto> x)) pv p xs l nx = seg m pv p xs l nx"
  by (rule seg_agree) auto

lemma level_rep_agree [frame_intros]:
  "level_rep m level xs \<Longrightarrow> \<forall>a \<in> addrs xs. m' a = m a \<Longrightarrow> level_rep m' level xs"
  using seg_agree [of xs m' m None "pl_head level" "pl_tail level" None]
  by (simp add: level_rep_def)

lemma level_rep_Nil: "level_rep m level [] \<longleftrightarrow> level = empty_level"
  by (cases level) (auto simp: level_rep_def empty_level_def)

lemma level_rep_head: "level_rep m level xs \<Longrightarrow> pl_head level = None \<longleftrightarrow> xs = []"
  by (cases xs) (auto simp: level_rep_def)

lemma level_rep_Cons:
  assumes "level_rep m level ((a, r) # xs)"
  obtains n where "pl_head level = Some a"
    and "m a = Some (Object \<lparr>node_order = r, node_prev = None, node_next = n\<rparr>)"
    and "seg m (Some a) n xs (pl_tail level) None"
  using assms by (auto simp: level_rep_def)

text \<open>Writing the head order in place (a partial fill) changes that order only.\<close>

lemma level_rep_upd_head:
  assumes "level_rep m level ((a, r) # xs)" and "a \<notin> addrs xs"
    and "m a = Some (Object n)"
  shows "level_rep (m(a \<mapsto> Object (n\<lparr>node_order := r'\<rparr>))) level ((a, r') # xs)"
  using assms by (auto simp: level_rep_def)

subsection \<open>Effects of the operations\<close>

lemma modify_law:
  assumes "pool_owns p U" and "a \<in> U" and "mem p a = Some (Object n)"
  obtains q where "modify a f p = Some q" and "pool_owns q U"
    and "mem q = (mem p)(a \<mapsto> Object (f n))"
  using slab_pool.put_law [OF assms, of "f n"] slab_pool.get_law [OF assms(3)]
  by (auto simp: modify_def)

lemma push_back_spec:
  assumes own: "pool_owns p U" and rep: "level_rep (mem p) level xs"
    and sub: "addrs xs \<subseteq> U" and dist: "distinct (map fst xs)"
  obtains a level' q where "push_back level r p = Some (a, level', q)" and "a \<notin> U"
    and "pool_owns q (insert a U)" and "level_rep (mem q) level' (xs @ [(a, r)])"
    and "\<forall>b \<in> U - addrs xs. mem q b = mem p b"
proof -
  let ?n = "\<lparr>node_order = r, node_prev = pl_tail level, node_next = None\<rparr>"
  obtain a p1 p2 where new: "allocate order_node_layout p = Some (a, p1)"
    "construct a ?n p1 = Some p2" "a \<notin> U" "pool_owns p2 (insert a U)"
    "mem p2 a = Some (Object ?n)" "\<forall>b \<in> U. mem p2 b = mem p b"
    using slab_pool.new_object [OF own, of ?n] by metis
  have rep2: "level_rep (mem p2) level xs"
    using rep new(6) sub by (blast intro: level_rep_agree)
  show ?thesis
  proof (cases xs rule: rev_cases)
    case Nil
    with rep have "level = empty_level" by (simp add: level_rep_Nil)
    with new show ?thesis
      by (intro that [of a "level\<lparr>pl_head := Some a, pl_tail := Some a\<rparr>" p2])
        (auto simp: push_back_def empty_level_def level_rep_def Nil)
  next
    case (snoc ys tr)
    obtain t rt where tr: "tr = (t, rt)" by force
    obtain k where t: "pl_tail level = Some t" "seg (mem p2) None (pl_head level) ys k (Some t)"
      "mem p2 t = Some (Object \<lparr>node_order = rt, node_prev = k, node_next = None\<rparr>)"
      using rep2 by (auto simp: level_rep_def snoc tr seg_append)
    have tU: "t \<in> U" "t \<noteq> a" "t \<notin> addrs ys"
      using sub new(3) dist by (auto simp: snoc tr)
    have "t \<in> insert a U" using tU by simp
    from modify_law [OF new(4) this t(3), of "\<lambda>n. n\<lparr>node_next := Some a\<rparr>"]
    obtain q where q: "modify t (\<lambda>n. n\<lparr>node_next := Some a\<rparr>) p2 = Some q" "pool_owns q (insert a U)"
      "mem q = (mem p2)(t \<mapsto> Object \<lparr>node_order = rt, node_prev = k, node_next = Some a\<rparr>)"
      by auto
    show ?thesis
    proof (rule that [of a "level\<lparr>pl_tail := Some a\<rparr>" q])
      show "push_back level r p = Some (a, level\<lparr>pl_tail := Some a\<rparr>, q)"
        using new(1,2) q(1) t(1) by (simp add: push_back_def)
      show "level_rep (mem q) (level\<lparr>pl_tail := Some a\<rparr>) (xs @ [(a, r)])"
        using t tU new(5) by (auto simp: level_rep_def snoc tr seg_append q(3))
      show "\<forall>b \<in> U - addrs xs. mem q b = mem p b"
        using new(6) by (auto simp: q(3) snoc tr)
    qed (use new q in auto)
  qed
qed

lemma relink_prev_spec:
  assumes own: "pool_owns p U" and sub: "addrs xs \<subseteq> U" and dist: "distinct (map fst xs)"
    and s: "seg (mem p) None (pl_head level) xs k (Some a)"
    and a: "mem p a = Some (Object \<lparr>node_order = r, node_prev = k, node_next = n\<rparr>)"
  obtains level' q where "relink_prev level a p = Some (level', q)" and "pool_owns q U"
    and "seg (mem q) None (pl_head level') xs k n" and "pl_tail level' = pl_tail level"
    and "\<forall>b. b \<notin> addrs xs \<longrightarrow> mem q b = mem p b"
proof (cases xs rule: rev_cases)
  case Nil
  with s have "k = None" by auto
  with slab_pool.get_law [OF a] own Nil show ?thesis
    by (intro that [of "level\<lparr>pl_head := n\<rparr>" p]) (auto simp: relink_prev_def)
next
  case (snoc zs qr)
  obtain q rq where qr: "qr = (q, rq)" by force
  obtain j where q: "k = Some q" "seg (mem p) None (pl_head level) zs j (Some q)"
    "mem p q = Some (Object \<lparr>node_order = rq, node_prev = j, node_next = Some a\<rparr>)"
    using s by (auto simp: snoc qr seg_append)
  have qU: "q \<in> U" "q \<notin> addrs zs" using sub dist by (auto simp: snoc qr)
  from modify_law [OF own qU(1) q(3), of "\<lambda>x. x\<lparr>node_next := n\<rparr>"] obtain p1 where
    "modify q (\<lambda>x. x\<lparr>node_next := n\<rparr>) p = Some p1" "pool_owns p1 U"
    "mem p1 = (mem p)(q \<mapsto> Object \<lparr>node_order = rq, node_prev = j, node_next = n\<rparr>)"
    by auto
  with q qU slab_pool.get_law [OF a] show ?thesis
    by (intro that [of level p1]) (auto simp: snoc qr seg_append relink_prev_def)
qed

lemma relink_next_spec:
  assumes own: "pool_owns p U" and sub: "addrs ys \<subseteq> U" and dist: "distinct (map fst ys)"
    and s: "seg (mem p) (Some a) n ys (pl_tail level) None"
    and a: "mem p a = Some (Object \<lparr>node_order = r, node_prev = k, node_next = n\<rparr>)"
  obtains level' q where "relink_next level a p = Some (level', q)" and "pool_owns q U"
    and "seg (mem q) k n ys (pl_tail level') None" and "pl_head level' = pl_head level"
    and "\<forall>b. b \<notin> addrs ys \<longrightarrow> mem q b = mem p b"
proof (cases ys)
  case Nil
  with s have "n = None" by auto
  with slab_pool.get_law [OF a] own Nil show ?thesis
    by (intro that [of "level\<lparr>pl_tail := k\<rparr>" p]) (auto simp: relink_next_def)
next
  case (Cons qr zs)
  obtain q rq where qr: "qr = (q, rq)" by force
  obtain j where q: "n = Some q" "seg (mem p) (Some q) j zs (pl_tail level) None"
    "mem p q = Some (Object \<lparr>node_order = rq, node_prev = Some a, node_next = j\<rparr>)"
    using s by (auto simp: Cons qr)
  have qU: "q \<in> U" "q \<notin> addrs zs" using sub dist by (auto simp: Cons qr)
  from modify_law [OF own qU(1) q(3), of "\<lambda>x. x\<lparr>node_prev := k\<rparr>"] obtain p1 where
    "modify q (\<lambda>x. x\<lparr>node_prev := k\<rparr>) p = Some p1" "pool_owns p1 U"
    "mem p1 = (mem p)(q \<mapsto> Object \<lparr>node_order = rq, node_prev = k, node_next = j\<rparr>)"
    by auto
  with q qU slab_pool.get_law [OF a] show ?thesis
    by (intro that [of level p1]) (auto simp: Cons qr relink_next_def)
qed

text \<open>
  \<open>erase\<close> at any position: the neighbours are relinked, head and tail follow, the block goes
  back to the pool; \<open>pop_front\<close> is the same at the head.
\<close>

lemma erase_spec:
  assumes own: "pool_owns p U" and rep: "level_rep (mem p) level (xs @ (a, r) # ys)"
    and sub: "addrs (xs @ (a, r) # ys) \<subseteq> U" and dist: "distinct (map fst (xs @ (a, r) # ys))"
  obtains level' q where "erase level a p = Some (level', q)" and "pool_owns q (U - {a})"
    and "level_rep (mem q) level' (xs @ ys)"
    and "\<forall>b \<in> U - addrs (xs @ (a, r) # ys). mem q b = mem p b"
proof -
  let ?node = "\<lambda>k n. Some (Object \<lparr>node_order = r, node_prev = k, node_next = n\<rparr>)"
  obtain k n where a: "seg (mem p) None (pl_head level) xs k (Some a)" "mem p a = ?node k n"
    "seg (mem p) (Some a) n ys (pl_tail level) None"
    using rep by (auto simp: level_rep_def seg_append)
  have ad: "a \<notin> addrs xs" "a \<notin> addrs ys" "addrs xs \<inter> addrs ys = {}" "a \<in> U"
    "addrs xs \<subseteq> U" "addrs ys \<subseteq> U" "distinct (map fst xs)" "distinct (map fst ys)"
    using dist sub by (auto simp: image_iff)
  obtain level1 p1 where s1: "relink_prev level a p = Some (level1, p1)" "pool_owns p1 U"
    "seg (mem p1) None (pl_head level1) xs k n" "pl_tail level1 = pl_tail level"
    "\<forall>b. b \<notin> addrs xs \<longrightarrow> mem p1 b = mem p b"
    using relink_prev_spec [OF own ad(5,7) a(1,2)] by metis
  have a1: "mem p1 a = ?node k n" using s1(5) ad(1) a(2) by simp
  have ys1: "seg (mem p1) (Some a) n ys (pl_tail level1) None"
    using seg_agree [of ys "mem p1" "mem p"] s1(4,5) ad(3) a(3) by (metis disjoint_iff)
  obtain level2 p2 where s2: "relink_next level1 a p1 = Some (level2, p2)" "pool_owns p2 U"
    "seg (mem p2) k n ys (pl_tail level2) None" "pl_head level2 = pl_head level1"
    "\<forall>b. b \<notin> addrs ys \<longrightarrow> mem p2 b = mem p1 b"
    using relink_next_spec [OF s1(2) ad(6,8) ys1 a1] by metis
  have a2: "mem p2 a = ?node k n" using s2(5) ad(2) a1 by simp
  obtain p3 p4 where d: "destroy a p2 = Some p3" "deallocate a p3 = Some p4"
    "pool_owns p4 (U - {a})" "\<forall>b. b \<noteq> a \<longrightarrow> mem p4 b = mem p2 b"
    using slab_pool.delete_object [OF s2(2) ad(4) a2] by metis
  have "\<forall>b \<in> addrs xs. mem p4 b = mem p1 b" "\<forall>b \<in> addrs ys. mem p4 b = mem p2 b"
    using d(4) s2(5) ad by (metis disjoint_iff)+
  then have "seg (mem p4) None (pl_head level2) (xs @ ys) (pl_tail level2) None"
    using seg_agree [of xs "mem p4" "mem p1"] seg_agree [of ys "mem p4" "mem p2"] s1(3) s2(3,4)
    unfolding seg_append by metis
  moreover have "erase level a p = Some (level2, p4)"
    using s1(1) s2(1) d(1,2) by (simp add: erase_def)
  moreover have "\<forall>b \<in> U - addrs (xs @ (a, r) # ys). mem p4 b = mem p b"
    using d(4) s1(5) s2(5) by (simp add: image_Un)
  ultimately show ?thesis using d(3) by (intro that [of level2 p4]) (simp_all add: level_rep_def)
qed

lemma pop_front_spec:
  assumes own: "pool_owns p U" and rep: "level_rep (mem p) level ((a, r) # xs)"
    and sub: "addrs ((a, r) # xs) \<subseteq> U" and dist: "distinct (map fst ((a, r) # xs))"
  obtains level' q where "pop_front level p = Some (level', q)" and "pool_owns q (U - {a})"
    and "level_rep (mem q) level' xs" and "\<forall>b \<in> U - addrs ((a, r) # xs). mem q b = mem p b"
proof -
  obtain n where a: "pl_head level = Some a"
    "mem p a = Some (Object \<lparr>node_order = r, node_prev = None, node_next = n\<rparr>)"
    "seg (mem p) (Some a) n xs (pl_tail level) None"
    using rep by (rule level_rep_Cons)
  have ad: "a \<notin> addrs xs" "a \<in> U" "addrs xs \<subseteq> U" "distinct (map fst xs)"
    using dist sub by auto
  let ?l1 = "level\<lparr>pl_head := n\<rparr>"
  have s: "seg (mem p) (Some a) n xs (pl_tail ?l1) None" using a(3) by simp
  obtain level2 p1 where s1: "relink_next ?l1 a p = Some (level2, p1)" "pool_owns p1 U"
    "seg (mem p1) None n xs (pl_tail level2) None" "pl_head level2 = n"
    "\<forall>b. b \<notin> addrs xs \<longrightarrow> mem p1 b = mem p b"
    using relink_next_spec [OF own ad(3,4) s a(2)] by (metis PriceLevel.select_convs(1) PriceLevel.surjective PriceLevel.update_convs(1))
  have a1: "mem p1 a = Some (Object \<lparr>node_order = r, node_prev = None, node_next = n\<rparr>)"
    using s1(5) ad(1) a(2) by simp
  obtain p3 p4 where d: "destroy a p1 = Some p3" "deallocate a p3 = Some p4"
    "pool_owns p4 (U - {a})" "\<forall>b. b \<noteq> a \<longrightarrow> mem p4 b = mem p1 b"
    using slab_pool.delete_object [OF s1(2) ad(2) a1] by metis
  have "\<forall>b \<in> addrs xs. mem p4 b = mem p1 b" using d(4) ad(1) by metis
  then have "level_rep (mem p4) level2 xs"
    using seg_agree s1(3,4) unfolding level_rep_def by metis
  moreover have "pop_front level p = Some (level2, p4)"
    using s1(1) d(1,2) slab_pool.get_law [OF a(2)] a(1)
    by (cases n) (auto simp: pop_front_def relink_next_def bind_Some_iff)
  moreover have "\<forall>b \<in> U - addrs ((a, r) # xs). mem p4 b = mem p b"
    using d(4) s1(5) by simp
  ultimately show ?thesis using d(3) by (intro that [of level2 p4])
qed

subsection \<open>The traversals return, and what they compute\<close>

text \<open>Summing a level adds in list order; it is undefined exactly when a partial sum overflows.\<close>

fun sum_orders :: "Quantity \<Rightarrow> RestingOrder list \<Rightarrow> Quantity option" where
  "sum_orders acc [] = Some acc"
| "sum_orders acc (r # rs) = do {
     acc1 \<leftarrow> checked_add acc (order_quantity r);
     sum_orders acc1 rs
   }"

lemma sum_from_spec: "seg (mem p) pv h xs l None \<Longrightarrow> sum_from h acc p = sum_orders acc (map snd xs)"
proof (induction xs arbitrary: pv h acc)
  case Nil
  then show ?case by (simp add: sum_from.simps)
next
  case (Cons x xs)
  then show ?case
    by (cases x) (auto simp: sum_from.simps slab_pool.get_law intro!: Option.bind_cong)
qed

lemma sum_quantity_spec:
  "level_rep (mem p) level xs \<Longrightarrow> sum_quantity level p = sum_orders 0 (map snd xs)"
  by (simp add: sum_quantity_def level_rep_def sum_from_spec)

lemma collect_from_spec:
  "seg (mem p) pv h xs l None \<Longrightarrow> collect_from h ids p = Some (ids @ map (order_id \<circ> snd) xs)"
proof (induction xs arbitrary: pv h ids)
  case Nil
  then show ?case by (simp add: collect_from.simps)
next
  case (Cons x xs)
  then show ?case by (cases x) (auto simp: collect_from.simps slab_pool.get_law)
qed

lemma collect_ids_spec:
  "level_rep (mem p) level xs \<Longrightarrow> collect_ids level p = Some (map (order_id \<circ> snd) xs)"
  by (simp add: collect_ids_def level_rep_def collect_from_spec)

lemma destroy_nodes_spec:
  assumes "pool_owns p U" and "seg (mem p) pv h xs l None" and "addrs xs \<subseteq> U"
    and "distinct (map fst xs)"
  shows "\<exists>q. destroy_nodes h p = Some q \<and> pool_owns q (U - addrs xs) \<and>
    (\<forall>b. b \<notin> addrs xs \<longrightarrow> mem q b = mem p b)"
  using assms
proof (induction xs arbitrary: pv h p U)
  case Nil
  then show ?case by (simp add: destroy_nodes.simps)
next
  case (Cons x xs)
  obtain a r where x: "x = (a, r)" by force
  obtain n where a: "h = Some a" "mem p a = Some (Object \<lparr>node_order = r, node_prev = pv, node_next = n\<rparr>)"
    "seg (mem p) (Some a) n xs l None" "a \<in> U" "a \<notin> addrs xs"
    using Cons.prems(2-4) by (auto simp: x)
  obtain p1 p2 where d: "destroy a p = Some p1" "deallocate a p1 = Some p2"
    "pool_owns p2 (U - {a})" "\<forall>b. b \<noteq> a \<longrightarrow> mem p2 b = mem p b"
    using slab_pool.delete_object [OF Cons.prems(1) a(4,2)] by metis
  have s2: "seg (mem p2) (Some a) n xs l None"
    using seg_agree [of xs "mem p2" "mem p"] a(3,5) d(4) by metis
  have "addrs xs \<subseteq> U - {a}" "distinct (map fst xs)" using Cons.prems(3,4) a(5) by (auto simp: x)
  from Cons.IH [OF d(3) s2 this] obtain q where "destroy_nodes n p2 = Some q"
    "pool_owns q (U - {a} - addrs xs)" "\<forall>b. b \<notin> addrs xs \<longrightarrow> mem q b = mem p2 b"
    by blast
  moreover have "destroy_nodes h p = destroy_nodes n p2"
    using d(1,2) a(1) slab_pool.get_law [OF a(2)] by (subst destroy_nodes.simps) simp
  moreover have "U - addrs (x # xs) = U - {a} - addrs xs" by (auto simp: x)
  moreover have "\<forall>b. b \<notin> addrs (x # xs) \<longrightarrow> mem q b = mem p b"
    using calculation(3) d(4) by (simp add: x)
  ultimately show ?case by metis
qed

end
