(* ===== verification/Order_Book.thy ===== *)
theory Order_Book
  imports Ordered_Map Intrusive_List
begin

section \<open>The limit order book (order_book.hpp, order_book.cpp)\<close>

text \<open>
  The state of \<open>OrderBook\<close> and its operations as the code has them: two ordered maps of price
  levels, the hash index \<open>locations\<close> (an association list, found, erased and emplaced by key),
  the shared node pool and the sequence counter.  An operation is \<open>None\<close> when it would run into
  undefined behaviour (a bad pointer, a signed overflow, an iterator at the end) or would not
  return; the exception \<open>std::invalid_argument\<close> is a value.  The theory holds definitions only: the specification is Book_Spec,
  and Book_Refinement proves that the code implements it.
\<close>

record OrderLocation =
  loc_side :: side
  loc_price :: Price
  loc_node :: addr

record order_book =
  bids :: "(Price, PriceLevel) omap"
  asks :: "(Price, PriceLevel) omap"
  locations :: "(OrderId \<times> OrderLocation) list"
  node_pool :: pool
  next_sequence :: Sequence

datatype exn = InvalidArgument string

definition quantity_error :: exn where
  "quantity_error = InvalidArgument ''OrderBook::add_limit_order: quantity must be positive''"

definition duplicate_error :: exn where
  "duplicate_error = InvalidArgument ''OrderBook::add_limit_order: duplicate order id''"

definition book_new :: "order_book option" where
  "book_new = do {
     p \<leftarrow> slab_new order_node_layout kDefaultInitialCapacity;
     Some \<lparr>bids = [], asks = [], locations = [], node_pool = p, next_sequence = 0\<rparr>
   }"

definition emplace :: "'k \<Rightarrow> 'v \<Rightarrow> ('k \<times> 'v) list \<Rightarrow> ('k \<times> 'v) list" where
  "emplace k v m = (case map_of m k of None \<Rightarrow> (k, v) # m | Some _ \<Rightarrow> m)"

subsection \<open>Matching\<close>

text \<open>The variables the matching loops of \<open>add_limit_order\<close> change, the level maps apart.\<close>

record match_state =
  m_remaining :: Quantity
  m_trades :: "Trade list"
  m_sequence :: Sequence
  m_locations :: "(OrderId \<times> OrderLocation) list"
  m_pool :: pool

text \<open>One round of the inner loop: trade with the head order of the level.\<close>

definition match_head ::
  "OrderId \<Rightarrow> side \<Rightarrow> Price \<Rightarrow> match_state \<Rightarrow> PriceLevel \<Rightarrow> (match_state \<times> PriceLevel) option" where
  "match_head i sd level_price st level = do {
     h \<leftarrow> pl_head level;
     n \<leftarrow> load h (m_pool st);
     let resting = node_order n;
     let traded = min (m_remaining st) (order_quantity resting);
     let trade = \<lparr>aggressor_order_id = i, resting_order_id = order_id resting,
       aggressor_side = sd, trade_price = level_price, trade_quantity = traded,
       trade_sequence = m_sequence st\<rparr>;
     remaining \<leftarrow> checked_sub (m_remaining st) traded;
     left \<leftarrow> checked_sub (order_quantity resting) traded;
     p1 \<leftarrow> modify h (\<lambda>x. x\<lparr>node_order := (node_order x)\<lparr>order_quantity := left\<rparr>\<rparr>) (m_pool st);
     let st1 = st\<lparr>m_remaining := remaining, m_trades := m_trades st @ [trade],
       m_sequence := m_sequence st + 1, m_pool := p1\<rparr>;
     if left = 0
     then do {
       (level1, p2) \<leftarrow> pop_front level p1;
       Some (st1\<lparr>m_locations := AList.delete (order_id resting) (m_locations st), m_pool := p2\<rparr>,
             level1)
     }
     else Some (st1, level)
   }"

partial_function (option) match_level ::
  "OrderId \<Rightarrow> side \<Rightarrow> Price \<Rightarrow> match_state \<Rightarrow> PriceLevel \<Rightarrow> (match_state \<times> PriceLevel) option" where
  "match_level i sd level_price st level =
     (if m_remaining st > 0 \<and> pl_head level \<noteq> None
      then do {
        (st1, level1) \<leftarrow> match_head i sd level_price st level;
        match_level i sd level_price st1 level1
      }
      else Some (st, level))"

text \<open>
  The outer loop, written twice in the code, once per side; \<open>stop\<close> is its break condition on
  the best price.  \<open>begin()\<close> is the first element of the map.
\<close>

partial_function (option) match_levels ::
  "(Price \<Rightarrow> bool) \<Rightarrow> OrderId \<Rightarrow> side \<Rightarrow> match_state \<Rightarrow> (Price, PriceLevel) omap \<Rightarrow>
   (match_state \<times> (Price, PriceLevel) omap) option" where
  "match_levels stop i sd st levels =
     (if m_remaining st > 0
      then (case levels of
          [] \<Rightarrow> Some (st, levels)
        | (level_price, level) # others \<Rightarrow>
            if stop level_price then Some (st, levels)
            else do {
              (st1, level1) \<leftarrow> match_level i sd level_price st level;
              match_levels stop i sd st1
                (if pl_head level1 = None then others else (level_price, level1) # others)
            })
      else Some (st, levels))"

definition match_buy :: "OrderId \<Rightarrow> Price \<Rightarrow> match_state \<Rightarrow> order_book \<Rightarrow> (match_state \<times> order_book) option" where
  "match_buy i price st b = do {
     (st1, levels) \<leftarrow> match_levels (\<lambda>level_price. level_price > price) i Buy st (asks b);
     Some (st1, b\<lparr>asks := levels\<rparr>)
   }"

definition match_sell :: "OrderId \<Rightarrow> Price \<Rightarrow> match_state \<Rightarrow> order_book \<Rightarrow> (match_state \<times> order_book) option" where
  "match_sell i price st b = do {
     (st1, levels) \<leftarrow> match_levels (\<lambda>level_price. level_price < price) i Sell st (bids b);
     Some (st1, b\<lparr>bids := levels\<rparr>)
   }"

subsection \<open>add_limit_order\<close>

definition rest_order :: "OrderId \<Rightarrow> side \<Rightarrow> Price \<Rightarrow> Quantity \<Rightarrow> order_book \<Rightarrow> order_book option" where
  "rest_order i sd price remaining b = do {
     let seq = next_sequence b;
     let b1 = b\<lparr>next_sequence := seq + 1\<rparr>;
     let order = \<lparr>order_id = i, order_price = price, order_quantity = remaining,
       order_sequence = seq\<rparr>;
     if sd = Buy
     then do {
       let level = (case om_find bids_cmp price (bids b1) of None \<Rightarrow> empty_level | Some l \<Rightarrow> l);
       (node, level1, p) \<leftarrow> push_back level order (node_pool b1);
       Some (b1\<lparr>bids := om_put bids_cmp price level1 (bids b1), node_pool := p,
         locations := emplace i \<lparr>loc_side = sd, loc_price = price, loc_node = node\<rparr> (locations b1)\<rparr>)
     }
     else do {
       let level = (case om_find asks_cmp price (asks b1) of None \<Rightarrow> empty_level | Some l \<Rightarrow> l);
       (node, level1, p) \<leftarrow> push_back level order (node_pool b1);
       Some (b1\<lparr>asks := om_put asks_cmp price level1 (asks b1), node_pool := p,
         locations := emplace i \<lparr>loc_side = sd, loc_price = price, loc_node = node\<rparr> (locations b1)\<rparr>)
     }
   }"

definition add_limit_order ::
  "OrderId \<Rightarrow> side \<Rightarrow> Price \<Rightarrow> Quantity \<Rightarrow> order_book \<Rightarrow> ((exn + Trade list) \<times> order_book) option" where
  "add_limit_order i sd price quantity b =
     (if quantity \<le> 0 then Some (Inl quantity_error, b)
      else if map_of (locations b) i \<noteq> None then Some (Inl duplicate_error, b)
      else do {
        let st = \<lparr>m_remaining = quantity, m_trades = [], m_sequence = next_sequence b,
          m_locations = locations b, m_pool = node_pool b\<rparr>;
        (st1, b1) \<leftarrow> (if sd = Buy then match_buy i price st b else match_sell i price st b);
        let b2 = b1\<lparr>locations := m_locations st1, node_pool := m_pool st1,
          next_sequence := m_sequence st1\<rparr>;
        b3 \<leftarrow> (if m_remaining st1 > 0 then rest_order i sd price (m_remaining st1) b2 else Some b2);
        Some (Inr (m_trades st1), b3)
      })"

subsection \<open>cancel_order\<close>

definition erase_order ::
  "(Price \<Rightarrow> Price \<Rightarrow> bool) \<Rightarrow> OrderLocation \<Rightarrow> (Price, PriceLevel) omap \<Rightarrow> pool \<Rightarrow>
   ((Price, PriceLevel) omap \<times> pool) option" where
  "erase_order lt loc levels p = do {
     level \<leftarrow> om_find lt (loc_price loc) levels;
     (level1, p1) \<leftarrow> erase level (loc_node loc) p;
     Some (if pl_head level1 = None then om_erase lt (loc_price loc) levels
           else om_put lt (loc_price loc) level1 levels, p1)
   }"

definition cancel_order :: "OrderId \<Rightarrow> order_book \<Rightarrow> (bool \<times> order_book) option" where
  "cancel_order i b = (case map_of (locations b) i of
     None \<Rightarrow> Some (False, b)
   | Some loc \<Rightarrow> do {
       let b1 = b\<lparr>locations := AList.delete i (locations b)\<rparr>;
       if loc_side loc = Buy
       then do {
         (levels, p) \<leftarrow> erase_order bids_cmp loc (bids b1) (node_pool b1);
         Some (True, b1\<lparr>bids := levels, node_pool := p\<rparr>)
       }
       else do {
         (levels, p) \<leftarrow> erase_order asks_cmp loc (asks b1) (node_pool b1);
         Some (True, b1\<lparr>asks := levels, node_pool := p\<rparr>)
       }
     })"

subsection \<open>Observers\<close>

definition best_bid :: "order_book \<Rightarrow> Price option" where
  "best_bid b = (case bids b of [] \<Rightarrow> None | (price, _) # _ \<Rightarrow> Some price)"

definition best_ask :: "order_book \<Rightarrow> Price option" where
  "best_ask b = (case asks b of [] \<Rightarrow> None | (price, _) # _ \<Rightarrow> Some price)"

definition quantity_at :: "side \<Rightarrow> Price \<Rightarrow> order_book \<Rightarrow> Quantity option" where
  "quantity_at sd price b =
     (if sd = Buy
      then (case om_find bids_cmp price (bids b) of
          None \<Rightarrow> Some 0 | Some level \<Rightarrow> sum_quantity level (node_pool b))
      else (case om_find asks_cmp price (asks b) of
          None \<Rightarrow> Some 0 | Some level \<Rightarrow> sum_quantity level (node_pool b)))"

definition order_count :: "order_book \<Rightarrow> size_t" where
  "order_count b = of_nat (length (locations b))"

fun level_sums :: "(Price, PriceLevel) omap \<Rightarrow> pool \<Rightarrow> (Price \<times> Quantity) list option" where
  "level_sums [] p = Some []"
| "level_sums ((price, level) # levels) p = do {
     q \<leftarrow> sum_quantity level p;
     qs \<leftarrow> level_sums levels p;
     Some ((price, q) # qs)
   }"

definition bid_levels :: "order_book \<Rightarrow> (Price \<times> Quantity) list option" where
  "bid_levels b = level_sums (bids b) (node_pool b)"

definition ask_levels :: "order_book \<Rightarrow> (Price \<times> Quantity) list option" where
  "ask_levels b = level_sums (asks b) (node_pool b)"

definition orders_at :: "side \<Rightarrow> Price \<Rightarrow> order_book \<Rightarrow> OrderId list option" where
  "orders_at sd price b =
     (if sd = Buy
      then (case om_find bids_cmp price (bids b) of
          None \<Rightarrow> Some [] | Some level \<Rightarrow> collect_ids level (node_pool b))
      else (case om_find asks_cmp price (asks b) of
          None \<Rightarrow> Some [] | Some level \<Rightarrow> collect_ids level (node_pool b)))"

subsection \<open>Destruction\<close>

fun destroy_levels :: "(Price, PriceLevel) omap \<Rightarrow> pool \<Rightarrow> pool option" where
  "destroy_levels [] p = Some p"
| "destroy_levels ((price, level) # levels) p = do {
     p1 \<leftarrow> destroy_nodes (pl_head level) p;
     destroy_levels levels p1
   }"

definition book_destroy :: "order_book \<Rightarrow> pool option" where
  "book_destroy b = do {
     p1 \<leftarrow> destroy_levels (bids b) (node_pool b);
     destroy_levels (asks b) p1
   }"

subsection \<open>Sequences of calls\<close>

text \<open>What a client (the matching-engine thread) does: any sequence of the two commands.\<close>

datatype command =
    AddLimit OrderId side Price Quantity
  | Cancel OrderId

datatype reply =
    Added "exn + Trade list"
  | Cancelled bool

fun exec :: "command \<Rightarrow> order_book \<Rightarrow> (reply \<times> order_book) option" where
  "exec (AddLimit i sd price quantity) b = do {
     (r, b1) \<leftarrow> add_limit_order i sd price quantity b;
     Some (Added r, b1)
   }"
| "exec (Cancel i) b = do {
     (r, b1) \<leftarrow> cancel_order i b;
     Some (Cancelled r, b1)
   }"

fun run :: "command list \<Rightarrow> order_book \<Rightarrow> (reply list \<times> order_book) option" where
  "run [] b = Some ([], b)"
| "run (c # cs) b = do {
     (r, b1) \<leftarrow> exec c b;
     (rs, b2) \<leftarrow> run cs b1;
     Some (r # rs, b2)
   }"

end
