(* ===== verification/Book_Spec.thy ===== *)
theory Book_Spec
  imports Order_Book "HOL-Library.Multiset"
begin

section \<open>The specification: a book of plain queues\<close>

text \<open>
  What the order book promises, without pointers, pool or index: two maps from prices to FIFO
  queues of orders, best price first.  The theory defines the specified operations and proves
  what makes them right: the invariant \<open>spec_inv\<close> (sorted sides, no empty level, positive
  quantities, unique ids, an uncrossed book), price-time priority, conservation of quantity,
  the numbering of trades.  Book_Refinement shows that the code implements it.
\<close>

type_synonym queue = "RestingOrder list"
type_synonym depth = "(Price, queue) omap"

record spec_book =
  sp_bids :: depth
  sp_asks :: depth
  sp_sequence :: Sequence

definition spec_new :: spec_book where
  "spec_new = \<lparr>sp_bids = [], sp_asks = [], sp_sequence = 0\<rparr>"

definition orders_of :: "depth \<Rightarrow> RestingOrder list" where
  "orders_of d = concat (map snd d)"

definition spec_orders :: "spec_book \<Rightarrow> RestingOrder list" where
  "spec_orders A = orders_of (sp_bids A) @ orders_of (sp_asks A)"

definition spec_ids :: "spec_book \<Rightarrow> OrderId list" where
  "spec_ids A = map order_id (spec_orders A)"

lemma orders_of_simps [simp]:
  "orders_of [] = []" "orders_of ((p, q) # d) = q @ orders_of d" "orders_of (d @ e) = orders_of d @ orders_of e"
  by (simp_all add: orders_of_def)

subsection \<open>Matching against one queue, then against the levels in order\<close>

definition trade_with :: "OrderId \<Rightarrow> side \<Rightarrow> Price \<Rightarrow> Quantity \<Rightarrow> Sequence \<Rightarrow> RestingOrder \<Rightarrow> Trade" where
  "trade_with i sd price traded sq r =
     \<lparr>aggressor_order_id = i, resting_order_id = order_id r, aggressor_side = sd,
      trade_price = price, trade_quantity = traded, trade_sequence = sq\<rparr>"

fun fill_queue ::
  "OrderId \<Rightarrow> side \<Rightarrow> Price \<Rightarrow> Quantity \<Rightarrow> Sequence \<Rightarrow> queue \<Rightarrow> Trade list \<times> Quantity \<times> Sequence \<times> queue" where
  "fill_queue i sd price rem sq [] = ([], rem, sq, [])"
| "fill_queue i sd price rem sq (r # rs) =
     (if rem \<le> 0 then ([], rem, sq, r # rs)
      else let traded = min rem (order_quantity r);
               t = trade_with i sd price traded sq r
           in if order_quantity r = traded
              then (case fill_queue i sd price (rem - traded) (sq + 1) rs of
                  (ts, rem1, sq1, rs1) \<Rightarrow> (t # ts, rem1, sq1, rs1))
              else ([t], rem - traded, sq + 1,
                    r\<lparr>order_quantity := order_quantity r - traded\<rparr> # rs))"

fun fill_depth ::
  "(Price \<Rightarrow> bool) \<Rightarrow> OrderId \<Rightarrow> side \<Rightarrow> Quantity \<Rightarrow> Sequence \<Rightarrow> depth \<Rightarrow> Trade list \<times> Quantity \<times> Sequence \<times> depth" where
  "fill_depth stop i sd rem sq [] = ([], rem, sq, [])"
| "fill_depth stop i sd rem sq ((price, rs) # d) =
     (if rem \<le> 0 \<or> stop price then ([], rem, sq, (price, rs) # d)
      else (case fill_queue i sd price rem sq rs of
          (ts, rem1, sq1, rs1) \<Rightarrow>
            if rs1 = []
            then (case fill_depth stop i sd rem1 sq1 d of
                (ts2, rem2, sq2, d2) \<Rightarrow> (ts @ ts2, rem2, sq2, d2))
            else (ts, rem1, sq1, (price, rs1) # d)))"

subsection \<open>The operations\<close>

definition enqueue :: "(Price \<Rightarrow> Price \<Rightarrow> bool) \<Rightarrow> RestingOrder \<Rightarrow> depth \<Rightarrow> depth" where
  "enqueue lt r d = om_put lt (order_price r)
     ((case om_find lt (order_price r) d of None \<Rightarrow> [] | Some q \<Rightarrow> q) @ [r]) d"

definition spec_match :: "OrderId \<Rightarrow> side \<Rightarrow> Price \<Rightarrow> Quantity \<Rightarrow> spec_book \<Rightarrow> Trade list \<times> Quantity \<times> spec_book" where
  "spec_match i sd price quantity A =
     (if sd = Buy
      then (case fill_depth (\<lambda>p. p > price) i sd quantity (sp_sequence A) (sp_asks A) of
          (ts, rem, sq, d) \<Rightarrow> (ts, rem, A\<lparr>sp_asks := d, sp_sequence := sq\<rparr>))
      else (case fill_depth (\<lambda>p. p < price) i sd quantity (sp_sequence A) (sp_bids A) of
          (ts, rem, sq, d) \<Rightarrow> (ts, rem, A\<lparr>sp_bids := d, sp_sequence := sq\<rparr>)))"

definition spec_rest :: "OrderId \<Rightarrow> side \<Rightarrow> Price \<Rightarrow> Quantity \<Rightarrow> spec_book \<Rightarrow> spec_book" where
  "spec_rest i sd price rem A =
     (let r = \<lparr>order_id = i, order_price = price, order_quantity = rem,
        order_sequence = sp_sequence A\<rparr>;
          A1 = A\<lparr>sp_sequence := sp_sequence A + 1\<rparr>
      in if sd = Buy then A1\<lparr>sp_bids := enqueue bids_cmp r (sp_bids A)\<rparr>
         else A1\<lparr>sp_asks := enqueue asks_cmp r (sp_asks A)\<rparr>)"

definition spec_add :: "OrderId \<Rightarrow> side \<Rightarrow> Price \<Rightarrow> Quantity \<Rightarrow> spec_book \<Rightarrow> (exn + Trade list) \<times> spec_book" where
  "spec_add i sd price quantity A =
     (if quantity \<le> 0 then (Inl quantity_error, A)
      else if i \<in> set (spec_ids A) then (Inl duplicate_error, A)
      else (case spec_match i sd price quantity A of
          (ts, rem, A1) \<Rightarrow> (Inr ts, if rem > 0 then spec_rest i sd price rem A1 else A1)))"

definition drop_order :: "OrderId \<Rightarrow> depth \<Rightarrow> depth" where
  "drop_order i d =
     filter (\<lambda>(p, q). q \<noteq> []) (map (\<lambda>(p, q). (p, filter (\<lambda>r. order_id r \<noteq> i) q)) d)"

definition spec_cancel :: "OrderId \<Rightarrow> spec_book \<Rightarrow> bool \<times> spec_book" where
  "spec_cancel i A =
     (i \<in> set (spec_ids A),
      A\<lparr>sp_bids := drop_order i (sp_bids A), sp_asks := drop_order i (sp_asks A)\<rparr>)"

fun spec_exec :: "command \<Rightarrow> spec_book \<Rightarrow> reply \<times> spec_book" where
  "spec_exec (AddLimit i sd price quantity) A =
     (case spec_add i sd price quantity A of (r, A1) \<Rightarrow> (Added r, A1))"
| "spec_exec (Cancel i) A = (case spec_cancel i A of (r, A1) \<Rightarrow> (Cancelled r, A1))"

fun spec_run :: "command list \<Rightarrow> spec_book \<Rightarrow> reply list \<times> spec_book" where
  "spec_run [] A = ([], A)"
| "spec_run (c # cs) A =
     (case spec_exec c A of (r, A1) \<Rightarrow> (case spec_run cs A1 of (rs, A2) \<Rightarrow> (r # rs, A2)))"

subsection \<open>The invariant\<close>

definition depth_ok :: "(Price \<Rightarrow> Price \<Rightarrow> bool) \<Rightarrow> depth \<Rightarrow> bool" where
  "depth_ok lt d \<longleftrightarrow> om_sorted lt d \<and>
     (\<forall>(p, q) \<in> set d. q \<noteq> [] \<and> (\<forall>r \<in> set q. order_price r = p \<and> order_quantity r > 0))"

definition spec_inv :: "spec_book \<Rightarrow> bool" where
  "spec_inv A \<longleftrightarrow> depth_ok bids_cmp (sp_bids A) \<and> depth_ok asks_cmp (sp_asks A) \<and>
     distinct (spec_ids A) \<and>
     (\<forall>pb \<in> fst ` set (sp_bids A). \<forall>pa \<in> fst ` set (sp_asks A). pb < pa)"

lemma depth_ok_Nil [simp]: "depth_ok lt []"
  by (simp add: depth_ok_def)

lemma depth_ok_Cons:
  "depth_ok lt ((p, q) # d) \<longleftrightarrow> q \<noteq> [] \<and> (\<forall>r \<in> set q. order_price r = p \<and> order_quantity r > 0) \<and>
     (\<forall>k \<in> fst ` set d. lt p k) \<and> depth_ok lt d"
  by (auto simp: depth_ok_def)

lemma depth_ok_append:
  "depth_ok lt (d @ e) \<longleftrightarrow> depth_ok lt d \<and> depth_ok lt e \<and>
     (\<forall>a \<in> fst ` set d. \<forall>b \<in> fst ` set e. lt a b)"
proof (induction d)
  case (Cons pq d)
  obtain p q where "pq = (p, q)" by force
  with Cons show ?case by (simp add: depth_ok_Cons image_Un ball_Un) blast
qed simp

lemma spec_inv_new: "spec_inv spec_new"
  by (simp add: spec_inv_def spec_new_def spec_ids_def spec_orders_def)

subsection \<open>Facts about one queue\<close>

definition qsum :: "RestingOrder list \<Rightarrow> int" where
  "qsum rs = (\<Sum>r\<leftarrow>rs. val (order_quantity r))"

definition tsum :: "Trade list \<Rightarrow> int" where
  "tsum ts = (\<Sum>t\<leftarrow>ts. val (trade_quantity t))"

lemma qsum_simps [simp]:
  "qsum [] = 0" "qsum (r # rs) = val (order_quantity r) + qsum rs" "qsum (rs @ rs') = qsum rs + qsum rs'"
  by (simp_all add: qsum_def)

lemma tsum_simps [simp]:
  "tsum [] = 0" "tsum (t # ts) = val (trade_quantity t) + tsum ts" "tsum (ts @ ts') = tsum ts + tsum ts'"
  by (simp_all add: tsum_def)

abbreviation positive :: "RestingOrder list \<Rightarrow> bool" where
  "positive rs \<equiv> \<forall>r \<in> set rs. order_quantity r > 0"

lemma qsum_nonneg: "positive rs \<Longrightarrow> 0 \<le> qsum rs"
  by (induction rs) (auto simp: less_int64_def)

text \<open>The head order is filled completely when the incoming quantity reaches it.\<close>

lemma fill_queue_stop: "rem \<le> 0 \<Longrightarrow> fill_queue i sd p rem sq rs = ([], rem, sq, rs)"
  by (cases rs) simp_all

lemma fill_queue_full:
  assumes "0 < order_quantity r" and "order_quantity r \<le> rem"
  shows "fill_queue i sd p rem sq (r # rs) =
    (case fill_queue i sd p (rem - order_quantity r) (sq + 1) rs of
       (ts, rem1, sq1, rs1) \<Rightarrow> (trade_with i sd p (order_quantity r) sq r # ts, rem1, sq1, rs1))"
  using assms by (auto simp: Let_def min_def not_le)

lemma fill_queue_part:
  assumes "0 < rem" and "rem < order_quantity r"
  shows "fill_queue i sd p rem sq (r # rs) =
    ([trade_with i sd p rem sq r], 0, sq + 1, r\<lparr>order_quantity := order_quantity r - rem\<rparr> # rs)"
  using assms by (auto simp: Let_def min_def)

lemma val_diff:
  assumes "0 \<le> b" and "b \<le> a"
  shows "val (a - b) = val a - val b" and "0 \<le> a - b" and "b < a \<Longrightarrow> 0 < a - b"
  using checked_sub_le(2) [OF assms] assms by (auto simp: int64_order_defs)

lemma fill_queue_cases [consumes 2, case_names empty stop full part]:
  assumes "0 \<le> rem" and "positive rs"
  obtains "rs = []" | "rs \<noteq> []" "rem = 0"
  | r rs' where "rs = r # rs'" "0 < order_quantity r" "order_quantity r \<le> rem" "positive rs'"
      "val (rem - order_quantity r) = val rem - val (order_quantity r)" "0 \<le> rem - order_quantity r"
  | r rs' where "rs = r # rs'" "0 < rem" "rem < order_quantity r" "positive rs'"
      "val (order_quantity r - rem) = val (order_quantity r) - val rem" "0 < order_quantity r - rem"
proof (cases rs)
  case Nil
  then show ?thesis by (rule that(1))
next
  case (Cons r rs')
  consider "rem = 0" | "order_quantity r \<le> rem" | "0 < rem" "rem < order_quantity r"
    using assms(1) by fastforce
  then show ?thesis
    by cases (use that(2-4) assms Cons val_diff in \<open>simp_all add: less_imp_le\<close>)
qed

text \<open>
  What a matching pass over the orders \<open>rs\<close> guarantees: the quantity that left the incoming
  order is what the trades carry and what left the queue, and what stays is a suffix of the
  queue, in order, its head possibly reduced.
\<close>

definition okey :: "RestingOrder \<Rightarrow> OrderId \<times> Price \<times> Sequence" where
  "okey r = (order_id r, order_price r, order_sequence r)"

lemma okey_quantity [simp]: "okey (r\<lparr>order_quantity := q\<rparr>) = okey r"
  by (simp add: okey_def)

definition fill_ok ::
  "Quantity \<Rightarrow> RestingOrder list \<Rightarrow> Trade list \<Rightarrow> Quantity \<Rightarrow> RestingOrder list \<Rightarrow> bool" where
  "fill_ok rem rs ts rem' rs' \<longleftrightarrow>
     0 \<le> rem' \<and> val rem = tsum ts + val rem' \<and> qsum rs = tsum ts + qsum rs' \<and> positive rs' \<and>
     (\<exists>us. map okey rs = us @ map okey rs')"

lemma fill_ok_refl: "0 \<le> rem \<Longrightarrow> positive rs \<Longrightarrow> fill_ok rem rs [] rem rs"
  by (simp add: fill_ok_def)

lemma fill_ok_trans:
  assumes "fill_ok rem rs ts rem1 []" and "fill_ok rem1 ss ts2 rem2 ss2"
  shows "fill_ok rem (rs @ ss) (ts @ ts2) rem2 ss2"
  using assms unfolding fill_ok_def by (auto intro: exI [of _ "map okey rs @ us" for us])

lemma fill_ok_frame:
  assumes "fill_ok rem rs ts rem1 rs1" and "positive ss"
  shows "fill_ok rem (rs @ ss) ts rem1 (rs1 @ ss)"
  using assms unfolding fill_ok_def by auto

lemma fill_ok_subset:
  assumes "fill_ok rem rs ts rem' rs'" and "r' \<in> set rs'"
  shows "\<exists>r \<in> set rs. okey r = okey r'"
proof -
  obtain us where us: "map okey rs = us @ map okey rs'" using assms(1) by (auto simp: fill_ok_def)
  have "okey r' \<in> set (us @ map okey rs')" using assms(2) by simp
  then show ?thesis unfolding us [symmetric] by auto
qed

lemma fill_queue_ok:
  assumes "0 \<le> rem" and "positive rs" and "fill_queue i sd p rem sq rs = (ts, rem', sq', rs')"
  shows "fill_ok rem rs ts rem' rs' \<and> (rs' \<noteq> [] \<longrightarrow> rem' = 0)"
  using assms
proof (induction rs arbitrary: rem sq ts rem' sq' rs')
  case Nil
  then show ?case by (simp add: fill_ok_refl)
next
  case (Cons r rs)
  from Cons.prems(1,2) show ?case
  proof (cases rule: fill_queue_cases)
    case stop
    with Cons.prems show ?thesis by (auto simp: fill_ok_refl)
  next
    case (full r0 rs0)
    then have r: "r0 = r" "rs0 = rs" by simp_all
    obtain ts1 where ts1: "fill_queue i sd p (rem - order_quantity r) (sq + 1) rs = (ts1, rem', sq', rs')"
      "ts = trade_with i sd p (order_quantity r) sq r # ts1"
      using Cons.prems(3) fill_queue_full [OF full(2,3), of i sd p sq rs] r
      by (auto split: prod.splits)
    have "fill_ok (rem - order_quantity r) rs ts1 rem' rs' \<and> (rs' \<noteq> [] \<longrightarrow> rem' = 0)"
      by (rule Cons.IH [OF _ _ ts1(1)]) (use full r in auto)
    moreover have "fill_ok rem [r] [trade_with i sd p (order_quantity r) sq r] (rem - order_quantity r) []"
      using full r by (simp add: fill_ok_def trade_with_def)
    ultimately show ?thesis using fill_ok_trans [of rem "[r]"] ts1(2) by fastforce
  next
    case (part r0 rs0)
    with Cons.prems(3) fill_queue_part [OF part(2,3), of i sd p sq rs] show ?thesis
      by (auto simp: fill_ok_def trade_with_def)
  qed simp
qed

text \<open>Every trade is with the incoming order, at the queue's price, and they are numbered in order.\<close>

definition numbered :: "Sequence \<Rightarrow> Trade list \<Rightarrow> Sequence \<Rightarrow> bool" where
  "numbered sq ts sq' \<longleftrightarrow> map trade_sequence ts = map (\<lambda>k. sq + of_nat k) [0..<length ts] \<and>
     sq' = sq + of_nat (length ts)"

lemma numbered_Nil [simp]: "numbered sq [] sq' \<longleftrightarrow> sq' = sq"
  by (simp add: numbered_def)

lemma numbered_append:
  assumes "numbered sq ts sq1" and "numbered sq1 us sq2"
  shows "numbered sq (ts @ us) sq2"
proof -
  let ?n = "length ts" and ?m = "length us"
  have sq: "sq1 = sq + of_nat ?n" "sq2 = sq + of_nat (?n + ?m)"
    "map trade_sequence ts = map (\<lambda>k. sq + of_nat k) [0..<?n]"
    "map trade_sequence us = map (\<lambda>k. sq + of_nat ?n + of_nat k) [0..<?m]"
    using assms by (simp_all add: numbered_def add.assoc)
  have "map (\<lambda>k. sq + of_nat k) [?n..<?n + ?m] = map (\<lambda>k. sq + of_nat ?n + of_nat k) [0..<?m]"
    by (rule nth_equalityI) (simp_all add: add.assoc)
  moreover have "[0..<?n + ?m] = [0..<?n] @ [?n..<?n + ?m]" by (rule upt_add_eq_append) simp
  ultimately show ?thesis
    unfolding numbered_def by (simp only: map_append length_append sq simp_thms)
qed

lemma numbered_Cons:
  "trade_sequence t = sq \<Longrightarrow> numbered (sq + 1) ts sq' \<Longrightarrow> numbered sq (t # ts) sq'"
  using numbered_append [of sq "[t]" "sq + 1" ts sq'] by (simp add: numbered_def)

lemma fill_queue_trades:
  assumes "fill_queue i sd p rem sq rs = (ts, rem', sq', rs')"
  shows "numbered sq ts sq' \<and>
    (\<forall>t \<in> set ts. aggressor_order_id t = i \<and> aggressor_side t = sd \<and> trade_price t = p \<and>
      resting_order_id t \<in> order_id ` set rs)"
  using assms
proof (induction rs arbitrary: rem sq ts rem' sq' rs')
  case (Cons r rs)
  show ?case
  proof (cases "rem \<le> 0")
    case False
    define traded where "traded = min rem (order_quantity r)"
    obtain ts1 rem1 sq1 rs1 where f:
      "fill_queue i sd p (rem - traded) (sq + 1) rs = (ts1, rem1, sq1, rs1)" by (metis prod_cases4)
    have t: "trade_sequence (trade_with i sd p traded sq r) = sq"
      "numbered sq [trade_with i sd p traded sq r] (sq + 1)"
      by (simp_all add: trade_with_def numbered_def)
    from False Cons.prems f consider
        "ts = trade_with i sd p traded sq r # ts1" "sq' = sq1"
      | "ts = [trade_with i sd p traded sq r]" "sq' = sq + 1"
      by (auto simp: Let_def traded_def [symmetric] split: if_splits)
    then show ?thesis
      using Cons.IH [OF f] t by cases (auto intro: numbered_Cons simp: trade_with_def)
  qed (use Cons.prems in simp)
qed simp

subsection \<open>Facts about the levels of a side\<close>

lemma depth_ok_positive: "depth_ok lt d \<Longrightarrow> positive (orders_of d)"
  by (induction d) (auto simp: depth_ok_Cons)

lemma depth_ok_queue: "depth_ok lt d \<Longrightarrow> (p, q) \<in> set d \<Longrightarrow> q \<noteq> [] \<and> positive q"
  by (auto simp: depth_ok_def)

lemma depth_ok_sorted: "depth_ok lt d \<Longrightarrow> om_sorted lt d"
  by (simp add: depth_ok_def)

lemma depth_ok_prices: "depth_ok lt d \<Longrightarrow> (p, q) \<in> set d \<Longrightarrow> r \<in> set q \<Longrightarrow> order_price r = p"
  by (auto simp: depth_ok_def)

text \<open>Shrinking the first queue of a side, or dropping it, keeps the side well formed.\<close>

lemma fill_depth_ok:
  assumes "0 \<le> rem" and "depth_ok lt d" and "fill_depth stop i sd rem sq d = (ts, rem', sq', d')"
  shows "fill_ok rem (orders_of d) ts rem' (orders_of d') \<and> depth_ok lt d' \<and>
    (\<exists>us. map fst d = us @ map fst d') \<and> (rem' \<noteq> 0 \<longrightarrow> d' = [] \<or> stop (fst (hd d')))"
  using assms
proof (induction d arbitrary: rem sq ts rem' sq' d')
  case Nil
  then show ?case by (simp add: fill_ok_refl)
next
  case (Cons pq d)
  obtain p q where pq: "pq = (p, q)" by force
  have q: "positive q" "depth_ok lt d" "\<forall>k \<in> fst ` set d. lt p k"
    "\<forall>r \<in> set q. order_price r = p"
    using Cons.prems(2) by (auto simp: pq depth_ok_Cons)
  note posd = depth_ok_positive [OF q(2)]
  show ?case
  proof (cases "rem \<le> 0 \<or> stop p")
    case True
    then have "ts = []" "rem' = rem" "d' = (p, q) # d" "rem \<noteq> 0 \<Longrightarrow> stop p"
      using Cons.prems(1,3) by (auto simp: pq)
    with Cons.prems(1,2) q(1) posd show ?thesis by (auto simp: pq intro!: fill_ok_refl)
  next
    case False
    obtain ts1 rem1 sq1 q1 where f: "fill_queue i sd p rem sq q = (ts1, rem1, sq1, q1)"
      by (metis prod_cases4)
    have fq: "fill_ok rem q ts1 rem1 q1" "q1 \<noteq> [] \<Longrightarrow> rem1 = 0"
      using fill_queue_ok [OF Cons.prems(1) q(1) f] by auto
    show ?thesis
    proof (cases "q1 = []")
      case True
      obtain ts2 rem2 sq2 d2 where g: "fill_depth stop i sd rem1 sq1 d = (ts2, rem2, sq2, d2)"
        by (metis prod_cases4)
      have res: "ts = ts1 @ ts2" "rem' = rem2" "d' = d2"
        using Cons.prems(3) False f g True by (auto simp: pq)
      have "0 \<le> rem1" using fq(1) by (simp add: fill_ok_def)
      from Cons.IH [OF this q(2) g] fq(1) show ?thesis
        unfolding res pq True by (auto intro: fill_ok_trans exI [of _ "p # us" for us])
    next
      case nonempty: False
      have res: "ts = ts1" "rem' = rem1" "d' = (p, q1) # d"
        using Cons.prems(3) False f nonempty by (auto simp: pq)
      have "positive q1" "\<forall>r \<in> set q1. order_price r = p"
        using fq(1) fill_ok_subset [OF fq(1)] q(4) by (auto simp: fill_ok_def okey_def)
      with fq q posd nonempty show ?thesis
        unfolding res pq by (auto simp: depth_ok_Cons intro: fill_ok_frame)
    qed
  qed
qed

lemma fill_depth_trades:
  assumes "fill_depth stop i sd rem sq d = (ts, rem', sq', d')"
  shows "numbered sq ts sq' \<and>
    (\<forall>t \<in> set ts. aggressor_order_id t = i \<and> aggressor_side t = sd \<and>
      \<not> stop (trade_price t) \<and> trade_price t \<in> fst ` set d)"
  using assms
proof (induction d arbitrary: rem sq ts rem' sq' d')
  case (Cons pq d)
  obtain p q where pq: "pq = (p, q)" by force
  show ?case
  proof (cases "rem \<le> 0 \<or> stop p")
    case False
    obtain ts1 rem1 sq1 q1 where f: "fill_queue i sd p rem sq q = (ts1, rem1, sq1, q1)"
      by (metis prod_cases4)
    obtain ts2 rem2 sq2 d2 where g: "fill_depth stop i sd rem1 sq1 d = (ts2, rem2, sq2, d2)"
      by (metis prod_cases4)
    from fill_queue_trades [OF f] Cons.IH [OF g] Cons.prems f g False show ?thesis
      by (cases "q1 = []") (auto simp: pq intro: numbered_append)
  qed (use Cons.prems in \<open>auto simp: pq\<close>)
qed simp

subsection \<open>Price-time priority\<close>

text \<open>
  The reference: hand the incoming quantity out over the crossing orders, best price first and
  oldest first at each price, each order getting as much as it can take.  In closed form, the
  \<open>k\<close>-th order of that list gets what is left after the orders before it, up to its size.
\<close>

fun greedy :: "int \<Rightarrow> RestingOrder list \<Rightarrow> (OrderId \<times> Price \<times> int) list" where
  "greedy rem [] = []"
| "greedy rem (r # rs) =
     (if rem \<le> 0 then []
      else (let q = min rem (val (order_quantity r))
            in (order_id r, order_price r, q) # greedy (rem - q) rs))"

definition crossing :: "(Price \<Rightarrow> bool) \<Rightarrow> depth \<Rightarrow> RestingOrder list" where
  "crossing stop d = orders_of (takeWhile (\<lambda>(p, q). \<not> stop p) d)"

definition fill_of :: "Trade \<Rightarrow> OrderId \<times> Price \<times> int" where
  "fill_of t = (resting_order_id t, trade_price t, val (trade_quantity t))"

lemma fill_of_trade_with [simp]:
  "fill_of (trade_with i sd p q sq r) = (order_id r, p, val q)"
  by (simp add: fill_of_def trade_with_def)

lemma greedy_nonpos [simp]: "rem \<le> 0 \<Longrightarrow> greedy rem rs = []"
  by (cases rs) simp_all

lemma greedy_append:
  "positive rs \<Longrightarrow> greedy rem (rs @ ss) = greedy rem rs @ greedy (rem - qsum rs) ss"
proof (induction rs arbitrary: rem)
  case (Cons r rs)
  have r: "0 < val (order_quantity r)" "0 \<le> qsum rs"
    using Cons.prems qsum_nonneg [of rs] by (auto simp: less_int64_def)
  show ?case
  proof (cases "rem \<le> val (order_quantity r)")
    case True
    with r show ?thesis by (auto simp: Let_def min_def)
  next
    case False
    with r Cons show ?thesis by (auto simp: Let_def min_def algebra_simps)
  qed
qed simp

lemma greedy_closed_form:
  assumes "positive rs"
  shows "greedy rem rs =
    map (\<lambda>k. (order_id (rs ! k), order_price (rs ! k),
              min (rem - qsum (take k rs)) (val (order_quantity (rs ! k)))))
        (filter (\<lambda>k. qsum (take k rs) < rem) [0..<length rs])"
  using assms
proof (induction rs rule: rev_induct)
  case (snoc r rs)
  then have "greedy rem (rs @ [r]) = greedy rem rs @ greedy (rem - qsum rs) [r]"
    by (simp add: greedy_append)
  with snoc show ?case
    by (auto simp: nth_append Let_def intro!: map_cong filter_cong arg_cong2 [where f = "(@)"])
qed simp

lemma fill_queue_greedy:
  assumes "0 \<le> rem" and "positive rs" and "\<forall>r \<in> set rs. order_price r = p"
    and "fill_queue i sd p rem sq rs = (ts, rem', sq', rs')"
  shows "map fill_of ts = greedy (val rem) rs"
  using assms
proof (induction rs arbitrary: rem sq ts rem' sq' rs')
  case (Cons r rs)
  from Cons.prems(1,2) show ?case
  proof (cases rule: fill_queue_cases)
    case stop
    with Cons.prems show ?thesis by auto
  next
    case (full r0 rs0)
    then have r: "r0 = r" "rs0 = rs" by simp_all
    obtain ts1 where ts1: "fill_queue i sd p (rem - order_quantity r) (sq + 1) rs = (ts1, rem', sq', rs')"
      "ts = trade_with i sd p (order_quantity r) sq r # ts1"
      using Cons.prems(4) fill_queue_full [OF full(2,3), of i sd p sq rs] r
      by (auto split: prod.splits)
    have "map fill_of ts1 = greedy (val (rem - order_quantity r)) rs"
      by (rule Cons.IH [OF _ _ _ ts1(1)]) (use full r Cons.prems(3) in auto)
    with full r ts1(2) Cons.prems(3) show ?thesis
      by (auto simp: Let_def min_def int64_order_defs)
  next
    case (part r0 rs0)
    with Cons.prems(3,4) fill_queue_part [OF part(2,3), of i sd p sq rs] show ?thesis
      by (auto simp: Let_def min_def int64_order_defs)
  qed simp
qed simp

lemma fill_depth_greedy:
  assumes "0 \<le> rem" and "depth_ok lt d" and "fill_depth stop i sd rem sq d = (ts, rem', sq', d')"
  shows "map fill_of ts = greedy (val rem) (crossing stop d)"
  using assms
proof (induction d arbitrary: rem sq ts rem' sq' d')
  case Nil
  then show ?case by (simp add: crossing_def)
next
  case (Cons pq d)
  obtain p q where pq: "pq = (p, q)" by force
  have q: "positive q" "depth_ok lt d" "\<forall>r \<in> set q. order_price r = p"
    using Cons.prems(2) by (auto simp: pq depth_ok_Cons)
  show ?case
  proof (cases "rem \<le> 0 \<or> stop p")
    case True
    with Cons.prems show ?thesis by (auto simp: pq crossing_def less_eq_int64_def)
  next
    case False
    obtain ts1 rem1 sq1 q1 where f: "fill_queue i sd p rem sq q = (ts1, rem1, sq1, q1)"
      by (metis prod_cases4)
    obtain ts2 rem2 sq2 d2 where g: "fill_depth stop i sd rem1 sq1 d = (ts2, rem2, sq2, d2)"
      by (metis prod_cases4)
    have fq: "fill_ok rem q ts1 rem1 q1" "q1 \<noteq> [] \<Longrightarrow> rem1 = 0"
      using fill_queue_ok [OF Cons.prems(1) q(1) f] by auto
    have h: "map fill_of ts1 = greedy (val rem) q"
      by (rule fill_queue_greedy [OF Cons.prems(1) q(1,3) f])
    have cr: "crossing stop (pq # d) = q @ crossing stop d"
      using False by (simp add: crossing_def pq)
    have rem1: "0 \<le> rem1" "val rem1 = val rem - qsum q + qsum q1" "0 \<le> qsum q1"
      using fq(1) qsum_nonneg by (auto simp: fill_ok_def)
    show ?thesis
    proof (cases "q1 = []")
      case True
      have "map fill_of ts2 = greedy (val rem1) (crossing stop d)"
        by (rule Cons.IH [OF rem1(1) q(2) g])
      with h f g False True rem1(2) Cons.prems(3) show ?thesis
        by (auto simp: pq cr [unfolded pq] greedy_append [OF q(1)])
    next
      case nonempty: False
      with rem1 fq(2) have "val rem - qsum q \<le> 0" by simp
      with h f False nonempty Cons.prems(3) show ?thesis
        by (auto simp: pq cr [unfolded pq] greedy_append [OF q(1)])
    qed
  qed
qed

end
