(* ===== verification/Book_Invariant.thy ===== *)
theory Book_Invariant
  imports Book_Spec
begin

section \<open>What the specified operations guarantee\<close>

text \<open>
  The specified book stays well formed under every command: the proofs are done once for any
  strict total order on prices (the locale \<open>price_order\<close>, an extension of \<open>comparator\<close>), and
  interpreted on the two sides' comparators.
\<close>

subsection \<open>The operations keep the invariant\<close>

lemma fill_ids:
  assumes "fill_ok rem rs ts rem' rs'"
  shows "\<exists>us. map order_id rs = us @ map order_id rs'"
proof -
  obtain us where us: "map okey rs = us @ map okey rs'" using assms by (auto simp: fill_ok_def)
  have "map order_id xs = map fst (map okey xs)" for xs by (simp add: okey_def)
  with us show ?thesis by (metis map_append)
qed

locale price_order = comparator lt for lt :: "Price \<Rightarrow> Price \<Rightarrow> bool"
begin

text \<open>After a match with quantity left over, every remaining level is beyond the limit.\<close>

lemma fill_depth_beyond:
  assumes "0 \<le> rem" and "depth_ok lt d"
    and "fill_depth (lt limit) i sd rem sq d = (ts, rem', sq', d')" and "rem' \<noteq> 0"
  shows "\<forall>k \<in> fst ` set d'. lt limit k"
proof -
  have d': "depth_ok lt d'" "d' = [] \<or> lt limit (fst (hd d'))"
    using fill_depth_ok [OF assms(1-3)] assms(4) by auto
  show ?thesis
  proof (cases d')
    case (Cons pq d1)
    with d' show ?thesis by (cases pq) (auto simp: depth_ok_Cons intro: lt_trans [of limit])
  qed simp
qed

lemma fill_side:
  assumes "0 \<le> rem" and "depth_ok lt d"
    and "fill_depth (lt limit) i sd rem sq d = (ts, rem', sq', d')"
  shows "depth_ok lt d'" "0 \<le> rem'" "\<exists>us. map order_id (orders_of d) = us @ map order_id (orders_of d')"
    "fst ` set d' \<subseteq> fst ` set d" "rem' \<noteq> 0 \<Longrightarrow> \<forall>k \<in> fst ` set d'. lt limit k"
    "val rem = tsum ts + val rem'" "qsum (orders_of d) = tsum ts + qsum (orders_of d')"
    "numbered sq ts sq'"
proof -
  note ok = fill_depth_ok [OF assms]
  show "depth_ok lt d'" "0 \<le> rem'" "val rem = tsum ts + val rem'"
    "qsum (orders_of d) = tsum ts + qsum (orders_of d')"
    using ok by (auto simp: fill_ok_def)
  show "\<exists>us. map order_id (orders_of d) = us @ map order_id (orders_of d')"
    using ok by (blast intro: fill_ids)
  obtain ks where "map fst d = ks @ map fst d'" using ok by blast
  then show "fst ` set d' \<subseteq> fst ` set d" by (metis Un_upper2 set_append set_map)
  show "numbered sq ts sq'" using fill_depth_trades [OF assms(3)] by simp
  show "rem' \<noteq> 0 \<Longrightarrow> \<forall>k \<in> fst ` set d'. lt limit k" by (rule fill_depth_beyond [OF assms])
qed

lemma enqueue_split:
  assumes "om_sorted lt d"
  obtains us q vs where "enqueue lt r d = us @ (order_price r, q @ [r]) # vs"
    and "orders_of d = orders_of us @ q @ orders_of vs"
    and "d = us @ (order_price r, q) # vs \<or> (d = us @ vs \<and> q = [])"
proof (cases "om_find lt (order_price r) d")
  case None
  obtain us vs where "d = us @ vs" "\<And>w. om_put lt (order_price r) w d = us @ (order_price r, w) # vs"
    using find_None_split [OF None assms] by blast
  with None show ?thesis by (intro that [of us "[]" vs]) (auto simp: enqueue_def)
next
  case (Some q)
  obtain us vs where "d = us @ (order_price r, q) # vs"
    "\<And>w. om_put lt (order_price r) w d = us @ (order_price r, w) # vs"
    using find_Some_split [OF Some assms] by blast
  with Some show ?thesis by (intro that [of us q vs]) (auto simp: enqueue_def)
qed

lemma enqueue_ok:
  assumes "depth_ok lt d" and "order_quantity r > 0"
  shows "depth_ok lt (enqueue lt r d)"
    and "mset (orders_of (enqueue lt r d)) = add_mset r (mset (orders_of d))"
    and "fst ` set (enqueue lt r d) = insert (order_price r) (fst ` set d)"
proof -
  have s: "om_sorted lt d" using assms(1) by (simp add: depth_ok_def)
  obtain us q vs where e: "enqueue lt r d = us @ (order_price r, q @ [r]) # vs"
    "orders_of d = orders_of us @ q @ orders_of vs"
    "d = us @ (order_price r, q) # vs \<or> (d = us @ vs \<and> q = [])"
    using enqueue_split [OF s] by metis
  have srt: "om_sorted lt (enqueue lt r d)" unfolding enqueue_def by (rule put_sorted [OF s])
  have levels: "\<forall>(p, q) \<in> set d. q \<noteq> [] \<and> (\<forall>r \<in> set q. order_price r = p \<and> order_quantity r > 0)"
    using assms(1) by (simp add: depth_ok_def)
  have "\<forall>(p, q) \<in> set (enqueue lt r d). q \<noteq> [] \<and> (\<forall>r \<in> set q. order_price r = p \<and> order_quantity r > 0)"
    using e(3) by (rule disjE) (use levels assms(2) e(1) in fastforce)+
  with srt show "depth_ok lt (enqueue lt r d)" by (simp add: depth_ok_def)
  show "mset (orders_of (enqueue lt r d)) = add_mset r (mset (orders_of d))"
    by (simp add: e(1,2))
  show "fst ` set (enqueue lt r d) = insert (order_price r) (fst ` set d)"
    by (simp add: enqueue_def put_keys)
qed

end

interpretation asks_levels: price_order asks_cmp
  by unfold_locales

interpretation bids_levels: price_order bids_cmp
  by unfold_locales

lemma stop_buy: "(\<lambda>p. p > price) = asks_cmp price"
  by (simp add: asks_cmp_def fun_eq_iff)

lemma stop_sell: "(\<lambda>p. p < price) = bids_cmp price"
  by (simp add: bids_cmp_def fun_eq_iff)

text \<open>The book, on the side of the incoming order, is beyond \<open>price\<close> after matching.\<close>

definition room_for :: "side \<Rightarrow> Price \<Rightarrow> spec_book \<Rightarrow> bool" where
  "room_for sd price A \<longleftrightarrow>
     (if sd = Buy then \<forall>k \<in> fst ` set (sp_asks A). price < k
      else \<forall>k \<in> fst ` set (sp_bids A). k < price)"

text \<open>Replacing a side by one with fewer orders and prices keeps the invariant.\<close>

lemma shrink_side:
  assumes "spec_inv A" and "\<exists>us. map order_id (orders_of old) = us @ map order_id (orders_of d)"
    and "fst ` set d \<subseteq> fst ` set old"
  shows "old = sp_asks A \<Longrightarrow> depth_ok asks_cmp d \<Longrightarrow> spec_inv (A\<lparr>sp_asks := d, sp_sequence := sq\<rparr>)"
    and "old = sp_bids A \<Longrightarrow> depth_ok bids_cmp d \<Longrightarrow> spec_inv (A\<lparr>sp_bids := d, sp_sequence := sq\<rparr>)"
    and "set (map order_id (orders_of d)) \<subseteq> set (map order_id (orders_of old))"
proof -
  obtain us where us: "map order_id (orders_of old) = us @ map order_id (orders_of d)"
    using assms(2) by blast
  show sub: "set (map order_id (orders_of d)) \<subseteq> set (map order_id (orders_of old))"
    unfolding us by simp
  have A: "depth_ok bids_cmp (sp_bids A)" "depth_ok asks_cmp (sp_asks A)"
    "distinct (map order_id (orders_of (sp_bids A)))" "distinct (map order_id (orders_of (sp_asks A)))"
    "set (map order_id (orders_of (sp_bids A))) \<inter> set (map order_id (orders_of (sp_asks A))) = {}"
    "\<forall>pb \<in> fst ` set (sp_bids A). \<forall>pa \<in> fst ` set (sp_asks A). pb < pa"
    using assms(1) by (auto simp: spec_inv_def spec_ids_def spec_orders_def)
  have dist: "distinct (map order_id (orders_of old)) \<Longrightarrow> distinct (map order_id (orders_of d))"
    unfolding us by simp
  show "spec_inv (A\<lparr>sp_asks := d, sp_sequence := sq\<rparr>)" if "old = sp_asks A" "depth_ok asks_cmp d"
  proof -
    have "set (map order_id (orders_of (sp_bids A))) \<inter> set (map order_id (orders_of d)) = {}"
      "\<forall>pb \<in> fst ` set (sp_bids A). \<forall>pa \<in> fst ` set d. pb < pa"
      using A(5,6) sub assms(3) that(1) by blast+
    with A dist that show ?thesis by (simp add: spec_inv_def spec_ids_def spec_orders_def)
  qed
  show "spec_inv (A\<lparr>sp_bids := d, sp_sequence := sq\<rparr>)" if "old = sp_bids A" "depth_ok bids_cmp d"
  proof -
    have "set (map order_id (orders_of d)) \<inter> set (map order_id (orders_of (sp_asks A))) = {}"
      "\<forall>pb \<in> fst ` set d. \<forall>pa \<in> fst ` set (sp_asks A). pb < pa"
      using A(5,6) sub assms(3) that(1) by blast+
    with A dist that show ?thesis by (simp add: spec_inv_def spec_ids_def spec_orders_def)
  qed
qed

lemma spec_match_spec:
  assumes "0 \<le> quantity" and "spec_inv A" and "spec_match i sd price quantity A = (ts, rem, A1)"
  shows "spec_inv A1" "0 \<le> rem" "set (spec_ids A1) \<subseteq> set (spec_ids A)"
    "rem \<noteq> 0 \<Longrightarrow> room_for sd price A1" "val quantity = tsum ts + val rem"
    "qsum (spec_orders A) = tsum ts + qsum (spec_orders A1)"
    "numbered (sp_sequence A) ts (sp_sequence A1)"
proof -
  have A: "depth_ok bids_cmp (sp_bids A)" "depth_ok asks_cmp (sp_asks A)" "distinct (spec_ids A)"
    "\<forall>pb \<in> fst ` set (sp_bids A). \<forall>pa \<in> fst ` set (sp_asks A). pb < pa"
    using assms(2) by (auto simp: spec_inv_def)
  have "spec_inv A1 \<and> 0 \<le> rem \<and> set (spec_ids A1) \<subseteq> set (spec_ids A) \<and>
    (rem \<noteq> 0 \<longrightarrow> room_for sd price A1) \<and> val quantity = tsum ts + val rem \<and>
    qsum (spec_orders A) = tsum ts + qsum (spec_orders A1) \<and>
    numbered (sp_sequence A) ts (sp_sequence A1)"
  proof (cases sd)
    case Buy
    then obtain sq d where f: "fill_depth (asks_cmp price) i sd quantity (sp_sequence A) (sp_asks A)
        = (ts, rem, sq, d)" and A1: "A1 = A\<lparr>sp_asks := d, sp_sequence := sq\<rparr>"
      using assms(3) by (auto simp: spec_match_def stop_buy split: prod.splits)
    note side = asks_levels.fill_side [OF assms(1) A(2) f]
    have "spec_inv A1" unfolding A1 by (rule shrink_side(1) [OF assms(2) side(3,4) refl side(1)])
    moreover have "set (spec_ids A1) \<subseteq> set (spec_ids A)"
      using shrink_side(3) [OF assms(2) side(3,4)] by (auto simp: A1 spec_ids_def spec_orders_def)
    moreover have "rem \<noteq> 0 \<longrightarrow> room_for sd price A1"
      using side(5) by (simp add: A1 Buy room_for_def asks_cmp_def)
    ultimately show ?thesis using side(2,6-8) by (simp add: A1 spec_orders_def)
  next
    case Sell
    then obtain sq d where f: "fill_depth (bids_cmp price) i sd quantity (sp_sequence A) (sp_bids A)
        = (ts, rem, sq, d)" and A1: "A1 = A\<lparr>sp_bids := d, sp_sequence := sq\<rparr>"
      using assms(3) by (auto simp: spec_match_def stop_sell split: prod.splits)
    note side = bids_levels.fill_side [OF assms(1) A(1) f]
    have "spec_inv A1" unfolding A1 by (rule shrink_side(2) [OF assms(2) side(3,4) refl side(1)])
    moreover have "set (spec_ids A1) \<subseteq> set (spec_ids A)"
      using shrink_side(3) [OF assms(2) side(3,4)] by (auto simp: A1 spec_ids_def spec_orders_def)
    moreover have "rem \<noteq> 0 \<longrightarrow> room_for sd price A1"
      using side(5) by (simp add: A1 Sell room_for_def bids_cmp_def)
    ultimately show ?thesis using side(2,6-8) by (simp add: A1 spec_orders_def)
  qed
  then show "spec_inv A1" "0 \<le> rem" "set (spec_ids A1) \<subseteq> set (spec_ids A)"
    "rem \<noteq> 0 \<Longrightarrow> room_for sd price A1" "val quantity = tsum ts + val rem"
    "qsum (spec_orders A) = tsum ts + qsum (spec_orders A1)"
    "numbered (sp_sequence A) ts (sp_sequence A1)"
    by blast+
qed

subsection \<open>Resting what is left, and the whole of add_limit_order\<close>

definition rest_as :: "OrderId \<Rightarrow> Price \<Rightarrow> Quantity \<Rightarrow> Sequence \<Rightarrow> RestingOrder" where
  "rest_as i price rem sq =
     \<lparr>order_id = i, order_price = price, order_quantity = rem, order_sequence = sq\<rparr>"

lemma rest_as_simps [simp]:
  "order_id (rest_as i price rem sq) = i" "order_price (rest_as i price rem sq) = price"
  "order_quantity (rest_as i price rem sq) = rem" "order_sequence (rest_as i price rem sq) = sq"
  by (simp_all add: rest_as_def)

lemma spec_rest_eq:
  "spec_rest i sd price rem A =
     (if sd = Buy
      then A\<lparr>sp_sequence := sp_sequence A + 1,
             sp_bids := enqueue bids_cmp (rest_as i price rem (sp_sequence A)) (sp_bids A)\<rparr>
      else A\<lparr>sp_sequence := sp_sequence A + 1,
             sp_asks := enqueue asks_cmp (rest_as i price rem (sp_sequence A)) (sp_asks A)\<rparr>)"
  by (simp add: spec_rest_def rest_as_def Let_def)

lemma spec_rest_spec:
  assumes "spec_inv A" and "0 < rem" and "i \<notin> set (spec_ids A)" and "room_for sd price A"
  shows "spec_inv (spec_rest i sd price rem A)"
    and "mset (spec_orders (spec_rest i sd price rem A)) =
      add_mset (rest_as i price rem (sp_sequence A)) (mset (spec_orders A))"
proof -
  let ?r = "rest_as i price rem (sp_sequence A)"
  have pos: "order_quantity ?r > 0" using assms(2) by simp
  have A: "depth_ok bids_cmp (sp_bids A)" "depth_ok asks_cmp (sp_asks A)"
    "\<forall>pb \<in> fst ` set (sp_bids A). \<forall>pa \<in> fst ` set (sp_asks A). pb < pa"
    using assms(1) by (simp_all add: spec_inv_def)
  note b = bids_levels.enqueue_ok [OF A(1) pos] and a = asks_levels.enqueue_ok [OF A(2) pos]
  show orders: "mset (spec_orders (spec_rest i sd price rem A)) = add_mset ?r (mset (spec_orders A))"
    using a(2) b(2) by (simp add: spec_rest_eq spec_orders_def)
  have "mset (spec_ids (spec_rest i sd price rem A)) = add_mset i (mset (spec_ids A))"
    unfolding spec_ids_def mset_map orders by simp
  moreover have "distinct (i # spec_ids A)" using assms(1,3) by (simp add: spec_inv_def)
  ultimately have "distinct (spec_ids (spec_rest i sd price rem A))"
    by (metis mset.simps(2) mset_eq_imp_distinct_iff)
  then show "spec_inv (spec_rest i sd price rem A)"
    using A assms(4) by (cases sd) (simp_all add: a(1,3) b(1,3) spec_inv_def spec_rest_eq room_for_def)
qed

lemma spec_add_cases:
  obtains "quantity \<le> 0" "spec_add i sd price quantity A = (Inl quantity_error, A)"
  | "0 < quantity" "i \<in> set (spec_ids A)" "spec_add i sd price quantity A = (Inl duplicate_error, A)"
  | ts A1 where "0 < quantity" "i \<notin> set (spec_ids A)"
      "spec_match i sd price quantity A = (ts, 0, A1)" "spec_add i sd price quantity A = (Inr ts, A1)"
  | ts rem A1 where "0 < quantity" "i \<notin> set (spec_ids A)" "rem \<noteq> 0"
      "spec_match i sd price quantity A = (ts, rem, A1)"
      "spec_add i sd price quantity A = (Inr ts, if rem > 0 then spec_rest i sd price rem A1 else A1)"
proof -
  obtain ts rem A1 where m: "spec_match i sd price quantity A = (ts, rem, A1)" by (metis prod_cases3)
  show ?thesis
  proof (cases "quantity \<le> 0 \<or> i \<in> set (spec_ids A)")
    case True
    then show ?thesis using that(1,2) by (cases "quantity \<le> 0") (simp_all add: spec_add_def)
  next
    case False
    then show ?thesis using that(3,4) m by (cases "rem = 0") (simp_all add: spec_add_def not_le)
  qed
qed

text \<open>
  A limit order is conserved: its quantity is what traded plus what rests; the book lost what
  traded and gained what rests.
\<close>

lemma spec_add_inv:
  assumes "spec_inv A"
  shows "spec_inv (snd (spec_add i sd price quantity A))"
proof (cases rule: spec_add_cases [of quantity i sd price A])
  case (3 ts A1)
  with spec_match_spec(1) [OF _ assms 3(3)] show ?thesis by simp
next
  case (4 ts rem A1)
  note m = spec_match_spec [OF less_imp_le [OF 4(1)] assms 4(4)]
  have "i \<notin> set (spec_ids A1)" using m(3) 4(2) by blast
  with spec_rest_spec(1) [OF m(1) _ _ m(4) [OF 4(3)]] m(1) 4(5) show ?thesis by simp
qed (use assms in simp_all)

lemma spec_add_ids:
  assumes "spec_inv A"
  shows "set (spec_ids (snd (spec_add i sd price quantity A))) \<subseteq> insert i (set (spec_ids A))"
proof (cases rule: spec_add_cases [of quantity i sd price A])
  case (3 ts A1)
  with spec_match_spec(3) [OF less_imp_le [OF 3(1)] assms 3(3)] show ?thesis by auto
next
  case (4 ts rem A1)
  note m = spec_match_spec [OF less_imp_le [OF 4(1)] assms 4(4)]
  have "i \<notin> set (spec_ids A1)" using m(3) 4(2) by blast
  then have r: "mset (spec_orders (spec_rest i sd price rem A1)) =
      add_mset (rest_as i price rem (sp_sequence A1)) (mset (spec_orders A1))" if "0 < rem"
    using spec_rest_spec(2) [OF m(1) that _ m(4) [OF 4(3)]] by blast
  have "0 < rem \<Longrightarrow> set (spec_ids (spec_rest i sd price rem A1)) = insert i (set (spec_ids A1))"
    using arg_cong [OF r, of set_mset] by (simp add: spec_ids_def)
  with m(3) 4(5) show ?thesis by auto
qed auto

lemma spec_add_orders:
  assumes "spec_inv A" and "spec_add i sd price quantity A = (Inr ts, A')"
  obtains A1 rem where "spec_match i sd price quantity A = (ts, rem, A1)" and "spec_inv A1"
    and "0 \<le> rem" and "val quantity = tsum ts + val rem"
    and "qsum (spec_orders A) = tsum ts + qsum (spec_orders A1)"
    and "rem = 0 \<Longrightarrow> A' = A1"
    and "rem \<noteq> 0 \<Longrightarrow> A' = spec_rest i sd price rem A1 \<and>
      mset (spec_orders A') = add_mset (rest_as i price rem (sp_sequence A1)) (mset (spec_orders A1))"
proof (cases rule: spec_add_cases [of quantity i sd price A])
  case (3 ts1 A1)
  with assms(2) spec_match_spec [OF _ assms(1) 3(3)] show ?thesis by (intro that [of 0 A1]) auto
next
  case (4 ts1 rem A1)
  note m = spec_match_spec [OF less_imp_le [OF 4(1)] assms(1) 4(4)]
  have i: "i \<notin> set (spec_ids A1)" using m(3) 4(2) by blast
  have rem: "0 < rem" using m(2) 4(3) by simp
  note r = spec_rest_spec(2) [OF m(1) rem i m(4) [OF 4(3)]]
  from 4(5) assms(2) rem have "ts1 = ts" "A' = spec_rest i sd price rem A1" by simp_all
  with r 4 m show ?thesis by (intro that [of rem A1]) simp_all
qed (use assms(2) in simp_all)

subsection \<open>Cancelling\<close>

text \<open>The orders that stay, in their order.\<close>

lemma orders_of_drop: "orders_of (drop_order i d) = filter (\<lambda>r. order_id r \<noteq> i) (orders_of d)"
  by (induction d) (auto simp: drop_order_def)

lemma drop_order_simps [simp]:
  "drop_order i [] = []"
  "drop_order i ((p, q) # d) =
     (if filter (\<lambda>r. order_id r \<noteq> i) q = [] then drop_order i d
      else (p, filter (\<lambda>r. order_id r \<noteq> i) q) # drop_order i d)"
  by (simp_all add: drop_order_def)

lemma drop_order_append: "drop_order i (d @ e) = drop_order i d @ drop_order i e"
  by (simp add: drop_order_def)

lemma drop_order_keys: "fst ` set (drop_order i d) \<subseteq> fst ` set d"
proof (induction d)
  case (Cons pq d)
  then show ?case by (cases pq) (simp add: subset_insertI2)
qed simp

lemma drop_order_ok: "depth_ok lt d \<Longrightarrow> depth_ok lt (drop_order i d)"
proof (induction d)
  case (Cons pq d)
  obtain p q where pq: "pq = (p, q)" by force
  have "depth_ok lt (drop_order i d)" "\<forall>k \<in> fst ` set (drop_order i d). lt p k"
    using Cons drop_order_keys [of i d] unfolding pq depth_ok_Cons by blast+
  with Cons.prems show ?case by (simp add: pq depth_ok_Cons)
qed simp

lemma drop_order_other:
  assumes "depth_ok lt d" and "i \<notin> order_id ` set (orders_of d)"
  shows "drop_order i d = d"
  using assms
proof (induction d)
  case (Cons pq d)
  obtain p q where pq: "pq = (p, q)" by force
  from Cons.prems have "filter (\<lambda>r. order_id r \<noteq> i) q = q" "q \<noteq> []" "drop_order i d = d"
    by (auto simp: pq depth_ok_Cons intro!: filter_True Cons.IH)
  then show ?case by (simp add: pq)
qed simp

lemma spec_cancel_orders:
  "spec_orders (snd (spec_cancel i A)) = filter (\<lambda>r. order_id r \<noteq> i) (spec_orders A)"
  by (simp add: spec_cancel_def spec_orders_def orders_of_drop)

lemma spec_cancel_ids:
  "spec_ids (snd (spec_cancel i A)) = filter (\<lambda>j. j \<noteq> i) (spec_ids A)"
  by (simp add: spec_ids_def spec_cancel_orders filter_map comp_def)

lemma spec_cancel_inv:
  assumes "spec_inv A"
  shows "spec_inv (snd (spec_cancel i A))"
proof -
  have "distinct (spec_ids (snd (spec_cancel i A)))"
    using assms by (simp add: spec_cancel_ids spec_inv_def)
  moreover have "\<forall>pb \<in> fst ` set (drop_order i (sp_bids A)).
      \<forall>pa \<in> fst ` set (drop_order i (sp_asks A)). pb < pa"
    using assms drop_order_keys [of i "sp_bids A"] drop_order_keys [of i "sp_asks A"]
    unfolding spec_inv_def by blast
  moreover have "depth_ok bids_cmp (drop_order i (sp_bids A))" "depth_ok asks_cmp (drop_order i (sp_asks A))"
    using assms by (simp_all add: spec_inv_def drop_order_ok)
  ultimately show ?thesis unfolding spec_inv_def by (simp add: spec_cancel_def)
qed

text \<open>Cancelling an id that rests nowhere changes nothing.\<close>

lemma spec_cancel_unknown:
  assumes "spec_inv A" and "i \<notin> set (spec_ids A)"
  shows "spec_cancel i A = (False, A)"
proof -
  have "drop_order i (sp_bids A) = sp_bids A" "drop_order i (sp_asks A) = sp_asks A"
    using assms by (auto simp: spec_inv_def spec_ids_def spec_orders_def intro!: drop_order_other)
  with assms(2) show ?thesis by (simp add: spec_cancel_def)
qed

subsection \<open>Any sequence of commands\<close>

lemma spec_exec_inv: "spec_inv A \<Longrightarrow> spec_inv (snd (spec_exec c A))"
proof (cases c)
  case (AddLimit i sd price quantity)
  moreover assume "spec_inv A"
  ultimately show ?thesis
    using spec_add_inv [of A i sd price quantity]
    by (cases "spec_add i sd price quantity A") simp
next
  case (Cancel i)
  moreover assume "spec_inv A"
  ultimately show ?thesis
    using spec_cancel_inv [of A i] by (cases "spec_cancel i A") simp
qed

lemma spec_run_inv: "spec_inv A \<Longrightarrow> spec_inv (snd (spec_run cs A))"
proof (induction cs arbitrary: A)
  case (Cons c cs)
  obtain r A1 where e: "spec_exec c A = (r, A1)" by force
  then have "spec_inv A1" using spec_exec_inv [OF Cons.prems, of c] by simp
  from Cons.IH [OF this] e show ?case by (cases "spec_run cs A1") simp
qed simp

text \<open>In an uncrossed book every bid is below every ask.\<close>

lemma spec_inv_uncrossed:
  "spec_inv A \<Longrightarrow> (p, q) \<in> set (sp_bids A) \<Longrightarrow> (p', q') \<in> set (sp_asks A) \<Longrightarrow> p < p'"
  by (force simp: spec_inv_def)

end
