(* ===== verification/Book_Matching.thy ===== *)
theory Book_Matching
  imports Book_Invariant
begin

section \<open>The book and its specification: representation, matching\<close>

text \<open>
  A ghost side says which nodes, with which orders, each price level holds.  \<open>book_rep\<close> ties the
  concrete book to the ghost sides: every level is a well-linked list of its nodes, the pool has
  handed out exactly the nodes of the book, and the index \<open>locations\<close> has one entry for each
  resting order, which names its side, price and node.  \<open>represents\<close> adds the specified book.
  The lemmas show that each operation, started on a book that represents a specified one, ends
  normally (no undefined behaviour, no endless loop) and represents the specified result.
\<close>

type_synonym ghost = "(Price, nodes) omap"

definition strip :: "ghost \<Rightarrow> depth" where
  "strip g = map (\<lambda>(p, xs). (p, map snd xs)) g"

definition node_entries :: "side \<Rightarrow> Price \<Rightarrow> nodes \<Rightarrow> (OrderId \<times> OrderLocation) list" where
  "node_entries s p xs =
     map (\<lambda>(a, r). (order_id r, \<lparr>loc_side = s, loc_price = p, loc_node = a\<rparr>)) xs"

definition entries :: "side \<Rightarrow> ghost \<Rightarrow> (OrderId \<times> OrderLocation) list" where
  "entries s g = concat (map (\<lambda>(p, xs). node_entries s p xs) g)"

definition places :: "(OrderId \<times> OrderLocation) list \<Rightarrow> addr list" where
  "places E = map (loc_node \<circ> snd) E"

definition index_ok :: "(OrderId \<times> OrderLocation) list \<Rightarrow> (OrderId \<times> OrderLocation) list \<Rightarrow> bool" where
  "index_ok L E \<longleftrightarrow> distinct (map fst L) \<and> distinct (map fst E) \<and> set L = set E"

lemma strip_simps [simp]:
  "strip [] = []" "strip ((p, xs) # g) = (p, map snd xs) # strip g" "strip (g @ h) = strip g @ strip h"
  by (simp_all add: strip_def)

lemma strip_keys [simp]: "map fst (strip g) = map fst g"
  by (induction g) auto

lemma strip_key_set [simp]: "fst ` set (strip g) = fst ` set g"
  by (metis set_map strip_keys)

lemma node_entries_simps [simp]:
  "node_entries s p [] = []"
  "node_entries s p ((a, r) # xs) =
     (order_id r, \<lparr>loc_side = s, loc_price = p, loc_node = a\<rparr>) # node_entries s p xs"
  "node_entries s p (xs @ ys) = node_entries s p xs @ node_entries s p ys"
  by (simp_all add: node_entries_def)

lemma entries_simps [simp]:
  "entries s [] = []" "entries s ((p, xs) # g) = node_entries s p xs @ entries s g"
  "entries s (g @ h) = entries s g @ entries s h"
  by (simp_all add: entries_def)

lemma places_simps [simp]:
  "places [] = []" "places (e # E) = loc_node (snd e) # places E" "places (E @ F) = places E @ places F"
  by (simp_all add: places_def)

lemma node_entries_maps [simp]:
  "places (node_entries s p xs) = map fst xs"
  "map fst (node_entries s p xs) = map (order_id \<circ> snd) xs"
  by (induction xs) auto

lemma entries_ids: "map fst (entries s g) = map order_id (orders_of (strip g))"
  by (induction g) auto

lemma entries_places: "(p, xs) \<in> set g \<Longrightarrow> addrs xs \<subseteq> set (places (entries s g))"
proof (induction g)
  case (Cons y g)
  obtain p' ys where y: "y = (p', ys)" by force
  have "set (places (entries s (y # g))) = addrs ys \<union> set (places (entries s g))"
    by (simp add: y)
  moreover have "(p, xs) = (p', ys) \<or> (p, xs) \<in> set g" using Cons.prems y by simp
  ultimately show ?case using Cons.IH by blast
qed simp

subsection \<open>The state a matching pass leaves\<close>

text \<open>
  The entries \<open>Z\<close> of the filled orders leave the index, their nodes go back to the pool; the
  other entries, and every node outside the level, stay as they are.
\<close>

definition unindex :: "(OrderId \<times> OrderLocation) list \<Rightarrow> (OrderId \<times> OrderLocation) list \<Rightarrow>
    (OrderId \<times> OrderLocation) list" where
  "unindex Z L = filter (\<lambda>e. fst e \<notin> fst ` set Z) L"

lemma unindex_Nil [simp]: "unindex [] L = L"
  by (simp add: unindex_def)

lemma unindex_delete: "unindex Z (AList.delete k L) = unindex ((k, x) # Z) L"
  by (auto simp: unindex_def AList.delete_eq intro!: filter_cong)

lemma unindex_single: "unindex [(k, x)] L = AList.delete k L"
  using unindex_delete [of "[]" k L x] by simp

lemma unindex_append: "unindex Z' (unindex Z L) = unindex (Z @ Z') L"
  by (auto simp: unindex_def intro!: filter_cong)

lemma unindex_ok: "index_ok L (Z @ E) \<Longrightarrow> index_ok (unindex Z L) E"
  by (auto simp: index_ok_def unindex_def distinct_map_filter)

text \<open>The state a pass leaves, from the state it started in.\<close>

definition matched ::
  "match_state \<Rightarrow> Trade list \<Rightarrow> Quantity \<Rightarrow> Sequence \<Rightarrow> (OrderId \<times> OrderLocation) list \<Rightarrow> pool \<Rightarrow> match_state" where
  "matched st ts rem sq Z q = st\<lparr>m_remaining := rem, m_trades := m_trades st @ ts, m_sequence := sq,
     m_locations := unindex Z (m_locations st), m_pool := q\<rparr>"

lemma matched_simps [simp]:
  "m_remaining (matched st ts rem sq Z q) = rem" "m_sequence (matched st ts rem sq Z q) = sq"
  "m_pool (matched st ts rem sq Z q) = q" "m_trades (matched st ts rem sq Z q) = m_trades st @ ts"
  "m_locations (matched st ts rem sq Z q) = unindex Z (m_locations st)"
  "matched (matched st ts rem sq Z q) ts' rem' sq' Z' q' = matched st (ts @ ts') rem' sq' (Z @ Z') q'"
  by (simp_all add: matched_def unindex_append)

lemma matched_refl: "st = matched st [] (m_remaining st) (m_sequence st) [] (m_pool st)"
  by (simp add: matched_def)

subsection \<open>One round of matching\<close>

lemma match_head_full:
  assumes own: "pool_owns (m_pool st) U" and rep: "level_rep (mem (m_pool st)) level ((a, r) # xs)"
    and sub: "addrs ((a, r) # xs) \<subseteq> U" and dist: "distinct (map fst ((a, r) # xs))"
    and pos: "0 < order_quantity r" and le: "order_quantity r \<le> m_remaining st"
  obtains level' q where
    "match_head i sd price st level = Some (matched st [trade_with i sd price (order_quantity r) (m_sequence st) r]
       (m_remaining st - order_quantity r) (m_sequence st + 1) [(order_id r, loc)] q, level')"
    and "pool_owns q (U - {a})" and "level_rep (mem q) level' xs"
    and "\<forall>b \<in> U - addrs ((a, r) # xs). mem q b = mem (m_pool st) b"
proof -
  let ?p = "m_pool st" and ?r = "r\<lparr>order_quantity := 0\<rparr>"
  obtain n where a: "pl_head level = Some a"
    "mem ?p a = Some (Object \<lparr>node_order = r, node_prev = None, node_next = n\<rparr>)"
    using rep by (rule level_rep_Cons)
  have aU: "a \<in> U" "a \<notin> addrs xs" using sub dist by auto
  from modify_law [OF own aU(1) a(2), of "\<lambda>x. x\<lparr>node_order := (node_order x)\<lparr>order_quantity := 0\<rparr>\<rparr>"]
  obtain p1 where p1: "modify a (\<lambda>x. x\<lparr>node_order := (node_order x)\<lparr>order_quantity := 0\<rparr>\<rparr>) ?p = Some p1"
    "pool_owns p1 U"
    "mem p1 = (mem ?p)(a \<mapsto> Object \<lparr>node_order = ?r, node_prev = None, node_next = n\<rparr>)"
    by auto
  have rep1: "level_rep (mem p1) level ((a, ?r) # xs)"
    using level_rep_upd_head [OF rep aU(2) a(2), of ?r] p1(3) by simp
  obtain level' q where q: "pop_front level p1 = Some (level', q)" "pool_owns q (U - {a})"
    "level_rep (mem q) level' xs" "\<forall>b \<in> U - addrs ((a, ?r) # xs). mem q b = mem p1 b"
    using pop_front_spec [OF p1(2) rep1] sub dist by auto
  have arith: "checked_sub (m_remaining st) (order_quantity r) = Some (m_remaining st - order_quantity r)"
    "checked_sub (order_quantity r) (order_quantity r) = Some 0"
    "min (m_remaining st) (order_quantity r) = order_quantity r"
    using checked_sub_le(1) [OF _ le] checked_sub_le(1) [of "order_quantity r" "order_quantity r"] pos le
    by (simp_all add: min_def)
  show ?thesis
  proof (rule that [of q level'])
    show "match_head i sd price st level = Some (matched st [trade_with i sd price (order_quantity r) (m_sequence st) r]
       (m_remaining st - order_quantity r) (m_sequence st + 1) [(order_id r, loc)] q, level')"
      using a(1) p1(1) q(1) arith slab_pool.get_law [OF a(2)]
      by (simp add: match_head_def Let_def trade_with_def matched_def unindex_single)
    show "\<forall>b \<in> U - addrs ((a, r) # xs). mem q b = mem ?p b" using q(4) p1(3) by auto
  qed (use q in auto)
qed

lemma match_head_part:
  assumes own: "pool_owns (m_pool st) U" and rep: "level_rep (mem (m_pool st)) level ((a, r) # xs)"
    and sub: "addrs ((a, r) # xs) \<subseteq> U" and dist: "distinct (map fst ((a, r) # xs))"
    and pos: "0 < m_remaining st" and less: "m_remaining st < order_quantity r"
  obtains q where
    "match_head i sd price st level = Some (matched st [trade_with i sd price (m_remaining st) (m_sequence st) r]
       0 (m_sequence st + 1) [] q, level)"
    and "pool_owns q U"
    and "level_rep (mem q) level
      ((a, r\<lparr>order_quantity := order_quantity r - m_remaining st\<rparr>) # xs)"
    and "\<forall>b \<in> U - addrs ((a, r) # xs). mem q b = mem (m_pool st) b"
proof -
  let ?p = "m_pool st" and ?left = "order_quantity r - m_remaining st"
  let ?f = "\<lambda>x. x\<lparr>node_order := (node_order x)\<lparr>order_quantity := ?left\<rparr>\<rparr>"
  obtain n where a: "pl_head level = Some a"
    "mem ?p a = Some (Object \<lparr>node_order = r, node_prev = None, node_next = n\<rparr>)"
    using rep by (rule level_rep_Cons)
  have aU: "a \<in> U" "a \<notin> addrs xs" using sub dist by auto
  from modify_law [OF own aU(1) a(2), of ?f]
  obtain p1 where p1: "modify a ?f ?p = Some p1" "pool_owns p1 U"
    "mem p1 = (mem ?p)(a \<mapsto> Object \<lparr>node_order = r\<lparr>order_quantity := ?left\<rparr>, node_prev = None, node_next = n\<rparr>)"
    by auto
  have arith: "checked_sub (order_quantity r) (m_remaining st) = Some ?left"
    "checked_sub (m_remaining st) (m_remaining st) = Some 0"
    "min (m_remaining st) (order_quantity r) = m_remaining st" "?left \<noteq> 0"
    using checked_sub_le(1) [of "m_remaining st" "order_quantity r"] val_diff(3) [of "m_remaining st" "order_quantity r"]
      checked_sub_le(1) [of "m_remaining st" "m_remaining st"] pos less
    by (auto simp: min_def)
  show ?thesis
  proof (rule that [of p1])
    show "match_head i sd price st level = Some (matched st [trade_with i sd price (m_remaining st) (m_sequence st) r]
       0 (m_sequence st + 1) [] p1, level)"
      using a(1) p1(1) arith slab_pool.get_law [OF a(2)]
      by (simp add: match_head_def Let_def trade_with_def matched_def)
    show "level_rep (mem p1) level ((a, r\<lparr>order_quantity := ?left\<rparr>) # xs)"
      using level_rep_upd_head [OF rep aU(2) a(2), of "r\<lparr>order_quantity := ?left\<rparr>"] p1(3) by simp
  qed (use p1 in auto)
qed

subsection \<open>Matching against a level, then against the levels in order\<close>

text \<open>
  What matching against the level of the nodes \<open>xs\<close> returns: the trades \<open>ts\<close> of the specified pass,
  and a level that holds the nodes of its queue \<open>rs\<close>.
\<close>

definition level_result :: "side \<Rightarrow> Price \<Rightarrow> addr set \<Rightarrow> match_state \<Rightarrow> nodes \<Rightarrow>
    Trade list \<Rightarrow> Quantity \<Rightarrow> Sequence \<Rightarrow> queue \<Rightarrow> (match_state \<times> PriceLevel) option \<Rightarrow> bool" where
  "level_result s price U st xs ts rem sq rs out \<longleftrightarrow>
     (\<exists>level' q Z xs'. out = Some (matched st ts rem sq Z q, level') \<and>
        map snd xs' = rs \<and> node_entries s price xs = Z @ node_entries s price xs' \<and>
        pool_owns q (U - set (places Z)) \<and> level_rep (mem q) level' xs' \<and>
        (\<forall>b \<in> U - addrs xs. mem q b = mem (m_pool st) b))"

lemma level_result_stop:
  assumes "pool_owns (m_pool st) U" and "level_rep (mem (m_pool st)) level xs"
    and "m_remaining st \<le> 0 \<or> xs = []"
  shows "level_result s price U st xs [] (m_remaining st) (m_sequence st) (map snd xs) (match_level i sd price st level)"
proof -
  have "xs = [] \<Longrightarrow> pl_head level = None" using level_rep_head [OF assms(2)] by simp
  then have "match_level i sd price st level = Some (st, level)"
    using assms(3) by (subst match_level.simps) auto
  with assms(1,2) show ?thesis
    unfolding level_result_def
    by (intro exI [of _ level] exI [of _ "m_pool st"] exI [of _ "[]"] exI [of _ xs])
      (simp add: matched_refl [symmetric])
qed

text \<open>The head is filled, and the level without it is matched against what remains.\<close>

lemma level_result_full:
  fixes a s price r st t rem1 sq1 p1 loc st1 defines "loc \<equiv> \<lparr>loc_side = s, loc_price = price, loc_node = a\<rparr>"
    and "st1 \<equiv> matched st [t] rem1 sq1 [(order_id r, loc)] p1"
  assumes head: "match_head i sd price st level = Some (st1, level1)" "0 < m_remaining st" "pl_head level \<noteq> None"
    and frame: "\<forall>b \<in> U - addrs ((a, r) # xs). mem p1 b = mem (m_pool st) b"
    and rest: "level_result s price (U - {a}) st1 xs ts rem sq rs (match_level i sd price st1 level1)"
  shows "level_result s price U st ((a, r) # xs) (t # ts) rem sq rs (match_level i sd price st level)"
proof -
  have "match_level i sd price st level = match_level i sd price st1 level1"
    by (subst match_level.simps) (use head in simp)
  moreover obtain level' q Z xs' where "match_level i sd price st1 level1 = Some (matched st1 ts rem sq Z q, level')"
    "map snd xs' = rs" "node_entries s price xs = Z @ node_entries s price xs'"
    "pool_owns q (U - {a} - set (places Z))" "level_rep (mem q) level' xs'"
    "\<forall>b \<in> U - {a} - addrs xs. mem q b = mem p1 b"
    using rest unfolding level_result_def st1_def by auto
  ultimately show ?thesis
    unfolding level_result_def using frame
    by (intro exI [of _ level'] exI [of _ q] exI [of _ "(order_id r, loc) # Z"] exI [of _ xs'])
      (auto simp: st1_def loc_def Diff_insert2 [symmetric])
qed

text \<open>The head takes all that remains.\<close>

lemma level_result_part:
  assumes head: "match_head i sd price st level = Some (matched st [t] 0 sq [] p1, level)" "0 < m_remaining st"
    and p1: "pool_owns p1 U" "level_rep (mem p1) level ((a, r') # xs)"
      "\<forall>b \<in> U - addrs ((a, r) # xs). mem p1 b = mem (m_pool st) b"
    and same: "order_id r' = order_id r"
  shows "level_result s price U st ((a, r) # xs) [t] 0 sq (r' # map snd xs) (match_level i sd price st level)"
proof -
  have "match_level i sd price (matched st [t] 0 sq [] p1) level = Some (matched st [t] 0 sq [] p1, level)"
    by (subst match_level.simps) simp
  moreover have "pl_head level \<noteq> None" using level_rep_head [OF p1(2)] by simp
  ultimately have "match_level i sd price st level = Some (matched st [t] 0 sq [] p1, level)"
    by (subst match_level.simps) (use head in simp)
  then show ?thesis
    unfolding level_result_def using p1 same
    by (intro exI [of _ level] exI [of _ p1] exI [of _ "[]"] exI [of _ "(a, r') # xs"]) auto
qed

lemma match_level_spec:
  assumes "pool_owns (m_pool st) U" and "level_rep (mem (m_pool st)) level xs"
    and "addrs xs \<subseteq> U" and "distinct (map fst xs)"
    and "0 \<le> m_remaining st" and "positive (map snd xs)"
    and "fill_queue i sd price (m_remaining st) (m_sequence st) (map snd xs) = (ts, rem, sq, rs)"
  shows "level_result s price U st xs ts rem sq rs (match_level i sd price st level)"
  using assms
proof (induction xs arbitrary: st level U ts rem sq rs)
  case Nil
  then show ?case using level_result_stop [of st U level "[]"] by simp
next
  case (Cons x xs)
  obtain a r where x: "x = (a, r)" by force
  note hyps = Cons.prems(1-4) [unfolded x]
  have head: "pl_head level \<noteq> None" using level_rep_head [OF hyps(2)] by simp
  have pos: "positive (r # map snd xs)" using Cons.prems(6) x by simp
  have fq: "fill_queue i sd price (m_remaining st) (m_sequence st) (r # map snd xs) = (ts, rem, sq, rs)"
    using Cons.prems(7) x by simp
  from Cons.prems(5) pos show ?case
  proof (cases rule: fill_queue_cases)
    case stop
    with fq level_result_stop [OF hyps(1,2)] show ?thesis by (simp add: x)
  next
    case (full r0 rs0)
    then have q: "0 < order_quantity r" "order_quantity r \<le> m_remaining st" "0 \<le> m_remaining st - order_quantity r"
      "0 < m_remaining st" by auto
    obtain level1 p1 where h: "match_head i sd price st level = Some (matched st
        [trade_with i sd price (order_quantity r) (m_sequence st) r] (m_remaining st - order_quantity r)
        (m_sequence st + 1) [(order_id r, \<lparr>loc_side = s, loc_price = price, loc_node = a\<rparr>)] p1, level1)"
      and p1: "pool_owns p1 (U - {a})" "level_rep (mem p1) level1 xs"
        "\<forall>b \<in> U - addrs ((a, r) # xs). mem p1 b = mem (m_pool st) b"
      by (rule match_head_full [OF hyps q(1,2)])
    obtain ts1 where ts1: "fill_queue i sd price (m_remaining st - order_quantity r) (m_sequence st + 1) (map snd xs)
        = (ts1, rem, sq, rs)" "ts = trade_with i sd price (order_quantity r) (m_sequence st) r # ts1"
      using fq fill_queue_full [OF q(1,2)] by (auto split: prod.splits)
    have "addrs xs \<subseteq> U - {a}" "distinct (map fst xs)" using hyps(3,4) by auto
    note ih = Cons.IH [OF _ _ this, unfolded matched_simps]
    show ?thesis
      unfolding x ts1(2)
      by (rule level_result_full [OF h _ head p1(3)]) (use q ih pos p1 ts1(1) in simp_all)
  next
    case (part r0 rs0)
    then have q: "0 < m_remaining st" "m_remaining st < order_quantity r" by auto
    obtain p1 where "match_head i sd price st level = Some (matched st
        [trade_with i sd price (m_remaining st) (m_sequence st) r] 0 (m_sequence st + 1) [] p1, level)"
      and "pool_owns p1 U" "level_rep (mem p1) level ((a, r\<lparr>order_quantity := order_quantity r - m_remaining st\<rparr>) # xs)"
        "\<forall>b \<in> U - addrs ((a, r) # xs). mem p1 b = mem (m_pool st) b"
      by (rule match_head_part [OF hyps q])
    from level_result_part [OF this(1) q(1) this(2-)] fq fill_queue_part [OF q] show ?thesis by (auto simp: x)
  qed simp
qed

lemma om_rel_level_agree:
  assumes "om_rel (level_rep m) levels g" and "\<forall>b \<in> set (places (entries s g)). m' b = m b"
  shows "om_rel (level_rep m') levels g"
proof (rule om_rel_mono [OF assms(1)])
  fix p level xs assume "(p, xs) \<in> set g" and rep: "level_rep m level xs"
  then have "\<forall>b \<in> addrs xs. m' b = m b" using entries_places [of p xs g s] assms(2) by blast
  with rep show "level_rep m' level xs" by (rule level_rep_agree)
qed

text \<open>What matching against the levels of the ghost side \<open>g\<close> returns.\<close>

definition levels_result :: "side \<Rightarrow> addr set \<Rightarrow> match_state \<Rightarrow> ghost \<Rightarrow>
    Trade list \<Rightarrow> Quantity \<Rightarrow> Sequence \<Rightarrow> depth \<Rightarrow> (match_state \<times> (Price, PriceLevel) omap) option \<Rightarrow> bool" where
  "levels_result s U st g ts rem sq d out \<longleftrightarrow>
     (\<exists>levels' q Z g'. out = Some (matched st ts rem sq Z q, levels') \<and>
        strip g' = d \<and> entries s g = Z @ entries s g' \<and>
        pool_owns q (U - set (places Z)) \<and> om_rel (level_rep (mem q)) levels' g' \<and>
        (\<forall>b \<in> U - set (places (entries s g)). mem q b = mem (m_pool st) b))"

lemma Diff_Un_twice: "A - (B \<union> C) = A - B - C"
  by blast

lemma levels_result_stop:
  assumes "pool_owns (m_pool st) U" and "om_rel (level_rep (mem (m_pool st))) levels g"
    and "m_remaining st \<le> 0 \<or> levels = [] \<or> stop (fst (hd levels))"
  shows "levels_result s U st g [] (m_remaining st) (m_sequence st) (strip g) (match_levels stop i sd st levels)"
proof -
  have "match_levels stop i sd st levels = Some (st, levels)"
    using assms(3) by (subst match_levels.simps) (auto split: list.splits)
  with assms(1,2) show ?thesis
    unfolding levels_result_def
    by (intro exI [of _ levels] exI [of _ "m_pool st"] exI [of _ "[]"] exI [of _ g])
      (simp add: matched_refl [symmetric])
qed

text \<open>One round of the outer loop: the first level keeps some nodes, or it is erased and the loop goes on.\<close>

lemma levels_result_kept:
  assumes going: "0 < m_remaining st" "\<not> stop p"
    and level: "level_result s p U st xs ts rem sq rs (match_level i sd p st level)" "rs \<noteq> []" "rem \<le> 0"
    and sub: "set (places (entries s g)) \<subseteq> U - addrs xs"
    and others: "om_rel (level_rep (mem (m_pool st))) others g"
  shows "levels_result s U st ((p, xs) # g) ts rem sq ((p, rs) # strip g) (match_levels stop i sd st ((p, level) # others))"
proof -
  obtain level' q Z xs' where m: "match_level i sd p st level = Some (matched st ts rem sq Z q, level')"
    "map snd xs' = rs" "node_entries s p xs = Z @ node_entries s p xs'" "pool_owns q (U - set (places Z))"
    "level_rep (mem q) level' xs'" "\<forall>b \<in> U - addrs xs. mem q b = mem (m_pool st) b"
    using level(1) unfolding level_result_def by blast
  obtain h where "pl_head level' = Some h" using level_rep_head [OF m(5)] m(2) level(2) by auto
  then have "match_levels stop i sd st ((p, level) # others) = match_levels stop i sd (matched st ts rem sq Z q) ((p, level') # others)"
    by (subst match_levels.simps) (use going m(1) in simp)
  moreover have "match_levels stop i sd (matched st ts rem sq Z q) ((p, level') # others) = Some (matched st ts rem sq Z q, (p, level') # others)"
    by (subst match_levels.simps) (simp add: leD [OF level(3)])
  ultimately have run: "match_levels stop i sd st ((p, level) # others) = Some (matched st ts rem sq Z q, (p, level') # others)"
    by simp
  have "om_rel (level_rep (mem q)) others g"
    using m(6) sub by (intro om_rel_level_agree [OF others]) blast
  moreover have "\<forall>b \<in> U - set (places (entries s ((p, xs) # g))). mem q b = mem (m_pool st) b" using m(6) by simp
  ultimately show ?thesis
    unfolding levels_result_def using run m(2-5)
    by (intro exI [of _ "(p, level') # others"] exI [of _ q] exI [of _ Z] exI [of _ "(p, xs') # g"]) simp
qed

lemma levels_result_next:
  assumes going: "0 < m_remaining st" "\<not> stop p"
    and level: "match_level i sd p st level = Some (st1, level1)" "pl_head level1 = None"
      "st1 = matched st ts1 rem1 sq1 (node_entries s p xs) q1"
    and frame: "\<forall>b \<in> U - addrs xs. mem q1 b = mem (m_pool st) b"
    and rest: "levels_result s (U - addrs xs) st1 g ts rem sq d (match_levels stop i sd st1 others)"
  shows "levels_result s U st ((p, xs) # g) (ts1 @ ts) rem sq d (match_levels stop i sd st ((p, level) # others))"
proof -
  have "match_levels stop i sd st ((p, level) # others) = match_levels stop i sd st1 others"
    by (subst match_levels.simps) (use going level in simp)
  moreover obtain levels' q Z g' where "match_levels stop i sd st1 others = Some (matched st1 ts rem sq Z q, levels')"
    "strip g' = d" "entries s g = Z @ entries s g'" "pool_owns q (U - addrs xs - set (places Z))"
    "om_rel (level_rep (mem q)) levels' g'"
    "\<forall>b \<in> U - addrs xs - set (places (entries s g)). mem q b = mem (m_pool st1) b"
    using rest unfolding levels_result_def by blast
  ultimately show ?thesis
    unfolding levels_result_def using frame
    by (intro exI [of _ levels'] exI [of _ q] exI [of _ "node_entries s p xs @ Z"] exI [of _ g'])
      (simp add: level(3) Diff_Un_twice)
qed

lemma level_result_empty:
  assumes "level_result s p U st xs ts rem sq [] out"
  obtains level q where "out = Some (matched st ts rem sq (node_entries s p xs) q, level)" and "pl_head level = None"
    and "pool_owns q (U - addrs xs)" and "\<forall>b \<in> U - addrs xs. mem q b = mem (m_pool st) b"
proof -
  obtain level' q Z xs' where m: "out = Some (matched st ts rem sq Z q, level')" "map snd xs' = []"
    "node_entries s p xs = Z @ node_entries s p xs'" "pool_owns q (U - set (places Z))" "level_rep (mem q) level' xs'"
    "\<forall>b \<in> U - addrs xs. mem q b = mem (m_pool st) b"
    using assms unfolding level_result_def by blast
  have xs': "xs' = []" using m(2) by simp
  then have Z: "Z = node_entries s p xs" using m(3) by simp
  have "pl_head level' = None" using level_rep_head [OF m(5)] xs' by simp
  with m(1,4,6) show ?thesis unfolding Z node_entries_maps(1) set_map by (intro that [of q level'])
qed

lemma match_levels_spec:
  assumes "pool_owns (m_pool st) U" and "om_rel (level_rep (mem (m_pool st))) levels g"
    and "set (places (entries s g)) \<subseteq> U" and "distinct (places (entries s g))"
    and "0 \<le> m_remaining st" and "depth_ok lt (strip g)"
    and "fill_depth stop i sd (m_remaining st) (m_sequence st) (strip g) = (ts, rem, sq, d)"
  shows "levels_result s U st g ts rem sq d (match_levels stop i sd st levels)"
  using assms
proof (induction g arbitrary: st levels U ts rem sq d)
  case Nil
  then show ?case using levels_result_stop [of st U levels "[]"] by simp
next
  case (Cons y g)
  obtain p xs where y: "y = (p, xs)" by force
  obtain level others where lv: "levels = (p, level) # others" "level_rep (mem (m_pool st)) level xs"
    "om_rel (level_rep (mem (m_pool st))) others g"
    using Cons.prems(2) by (auto simp: y om_rel_Cons_right)
  have sub: "addrs xs \<subseteq> U" "set (places (entries s g)) \<subseteq> U - addrs xs"
    and dist: "distinct (map fst xs)" "distinct (places (entries s g))"
    using Cons.prems(3,4) by (auto simp: y)
  have d: "positive (map snd xs)" "depth_ok lt (strip g)" using Cons.prems(6) by (auto simp: y depth_ok_Cons)
  show ?case
  proof (cases "m_remaining st \<le> 0 \<or> stop p")
    case True
    with levels_result_stop [OF Cons.prems(1,2), of stop] Cons.prems(7) show ?thesis by (auto simp: y lv(1))
  next
    case False
    obtain ts1 rem1 sq1 rs1 where f: "fill_queue i sd p (m_remaining st) (m_sequence st) (map snd xs)
        = (ts1, rem1, sq1, rs1)" by (metis prod_cases4)
    have fq: "0 \<le> rem1" "rs1 \<noteq> [] \<Longrightarrow> rem1 = 0"
      using fill_queue_ok [OF Cons.prems(5) d(1) f] by (auto simp: fill_ok_def)
    note m1 = match_level_spec [OF Cons.prems(1) lv(2) sub(1) dist(1) Cons.prems(5) d(1) f, of s]
    show ?thesis
    proof (cases "rs1 = []")
      case False
      with levels_result_kept [OF _ _ m1 _ _ sub(2) lv(3), of stop] \<open>\<not> (_ \<or> _)\<close> f fq(2) Cons.prems(7)
      show ?thesis by (auto simp: y lv(1))
    next
      case True
      obtain ts2 rem2 sq2 d2 where g: "fill_depth stop i sd rem1 sq1 (strip g) = (ts2, rem2, sq2, d2)"
        by (metis prod_cases4)
      obtain level1 q1 where q1: "match_level i sd p st level = Some (matched st ts1 rem1 sq1 (node_entries s p xs) q1, level1)"
        "pl_head level1 = None" "pool_owns q1 (U - addrs xs)" "\<forall>b \<in> U - addrs xs. mem q1 b = mem (m_pool st) b"
        by (rule level_result_empty [OF m1 [unfolded True]])
      have "om_rel (level_rep (mem q1)) others g" using q1(4) sub(2) by (intro om_rel_level_agree [OF lv(3)]) blast
      then have "levels_result s (U - addrs xs) (matched st ts1 rem1 sq1 (node_entries s p xs) q1) g ts2 rem2 sq2 d2
          (match_levels stop i sd (matched st ts1 rem1 sq1 (node_entries s p xs) q1) others)"
        by (intro Cons.IH) (use q1(3) sub(2) dist(2) fq(1) d(2) g in simp_all)
      from levels_result_next [OF _ _ q1(1,2) refl q1(4) this] f g True \<open>\<not> (_ \<or> _)\<close> Cons.prems(7)
      show ?thesis by (auto simp: y lv(1))
    qed
  qed
qed

subsection \<open>The pool and the index against the entries of the book\<close>

text \<open>
  \<open>store_rep p L E\<close>: the pool has handed out one node for each entry of \<open>E\<close>, and the index \<open>L\<close>
  holds exactly these entries.  An operation on one side keeps it with the entries \<open>F\<close> of the
  other side as a frame.
\<close>

definition store_rep :: "pool \<Rightarrow> (OrderId \<times> OrderLocation) list \<Rightarrow> (OrderId \<times> OrderLocation) list \<Rightarrow> bool" where
  "store_rep p L E \<longleftrightarrow> pool_owns p (set (places E)) \<and> distinct (places E) \<and> index_ok L E"

abbreviation side_rep :: "pool \<Rightarrow> (Price, PriceLevel) omap \<Rightarrow> ghost \<Rightarrow> bool" where
  "side_rep p levels g \<equiv> om_rel (level_rep (mem p)) levels g"

lemma store_rep_perm:
  assumes "store_rep p L E" and "mset E = mset E'"
  shows "store_rep p L E'"
proof -
  have "mset (places E) = mset (places E')" "mset (map fst E) = mset (map fst E')"
    using assms(2) by (simp_all add: places_def)
  then have "distinct (places E) = distinct (places E')" "set (places E) = set (places E')"
    "distinct (map fst E) = distinct (map fst E')" "set E = set E'"
    using assms(2) by (metis mset_eq_imp_distinct_iff, metis mset_eq_setD, metis mset_eq_imp_distinct_iff,
      metis mset_eq_setD)
  with assms(1) show ?thesis unfolding store_rep_def index_ok_def by metis
qed

lemma store_rep_swap: "store_rep p L (E @ F) \<longleftrightarrow> store_rep p L (F @ E)"
  using store_rep_perm [of p L "E @ F" "F @ E"] store_rep_perm [of p L "F @ E" "E @ F"]
  by (auto simp: union_commute)

lemma match_side:
  assumes store: "store_rep (m_pool st) (m_locations st) (entries s g @ F)"
    and side: "side_rep (m_pool st) levels g" and rem: "0 \<le> m_remaining st"
    and ok: "depth_ok lt (strip g)"
    and fill: "fill_depth stop i sd (m_remaining st) (m_sequence st) (strip g) = (ts, rem, sq, d)"
  obtains levels' Z q g' where
    "match_levels stop i sd st levels = Some (matched st ts rem sq Z q, levels')"
    and "strip g' = d" and "side_rep q levels' g'"
    and "store_rep q (unindex Z (m_locations st)) (entries s g' @ F)"
    and "\<forall>b \<in> set (places F). mem q b = mem (m_pool st) b"
proof -
  let ?U = "set (places (entries s g @ F))"
  have own: "pool_owns (m_pool st) ?U" and sub: "set (places (entries s g)) \<subseteq> ?U"
    and dist: "distinct (places (entries s g))" "distinct (places F)"
    and disj: "set (places (entries s g)) \<inter> set (places F) = {}"
    and idx: "index_ok (m_locations st) (entries s g @ F)"
    using store by (auto simp: store_rep_def)
  obtain levels' q Z g' where m: "match_levels stop i sd st levels = Some (matched st ts rem sq Z q, levels')"
    "strip g' = d" "entries s g = Z @ entries s g'" "pool_owns q (?U - set (places Z))"
    "side_rep q levels' g'" "\<forall>b \<in> ?U - set (places (entries s g)). mem q b = mem (m_pool st) b"
    using match_levels_spec [OF own side sub dist(1) rem ok fill] unfolding levels_result_def by blast
  have "set (places F) \<subseteq> ?U - set (places (entries s g))" using disj by auto
  with m(6) have fr: "\<forall>b \<in> set (places F). mem q b = mem (m_pool st) b" by blast
  have "?U - set (places Z) = set (places (entries s g' @ F))"
    using dist(1) disj unfolding m(3) by auto
  moreover have "distinct (places (entries s g' @ F))"
    using dist disj unfolding m(3) by auto
  moreover have "index_ok (unindex Z (m_locations st)) (entries s g' @ F)"
    using unindex_ok [of "m_locations st" Z "entries s g' @ F"] idx m(3) by simp
  ultimately have "store_rep q (unindex Z (m_locations st)) (entries s g' @ F)"
    using m(4) unfolding store_rep_def by simp
  with m(1,2,5) fr show ?thesis using that by blast
qed

end
