(* ===== verification/Book_Refinement.thy ===== *)
theory Book_Refinement
  imports Book_Matching
begin

section \<open>The order book implements its specification\<close>

text \<open>
  Resting and cancelling on one side, then the operations of the book and any sequence of
  commands: started on a book that represents a specified one, each ends normally (no undefined
  behaviour, no endless loop), answers what the specification answers and represents the
  specified result.
\<close>

subsection \<open>Resting an order on one side\<close>

lemma emplace_new: "map_of L i = None \<Longrightarrow> emplace i x L = (i, x) # L"
  by (simp add: emplace_def)

lemma index_ok_emplace:
  assumes "index_ok L (X @ Y)" and "i \<notin> fst ` set (X @ Y)"
  shows "index_ok (emplace i x L) (X @ (i, x) # Y)"
proof -
  have L: "distinct (map fst L)" "set L = set (X @ Y)" "distinct (map fst (X @ Y))"
    using assms(1) by (simp_all add: index_ok_def)
  have i: "i \<notin> fst ` set L" using assms(2) unfolding L(2) .
  then have "map_of L i = None" by (simp add: map_of_eq_None_iff)
  with L i assms(2) show ?thesis by (auto simp: emplace_new index_ok_def)
qed

lemma index_ok_delete:
  assumes "index_ok L (X @ (i, x) # Y)"
  shows "index_ok (AList.delete i L) (X @ Y)" and "i \<notin> set (map fst (X @ Y))"
  using assms by (auto simp: index_ok_def set_AList_delete distinct_AList_delete image_iff)

text \<open>One entry more, one entry less: the pool and the index follow.\<close>

lemma store_rep_insert:
  assumes "store_rep p L (X @ Y)" and "pool_owns q (insert (loc_node x) (set (places (X @ Y))))"
    and "loc_node x \<notin> set (places (X @ Y))" and "i \<notin> fst ` set (X @ Y)"
  shows "store_rep q (emplace i x L) (X @ (i, x) # Y)"
  using assms index_ok_emplace [of L X Y i x] by (simp add: store_rep_def)

lemma store_rep_remove:
  assumes "store_rep p L (X @ (i, x) # Y)" and "pool_owns q (set (places (X @ (i, x) # Y)) - {loc_node x})"
  shows "store_rep q (AList.delete i L) (X @ Y)"
proof -
  have dist: "distinct (places (X @ (i, x) # Y))" and idx: "index_ok L (X @ (i, x) # Y)"
    using assms(1) by (simp_all add: store_rep_def)
  then have "set (places (X @ (i, x) # Y)) - {loc_node x} = set (places (X @ Y))" by auto
  with assms(2) dist index_ok_delete(1) [OF idx] show ?thesis by (simp add: store_rep_def)
qed

context price_order
begin

lemma rest_place:
  assumes side: "side_rep pl levels g" and sorted: "om_sorted lt g"
  obtains us xs vs level where
    "level = (case om_find lt k levels of None \<Rightarrow> empty_level | Some l \<Rightarrow> l)"
    and "level_rep (mem pl) level xs"
    and "g = us @ (k, xs) # vs \<or> (g = us @ vs \<and> xs = [])"
    and "map snd xs = (case om_find lt k (strip g) of None \<Rightarrow> [] | Some q \<Rightarrow> q)"
    and "\<And>w. om_put lt k w (strip g) = strip us @ (k, w) # strip vs"
    and "\<And>l. \<exists>ms ns. om_put lt k l levels = ms @ (k, l) # ns \<and>
      side_rep pl ms us \<and> side_rep pl ns vs"
proof (cases "om_find lt k g")
  case None
  obtain us vs where g: "g = us @ vs" "\<And>w. om_put lt k w g = us @ (k, w) # vs"
    using find_None_split [OF None sorted] by blast
  have srt: "om_sorted lt (us @ (k, w) # vs)" for w using put_sorted [OF sorted] g(2) by metis
  obtain ms ns where l: "levels = ms @ ns" "side_rep pl ms us" "side_rep pl ns vs"
    using side by (auto simp: g(1) om_rel_append_right)
  have lsrt: "om_sorted lt (ms @ (k, w) # ns)" for w
    using srt [of undefined] om_rel_keys [OF l(2)] om_rel_keys [OF l(3)]
      om_sorted_keys [of "ms @ (k, w) # ns" "us @ (k, undefined) # vs"] by simp
  have ssrt: "om_sorted lt (strip us @ (k, w) # strip vs)" for w
    using srt [of undefined] om_sorted_keys [of "strip us @ (k, w) # strip vs" "us @ (k, undefined) # vs"]
    by simp
  show ?thesis
  proof (rule that [of empty_level "[]" us vs])
    show "om_put lt k w (strip g) = strip us @ (k, w) # strip vs" for w
      using at_place(2) [OF ssrt] by (simp add: g(1))
    show "\<exists>ms ns. om_put lt k l levels = ms @ (k, l) # ns \<and> side_rep pl ms us \<and> side_rep pl ns vs" for l
      using at_place(2) [OF lsrt] l by blast
  qed (use at_place(5) [OF lsrt] at_place(5) [OF ssrt] g(1) l(1) in \<open>simp_all add: level_rep_Nil\<close>)
next
  case (Some xs)
  obtain us vs where g: "g = us @ (k, xs) # vs" using find_Some_split [OF Some sorted] by blast
  obtain ms level ns where l: "levels = ms @ (k, level) # ns" "side_rep pl ms us" "side_rep pl ns vs"
    "level_rep (mem pl) level xs"
    using side by (auto simp: g om_rel_append_right om_rel_Cons_right)
  have lsrt: "om_sorted lt (ms @ (k, level) # ns)"
    using sorted om_rel_keys [OF side] om_sorted_keys l(1) by metis
  have ssrt: "om_sorted lt (strip us @ (k, map snd xs) # strip vs)"
    using sorted om_sorted_keys [of "strip g" g] by (simp add: g)
  show ?thesis
  proof (rule that [of level xs us vs])
    show "om_put lt k w (strip g) = strip us @ (k, w) # strip vs" for w
      using at_place(1) [OF ssrt] by (simp add: g)
    show "\<exists>ms ns. om_put lt k w levels = ms @ (k, w) # ns \<and> side_rep pl ms us \<and> side_rep pl ns vs" for w
      using at_place(1) [OF lsrt] l by blast
  qed (use at_place(4) [OF lsrt] at_place(4) [OF ssrt] g l in simp_all)
qed

lemma rest_side:
  assumes store: "store_rep p L (entries s g @ F)" and side: "side_rep p levels g"
    and sorted: "om_sorted lt g" and fresh: "order_id r \<notin> fst ` set (entries s g @ F)"
  obtains a level' q g' where
    "push_back (case om_find lt (order_price r) levels of None \<Rightarrow> empty_level | Some l \<Rightarrow> l) r p
      = Some (a, level', q)"
    and "strip g' = enqueue lt r (strip g)"
    and "side_rep q (om_put lt (order_price r) level' levels) g'"
    and "store_rep q (emplace (order_id r) \<lparr>loc_side = s, loc_price = order_price r, loc_node = a\<rparr> L)
      (entries s g' @ F)"
    and "\<forall>b \<in> set (places F). mem q b = mem p b"
proof -
  let ?k = "order_price r" and ?U = "set (places (entries s g @ F))"
  obtain us xs vs level where at:
    "level = (case om_find lt ?k levels of None \<Rightarrow> empty_level | Some l \<Rightarrow> l)"
    "level_rep (mem p) level xs" "g = us @ (?k, xs) # vs \<or> (g = us @ vs \<and> xs = [])"
    "map snd xs = (case om_find lt ?k (strip g) of None \<Rightarrow> [] | Some q \<Rightarrow> q)"
    "\<And>w. om_put lt ?k w (strip g) = strip us @ (?k, w) # strip vs"
    "\<And>l. \<exists>ms ns. om_put lt ?k l levels = ms @ (?k, l) # ns \<and> side_rep p ms us \<and> side_rep p ns vs"
    using rest_place [OF side sorted, of ?k] by metis
  have E: "entries s g = entries s us @ node_entries s ?k xs @ entries s vs"
    using at(3) by auto
  have own: "pool_owns p ?U" and dist: "distinct (places (entries s g @ F))"
    using store by (simp_all add: store_rep_def)
  have "addrs xs \<subseteq> ?U" "distinct (map fst xs)" using dist unfolding E by auto
  from push_back_spec [OF own at(2) this] obtain a level' q where
    pb: "push_back level r p = Some (a, level', q)" "a \<notin> ?U" "pool_owns q (insert a ?U)"
    "level_rep (mem q) level' (xs @ [(a, r)])" "\<forall>b \<in> ?U - addrs xs. mem q b = mem p b"
    by metis
  let ?g = "us @ (?k, xs @ [(a, r)]) # vs" and ?X = "entries s us @ node_entries s ?k xs"
  let ?loc = "\<lparr>loc_side = s, loc_price = ?k, loc_node = a\<rparr>"
  have keep: "\<forall>b \<in> set (places (entries s us)). mem q b = mem p b"
    "\<forall>b \<in> set (places (entries s vs)). mem q b = mem p b" "\<forall>b \<in> set (places F). mem q b = mem p b"
    using pb(5) dist unfolding E by auto
  obtain ms ns where put: "om_put lt ?k level' levels = ms @ (?k, level') # ns"
    "side_rep p ms us" "side_rep p ns vs" using at(6) by blast
  have "side_rep q (ms @ (?k, level') # ns) ?g"
    using om_rel_level_agree [OF put(2) keep(1)] om_rel_level_agree [OF put(3) keep(2)] pb(4)
    by (intro om_rel_append) simp_all
  moreover have "strip ?g = enqueue lt r (strip g)"
    using at(4) at(5) by (simp add: enqueue_def)
  moreover have "store_rep q (emplace (order_id r) ?loc L) (entries s ?g @ F)"
    using store_rep_insert [of p L ?X "entries s vs @ F" q ?loc "order_id r"] store fresh pb(2,3) by (simp add: E)
  ultimately show ?thesis using that [of a level' q ?g] pb(1) at(1) put(1) keep(3) by simp
qed

text \<open>Where a cancelled order is: in the queue of its level, in a level of its side.\<close>

lemma cancel_place:
  assumes side: "side_rep p levels g" and ok: "depth_ok lt (strip g)" and loc: "(i, loc) \<in> set (entries s g)"
  obtains us k ys a r zs vs ms level ns where "g = us @ (k, ys @ (a, r) # zs) # vs" and "i = order_id r"
    and "loc = \<lparr>loc_side = s, loc_price = k, loc_node = a\<rparr>"
    and "levels = ms @ (k, level) # ns" and "om_sorted lt (ms @ (k, level) # ns)"
    and "side_rep p ms us" and "side_rep p ns vs" and "level_rep (mem p) level (ys @ (a, r) # zs)"
proof -
  obtain k xs where k: "(k, xs) \<in> set g" "(i, loc) \<in> set (node_entries s k xs)"
    using loc by (auto simp: entries_def)
  then obtain a r where ar: "(a, r) \<in> set xs" "i = order_id r"
    "loc = \<lparr>loc_side = s, loc_price = k, loc_node = a\<rparr>"
    by (auto simp: node_entries_def)
  obtain us vs where g: "g = us @ (k, xs) # vs" using k(1) by (meson split_list)
  obtain ys zs where xs: "xs = ys @ (a, r) # zs" using ar(1) by (meson split_list)
  obtain ms level ns where l: "levels = ms @ (k, level) # ns" "side_rep p ms us" "side_rep p ns vs"
    "level_rep (mem p) level xs"
    using side by (auto simp: g om_rel_append_right om_rel_Cons_right)
  have "om_sorted lt (ms @ (k, level) # ns)"
    using ok om_rel_keys [OF side] om_sorted_keys [of "strip g" levels] l(1) by (simp add: depth_ok_def)
  with that [of us k ys a r zs vs ms level ns] g ar(2,3) l show ?thesis by (simp add: xs)
qed

lemma erase_order_at:
  assumes "om_sorted lt (ms @ (k, level) # ns)" and "erase level a p = Some (level', q)"
  shows "erase_order lt \<lparr>loc_side = s, loc_price = k, loc_node = a\<rparr> (ms @ (k, level) # ns) p =
    Some (ms @ (if pl_head level' = None then [] else [(k, level')]) @ ns, q)"
  using at_place(1,3,4) [OF assms(1)] assms(2) by (simp add: erase_order_def)

end

lemma filter_other_ids: "i \<notin> set (map (order_id \<circ> snd) xs) \<Longrightarrow> filter (\<lambda>r. order_id r \<noteq> i) (map snd xs) = map snd xs"
  by (rule filter_True) auto

lemma drop_order_at:
  assumes ok: "depth_ok lt (strip (us @ (k, ys @ (a, r) # zs) # vs))"
    and ids: "order_id r \<notin> set (map fst (entries s us @ node_entries s k ys @ node_entries s k zs @ entries s vs))"
  shows "drop_order (order_id r) (strip (us @ (k, ys @ (a, r) # zs) # vs)) =
    strip (us @ (if ys @ zs = [] then [] else [(k, ys @ zs)]) @ vs)"
proof -
  have "depth_ok lt (strip us)" "depth_ok lt (strip vs)" using ok by (auto simp: depth_ok_def om_sorted_append)
  moreover have "order_id r \<notin> order_id ` set (orders_of (strip us))" "order_id r \<notin> order_id ` set (orders_of (strip vs))"
    using ids by (simp_all add: entries_ids flip: set_map)
  ultimately have "drop_order (order_id r) (strip us) = strip us" "drop_order (order_id r) (strip vs) = strip vs"
    by (simp_all add: drop_order_other)
  moreover have "filter (\<lambda>r'. order_id r' \<noteq> order_id r) (map snd ys) = map snd ys"
    "filter (\<lambda>r'. order_id r' \<noteq> order_id r) (map snd zs) = map snd zs"
    using ids by (auto intro!: filter_other_ids simp del: set_map)
  ultimately show ?thesis by (simp add: drop_order_append)
qed

context price_order
begin

lemma cancel_side:
  assumes store: "store_rep p L (entries s g @ F)" and side: "side_rep p levels g"
    and ok: "depth_ok lt (strip g)" and loc: "(i, loc) \<in> set (entries s g)"
  obtains levels' q g' where "erase_order lt loc levels p = Some (levels', q)"
    and "strip g' = drop_order i (strip g)" and "side_rep q levels' g'"
    and "store_rep q (AList.delete i L) (entries s g' @ F)"
    and "\<forall>b \<in> set (places F). mem q b = mem p b"
proof -
  obtain us k ys a r zs vs ms level ns where at: "g = us @ (k, ys @ (a, r) # zs) # vs" "i = order_id r"
    "loc = \<lparr>loc_side = s, loc_price = k, loc_node = a\<rparr>"
    "levels = ms @ (k, level) # ns" "om_sorted lt (ms @ (k, level) # ns)"
    "side_rep p ms us" "side_rep p ns vs" "level_rep (mem p) level (ys @ (a, r) # zs)"
    by (rule cancel_place [OF side ok loc])
  let ?U = "set (places (entries s g @ F))" and ?xs = "ys @ (a, r) # zs"
  let ?X = "entries s us @ node_entries s k ys" and ?Y = "node_entries s k zs @ entries s vs @ F"
  have E: "entries s g @ F = ?X @ (i, loc) # ?Y" by (simp add: at(1-3))
  have own: "pool_owns p ?U" and idx: "index_ok L (?X @ (i, loc) # ?Y)" and dist: "distinct (places (?X @ (i, loc) # ?Y))"
    using store unfolding store_rep_def E by simp_all
  have xsU: "addrs ?xs \<subseteq> ?U" "distinct (map fst ?xs)"
    using dist unfolding E by (auto simp: at(3))
  obtain level' q where er: "erase level a p = Some (level', q)" "pool_owns q (?U - {a})"
    "level_rep (mem q) level' (ys @ zs)" "\<forall>b \<in> ?U - addrs ?xs. mem q b = mem p b"
    using erase_spec [OF own at(8) xsU] by metis
  have "set (places (entries s us)) \<union> set (places (entries s vs)) \<union> set (places F) \<subseteq> ?U - addrs ?xs"
    using dist unfolding E by (auto simp: at(3) image_Un)
  with er(4) have keep: "\<forall>b \<in> set (places (entries s us)). mem q b = mem p b"
    "\<forall>b \<in> set (places (entries s vs)). mem q b = mem p b" "\<forall>b \<in> set (places F). mem q b = mem p b"
    by blast+
  let ?g = "us @ (if ys @ zs = [] then [] else [(k, ys @ zs)]) @ vs"
  let ?levels = "ms @ (if pl_head level' = None then [] else [(k, level')]) @ ns"
  have "side_rep q (if pl_head level' = None then [] else [(k, level')]) (if ys @ zs = [] then [] else [(k, ys @ zs)])"
    using level_rep_head [OF er(3)] er(3) by simp
  then have "side_rep q ?levels ?g"
    by (intro om_rel_append om_rel_level_agree [OF at(6) keep(1)] om_rel_level_agree [OF at(7) keep(2)])
  moreover have "strip ?g = drop_order i (strip g)"
    using drop_order_at [OF ok [unfolded at(1)], of s] index_ok_delete(2) [OF idx] by (simp add: at(1,2))
  moreover have gE: "entries s ?g @ F = ?X @ ?Y" by simp
  have "store_rep q (AList.delete i L) (entries s ?g @ F)"
    unfolding gE using store_rep_remove [of p L ?X i loc ?Y q] store er(2) unfolding E by (simp add: at(3))
  ultimately show ?thesis
    using that [of ?levels q ?g] erase_order_at [OF at(5) er(1)] keep(3) by (simp add: at(3,4))
qed

end

subsection \<open>The whole book\<close>

definition book_rep :: "order_book \<Rightarrow> ghost \<Rightarrow> ghost \<Rightarrow> bool" where
  "book_rep b gb ga \<longleftrightarrow> side_rep (node_pool b) (bids b) gb \<and> side_rep (node_pool b) (asks b) ga \<and>
     store_rep (node_pool b) (locations b) (entries Buy gb @ entries Sell ga)"

definition represents :: "order_book \<Rightarrow> spec_book \<Rightarrow> bool" where
  "represents b A \<longleftrightarrow> spec_inv A \<and> next_sequence b = sp_sequence A \<and>
     (\<exists>gb ga. book_rep b gb ga \<and> sp_bids A = strip gb \<and> sp_asks A = strip ga)"

lemma representsE:
  assumes "represents b A"
  obtains gb ga where "spec_inv A" and "next_sequence b = sp_sequence A"
    and "sp_bids A = strip gb" and "sp_asks A = strip ga"
    and "depth_ok bids_cmp (strip gb)" and "depth_ok asks_cmp (strip ga)"
    and "side_rep (node_pool b) (bids b) gb" and "side_rep (node_pool b) (asks b) ga"
    and "store_rep (node_pool b) (locations b) (entries Buy gb @ entries Sell ga)"
  using assms unfolding represents_def book_rep_def spec_inv_def by auto

lemma representsI:
  assumes "spec_inv A" and "next_sequence b = sp_sequence A"
    and "sp_bids A = strip gb" and "sp_asks A = strip ga"
    and "side_rep (node_pool b) (bids b) gb" and "side_rep (node_pool b) (asks b) ga"
    and "store_rep (node_pool b) (locations b) (entries Buy gb @ entries Sell ga)"
  shows "represents b A"
  using assms unfolding represents_def book_rep_def by blast

lemma entry_sides: "e \<in> set (entries s g) \<Longrightarrow> loc_side (snd e) = s"
  by (auto simp: entries_def node_entries_def)

lemma represents_index:
  assumes "represents b A"
  shows "fst ` set (locations b) = set (spec_ids A)" and "map_of (locations b) i = None \<longleftrightarrow> i \<notin> set (spec_ids A)"
    and "distinct (map fst (locations b))" and "length (locations b) = length (spec_orders A)"
proof -
  obtain gb ga where r: "sp_bids A = strip gb" "sp_asks A = strip ga"
    "store_rep (node_pool b) (locations b) (entries Buy gb @ entries Sell ga)"
    using assms by (rule representsE)
  let ?E = "entries Buy gb @ entries Sell ga"
  have L: "set (locations b) = set ?E" "distinct (map fst (locations b))" "distinct (map fst ?E)"
    using r(3) unfolding store_rep_def index_ok_def by blast+
  have ids: "map fst ?E = spec_ids A"
    by (simp add: entries_ids spec_ids_def spec_orders_def r(1,2))
  show keys: "fst ` set (locations b) = set (spec_ids A)"
    unfolding L(1) by (simp add: image_Un flip: ids)
  then show "map_of (locations b) i = None \<longleftrightarrow> i \<notin> set (spec_ids A)"
    by (simp add: map_of_eq_None_iff)
  show "distinct (map fst (locations b))" by (rule L(2))
  have "length (map fst (locations b)) = length (map fst ?E)"
    using distinct_card [OF L(2)] distinct_card [OF L(3)] L(1) by (metis set_map)
  then show "length (locations b) = length (spec_orders A)"
    unfolding ids by (simp add: spec_ids_def)
qed

definition start_match :: "Quantity \<Rightarrow> order_book \<Rightarrow> match_state" where
  "start_match quantity b = \<lparr>m_remaining = quantity, m_trades = [], m_sequence = next_sequence b,
     m_locations = locations b, m_pool = node_pool b\<rparr>"

definition settle :: "match_state \<Rightarrow> order_book \<Rightarrow> order_book" where
  "settle st b = b\<lparr>locations := m_locations st, node_pool := m_pool st, next_sequence := m_sequence st\<rparr>"

lemma add_limit_order_eq:
  "add_limit_order i sd price quantity b =
     (if quantity \<le> 0 then Some (Inl quantity_error, b)
      else if map_of (locations b) i \<noteq> None then Some (Inl duplicate_error, b)
      else do {
        (st, b1) \<leftarrow> (if sd = Buy then match_buy i price (start_match quantity b) b
                   else match_sell i price (start_match quantity b) b);
        b2 \<leftarrow> (if m_remaining st > 0 then rest_order i sd price (m_remaining st) (settle st b1)
              else Some (settle st b1));
        Some (Inr (m_trades st), b2)
      })"
  unfolding add_limit_order_def start_match_def settle_def Let_def by (rule refl)

subsection \<open>The book seen from one side\<close>

text \<open>
  The code spells every operation out for bids and for asks.  The lemmas below read both spellings
  as one operation on the levels of a side, so that each is proved once.
\<close>

fun other_side :: "side \<Rightarrow> side" where
  "other_side Buy = Sell"
| "other_side Sell = Buy"

fun side_cmp :: "side \<Rightarrow> Price \<Rightarrow> Price \<Rightarrow> bool" where
  "side_cmp Buy = bids_cmp"
| "side_cmp Sell = asks_cmp"

fun levels_of :: "side \<Rightarrow> order_book \<Rightarrow> (Price, PriceLevel) omap" where
  "levels_of Buy b = bids b"
| "levels_of Sell b = asks b"

fun set_levels :: "side \<Rightarrow> (Price, PriceLevel) omap \<Rightarrow> order_book \<Rightarrow> order_book" where
  "set_levels Buy levels b = b\<lparr>bids := levels\<rparr>"
| "set_levels Sell levels b = b\<lparr>asks := levels\<rparr>"

fun depth_of :: "side \<Rightarrow> spec_book \<Rightarrow> depth" where
  "depth_of Buy A = sp_bids A"
| "depth_of Sell A = sp_asks A"

fun set_depth :: "side \<Rightarrow> depth \<Rightarrow> spec_book \<Rightarrow> spec_book" where
  "set_depth Buy d A = A\<lparr>sp_bids := d\<rparr>"
| "set_depth Sell d A = A\<lparr>sp_asks := d\<rparr>"

lemma other_side_other [simp]: "other_side (other_side s) = s"
  by (cases s) simp_all

lemma side_cmp_order: "price_order (side_cmp s)"
  by (cases s) (simp_all add: bids_levels.price_order_axioms asks_levels.price_order_axioms)

lemma levels_of_set [simp]:
  "levels_of s (set_levels s levels b) = levels" "levels_of (other_side s) (set_levels s levels b) = levels_of (other_side s) b"
  "levels_of (other_side s) (set_levels (other_side s) levels b) = levels" "levels_of s (set_levels (other_side s) levels b) = levels_of s b"
  "node_pool (set_levels s levels b) = node_pool b" "locations (set_levels s levels b) = locations b"
  "next_sequence (set_levels s levels b) = next_sequence b"
  by (cases s; simp)+

lemma depth_of_set [simp]:
  "depth_of s (set_depth s d A) = d" "depth_of (other_side s) (set_depth s d A) = depth_of (other_side s) A"
  "depth_of (other_side s) (set_depth (other_side s) d A) = d" "depth_of s (set_depth (other_side s) d A) = depth_of s A"
  "sp_sequence (set_depth s d A) = sp_sequence A"
  by (cases s; simp)+

lemma side_updates [simp]:
  "levels_of s (b\<lparr>locations := L\<rparr>) = levels_of s b" "levels_of s (b\<lparr>node_pool := q\<rparr>) = levels_of s b"
  "levels_of s (b\<lparr>next_sequence := n\<rparr>) = levels_of s b" "depth_of s (A\<lparr>sp_sequence := n\<rparr>) = depth_of s A"
  by (cases s; simp)+

lemma represents_sideE:
  assumes "represents b A"
  obtains g h where "spec_inv A" and "next_sequence b = sp_sequence A"
    and "depth_of s A = strip g" and "depth_of (other_side s) A = strip h"
    and "depth_ok (side_cmp s) (strip g)" and "depth_ok (side_cmp (other_side s)) (strip h)"
    and "side_rep (node_pool b) (levels_of s b) g" and "side_rep (node_pool b) (levels_of (other_side s) b) h"
    and "store_rep (node_pool b) (locations b) (entries s g @ entries (other_side s) h)"
  using assms
proof (rule representsE)
  fix gb ga
  assume "spec_inv A" "next_sequence b = sp_sequence A" "sp_bids A = strip gb" "sp_asks A = strip ga"
    "depth_ok bids_cmp (strip gb)" "depth_ok asks_cmp (strip ga)"
    "side_rep (node_pool b) (bids b) gb" "side_rep (node_pool b) (asks b) ga"
    "store_rep (node_pool b) (locations b) (entries Buy gb @ entries Sell ga)"
  then show ?thesis
    using that [of gb ga] that [of ga gb] by (cases s) (simp_all add: store_rep_swap)
qed

lemma represents_sideI:
  assumes "spec_inv A" and "next_sequence b = sp_sequence A"
    and "depth_of s A = strip g" and "depth_of (other_side s) A = strip h"
    and "side_rep (node_pool b) (levels_of s b) g" and "side_rep (node_pool b) (levels_of (other_side s) b) h"
    and "store_rep (node_pool b) (locations b) (entries s g @ entries (other_side s) h)"
  shows "represents b A"
  using assms representsI [of A b g h] representsI [of A b h g] by (cases s) (simp_all add: store_rep_swap)

lemma match_side_eq:
  "(if sd = Buy then match_buy i price st b else match_sell i price st b) = do {
     (st1, levels) \<leftarrow> match_levels (side_cmp (other_side sd) price) i sd st (levels_of (other_side sd) b);
     Some (st1, set_levels (other_side sd) levels b)
   }"
  by (cases sd) (simp add: match_buy_def stop_buy, simp add: match_sell_def stop_sell)

lemma spec_match_eq:
  "spec_match i sd price quantity A =
     (case fill_depth (side_cmp (other_side sd) price) i sd quantity (sp_sequence A) (depth_of (other_side sd) A) of
        (ts, rem, sq, d) \<Rightarrow> (ts, rem, set_depth (other_side sd) d (A\<lparr>sp_sequence := sq\<rparr>)))"
  by (cases sd) (simp add: spec_match_def stop_buy split: prod.splits, simp add: spec_match_def stop_sell split: prod.splits)

lemma rest_order_eq:
  "rest_order i sd price rem b = do {
     (node, level, q) \<leftarrow> push_back (case om_find (side_cmp sd) price (levels_of sd b) of None \<Rightarrow> empty_level | Some l \<Rightarrow> l)
       (rest_as i price rem (next_sequence b)) (node_pool b);
     Some (set_levels sd (om_put (side_cmp sd) price level (levels_of sd b))
       (b\<lparr>next_sequence := next_sequence b + 1, node_pool := q,
         locations := emplace i \<lparr>loc_side = sd, loc_price = price, loc_node = node\<rparr> (locations b)\<rparr>))
   }"
  by (cases sd) (simp_all add: rest_order_def rest_as_def Let_def split: bind_splits)

lemma spec_rest_side:
  "spec_rest i sd price rem A =
     set_depth sd (enqueue (side_cmp sd) (rest_as i price rem (sp_sequence A)) (depth_of sd A))
       (A\<lparr>sp_sequence := sp_sequence A + 1\<rparr>)"
  by (cases sd) (simp_all add: spec_rest_eq)

lemma cancel_order_eq:
  "cancel_order i b = (case map_of (locations b) i of
     None \<Rightarrow> Some (False, b)
   | Some loc \<Rightarrow> do {
       (levels, q) \<leftarrow> erase_order (side_cmp (loc_side loc)) loc (levels_of (loc_side loc) b) (node_pool b);
       Some (True, set_levels (loc_side loc) levels (b\<lparr>locations := AList.delete i (locations b), node_pool := q\<rparr>))
     })"
proof (cases "map_of (locations b) i")
  case (Some loc)
  then show ?thesis
    by (cases "loc_side loc") (simp_all add: cancel_order_def Let_def split: bind_splits)
qed (simp add: cancel_order_def)

subsection \<open>Every operation refines its specification\<close>

lemma match_refines:
  assumes rep: "represents b A" and q: "0 \<le> quantity"
    and m: "spec_match i sd price quantity A = (ts, rem, A1)"
  obtains st b1 where
    "(if sd = Buy then match_buy i price (start_match quantity b) b
      else match_sell i price (start_match quantity b) b) = Some (st, b1)"
    and "m_remaining st = rem" and "m_trades st = ts" and "represents (settle st b1) A1"
proof -
  let ?o = "other_side sd" and ?st = "start_match quantity b"
  obtain g h where r: "spec_inv A" "next_sequence b = sp_sequence A" "depth_of ?o A = strip g" "depth_of sd A = strip h"
    "depth_ok (side_cmp ?o) (strip g)" "side_rep (node_pool b) (levels_of ?o b) g" "side_rep (node_pool b) (levels_of sd b) h"
    "store_rep (node_pool b) (locations b) (entries ?o g @ entries sd h)"
    using represents_sideE [OF rep, of ?o] by (metis other_side_other)
  have st: "m_pool ?st = node_pool b" "m_locations ?st = locations b" "m_remaining ?st = quantity"
    "m_sequence ?st = sp_sequence A" "m_trades ?st = []"
    by (simp_all add: start_match_def r(2))
  obtain sq d where f: "fill_depth (side_cmp ?o price) i sd quantity (sp_sequence A) (strip g) = (ts, rem, sq, d)"
    and A1: "A1 = set_depth ?o d (A\<lparr>sp_sequence := sq\<rparr>)"
    using m by (auto simp: spec_match_eq r(3) split: prod.splits)
  obtain levels Z q g' where ms:
    "match_levels (side_cmp ?o price) i sd ?st (levels_of ?o b) = Some (matched ?st ts rem sq Z q, levels)"
    "strip g' = d" "side_rep q levels g'" "store_rep q (unindex Z (m_locations ?st)) (entries ?o g' @ entries sd h)"
    "\<forall>a \<in> set (places (entries sd h)). mem q a = mem (m_pool ?st) a"
    by (rule match_side [of ?st ?o g "entries sd h" "levels_of ?o b" "side_cmp ?o"]) (use r f \<open>0 \<le> quantity\<close> in \<open>auto simp: st\<close>)
  have "side_rep q (levels_of sd b) h" using r(7) ms(5) by (simp add: st om_rel_level_agree)
  then have "represents (settle (matched ?st ts rem sq Z q) (set_levels ?o levels b)) A1"
    using ms r(4) spec_match_spec(1) [OF \<open>0 \<le> quantity\<close> r(1) m]
    by (intro represents_sideI [of _ _ ?o g' h]) (simp_all add: A1 settle_def st)
  then show ?thesis
    using ms(1) by (intro that [of "matched ?st ts rem sq Z q" "set_levels ?o levels b"]) (simp_all add: match_side_eq st)
qed

lemma rest_refines:
  assumes rep: "represents b A" and rem: "0 < rem" and new: "i \<notin> set (spec_ids A)"
    and room: "room_for sd price A"
  obtains b' where "rest_order i sd price rem b = Some b'"
    and "represents b' (spec_rest i sd price rem A)"
proof -
  let ?o = "other_side sd" and ?r = "rest_as i price rem (sp_sequence A)"
  obtain g h where r: "spec_inv A" "next_sequence b = sp_sequence A" "depth_of sd A = strip g" "depth_of ?o A = strip h"
    "depth_ok (side_cmp sd) (strip g)" "side_rep (node_pool b) (levels_of sd b) g" "side_rep (node_pool b) (levels_of ?o b) h"
    "store_rep (node_pool b) (locations b) (entries sd g @ entries ?o h)"
    by (rule represents_sideE [OF rep])
  have sorted: "om_sorted (side_cmp sd) g" using r(5) om_sorted_keys [of "strip g" g] by (simp add: depth_ok_def)
  have "set (map fst (entries sd g @ entries ?o h)) = set (spec_ids A)"
    using r(3,4) by (cases sd) (auto simp: entries_ids spec_ids_def spec_orders_def)
  with new have fresh: "order_id ?r \<notin> fst ` set (entries sd g @ entries ?o h)" by (simp add: image_Un)
  obtain a level q g' where rs:
    "push_back (case om_find (side_cmp sd) price (levels_of sd b) of None \<Rightarrow> empty_level | Some l \<Rightarrow> l)
       ?r (node_pool b) = Some (a, level, q)"
    "strip g' = enqueue (side_cmp sd) ?r (strip g)" "side_rep q (om_put (side_cmp sd) price level (levels_of sd b)) g'"
    "store_rep q (emplace i \<lparr>loc_side = sd, loc_price = price, loc_node = a\<rparr> (locations b)) (entries sd g' @ entries ?o h)"
    "\<forall>a \<in> set (places (entries ?o h)). mem q a = mem (node_pool b) a"
    using price_order.rest_side [OF side_cmp_order r(8,6) sorted fresh] by (metis rest_as_simps(1,2))
  have "side_rep q (levels_of ?o b) h" using r(7) rs(5) by (rule om_rel_level_agree)
  let ?b = "set_levels sd (om_put (side_cmp sd) price level (levels_of sd b)) (b\<lparr>next_sequence := next_sequence b + 1,
    node_pool := q, locations := emplace i \<lparr>loc_side = sd, loc_price = price, loc_node = a\<rparr> (locations b)\<rparr>)"
  have "represents ?b (spec_rest i sd price rem A)"
    using rs r(2,4) \<open>side_rep q (levels_of ?o b) h\<close> spec_rest_spec(1) [OF r(1) rem new room]
    by (intro represents_sideI [of _ _ sd g' h]) (simp_all add: spec_rest_side r(3))
  then show ?thesis using rs(1) by (intro that [of ?b]) (simp_all add: rest_order_eq r(2))
qed

lemma add_refines:
  assumes rep: "represents b A"
  shows "\<exists>b'. add_limit_order i sd price quantity b = Some (fst (spec_add i sd price quantity A), b') \<and>
    represents b' (snd (spec_add i sd price quantity A))"
proof -
  have inv: "spec_inv A" using rep by (simp add: represents_def)
  note idx = represents_index(2) [OF rep, of i]
  show ?thesis
  proof (cases rule: spec_add_cases [of quantity i sd price A])
    case (3 ts A1)
    obtain st b1 where m: "(if sd = Buy then match_buy i price (start_match quantity b) b
      else match_sell i price (start_match quantity b) b) = Some (st, b1)"
      "m_remaining st = 0" "m_trades st = ts" "represents (settle st b1) A1"
      by (rule match_refines [OF rep less_imp_le [OF 3(1)] 3(3)])
    with 3 idx show ?thesis by (simp add: add_limit_order_eq)
  next
    case (4 ts rem A1)
    obtain st b1 where m: "(if sd = Buy then match_buy i price (start_match quantity b) b
      else match_sell i price (start_match quantity b) b) = Some (st, b1)"
      "m_remaining st = rem" "m_trades st = ts" "represents (settle st b1) A1"
      by (rule match_refines [OF rep less_imp_le [OF 4(1)] 4(4)])
    note sm = spec_match_spec [OF less_imp_le [OF 4(1)] inv 4(4)]
    have rem: "0 < rem" "i \<notin> set (spec_ids A1)" using sm(2,3) 4(2,3) by auto
    obtain b' where "rest_order i sd price rem (settle st b1) = Some b'"
      "represents b' (spec_rest i sd price rem A1)"
      by (rule rest_refines [OF m(4) rem sm(4) [OF 4(3)]])
    with 4 idx m rem show ?thesis by (simp add: add_limit_order_eq)
  qed (use rep idx in \<open>auto simp: add_limit_order_eq\<close>)
qed

lemma cancel_refines:
  assumes rep: "represents b A"
  shows "\<exists>b'. cancel_order i b = Some (fst (spec_cancel i A), b') \<and>
    represents b' (snd (spec_cancel i A))"
proof (cases "map_of (locations b) i")
  case None
  then have "i \<notin> set (spec_ids A)" using represents_index(2) [OF rep] by simp
  then have "spec_cancel i A = (False, A)"
    using spec_cancel_unknown rep by (simp add: represents_def)
  with None rep show ?thesis by (simp add: cancel_order_def)
next
  case (Some loc)
  let ?s = "loc_side loc" and ?o = "other_side (loc_side loc)"
  obtain g h where r: "spec_inv A" "next_sequence b = sp_sequence A" "depth_of ?s A = strip g" "depth_of ?o A = strip h"
    "depth_ok (side_cmp ?s) (strip g)" "depth_ok (side_cmp ?o) (strip h)"
    "side_rep (node_pool b) (levels_of ?s b) g" "side_rep (node_pool b) (levels_of ?o b) h"
    "store_rep (node_pool b) (locations b) (entries ?s g @ entries ?o h)"
    by (rule represents_sideE [OF rep])
  have idx: "index_ok (locations b) (entries ?s g @ entries ?o h)" using r(9) by (simp add: store_rep_def)
  have "(i, loc) \<in> set (entries ?s g @ entries ?o h)" using map_of_SomeD [OF Some] idx by (simp add: index_ok_def)
  moreover have "?o \<noteq> ?s" by (cases ?s) simp_all
  ultimately have loc: "(i, loc) \<in> set (entries ?s g)" using entry_sides by fastforce
  obtain levels q g' where c: "erase_order (side_cmp ?s) loc (levels_of ?s b) (node_pool b) = Some (levels, q)"
    "strip g' = drop_order i (strip g)" "side_rep q levels g'"
    "store_rep q (AList.delete i (locations b)) (entries ?s g' @ entries ?o h)"
    "\<forall>a \<in> set (places (entries ?o h)). mem q a = mem (node_pool b) a"
    by (rule price_order.cancel_side [OF side_cmp_order r(9,7,5) loc])
  let ?b = "set_levels ?s levels (b\<lparr>locations := AList.delete i (locations b), node_pool := q\<rparr>)"
  have side: "side_rep q (levels_of ?o b) h" using r(8) c(5) by (rule om_rel_level_agree)
  have "i \<notin> fst ` set (entries ?o h)" using idx loc by (force simp: index_ok_def)
  then have other: "drop_order i (strip h) = strip h"
    using entries_ids [of ?o h] by (intro drop_order_other [OF r(6)]) (metis set_map)
  have "spec_cancel i A = (True, set_depth ?s (drop_order i (strip g)) A)"
    using Some represents_index(2) [OF rep, of i] other r(3,4) by (cases ?s) (auto simp: spec_cancel_def)
  moreover from this have "represents ?b (set_depth ?s (drop_order i (strip g)) A)"
    using c r(2,4) side spec_cancel_inv [OF r(1), of i] by (intro represents_sideI [of _ _ ?s g' h]) simp_all
  ultimately show ?thesis using Some c(1) by (simp add: cancel_order_eq)
qed

subsection \<open>The empty book, and any sequence of commands\<close>

lemma order_node_fits: "sizes_fit order_node_layout kDefaultInitialCapacity"
  by (simp add: sizes_fit_def kRawBlockSize_def kBlockAlign_def kBlockSize_def order_node_layout_def
      sizeof_FreeNode_def alignof_FreeNode_def kDefaultInitialCapacity_def)

text \<open>A book over a new pool of any capacity represents the empty specification.\<close>

definition book_over :: "pool \<Rightarrow> order_book" where
  "book_over p = \<lparr>bids = [], asks = [], locations = [], node_pool = p, next_sequence = 0\<rparr>"

lemma book_over_refines:
  assumes "sizes_fit order_node_layout cap" and "cap \<noteq> 0"
  obtains p where "slab_new order_node_layout cap = Some p" and "represents (book_over p) spec_new"
proof -
  have "sizes_fit order_node_layout (if cap = 0 then 1 else cap)" using assms by simp
  from slab_new_spec [OF this, where ?'a = OrderNode] obtain p where
    p: "slab_new order_node_layout cap = Some p" "pool_owns p {}"
    unfolding slab_owns_def by blast
  have "represents (book_over p) spec_new"
    using p(2) spec_inv_new
    by (intro representsI [of _ _ "[]" "[]"]) (simp_all add: book_over_def spec_new_def store_rep_def index_ok_def)
  with p(1) show ?thesis by (rule that)
qed

lemma book_new_refines:
  obtains b where "book_new = Some b" and "represents b spec_new"
proof -
  obtain p where "slab_new order_node_layout kDefaultInitialCapacity = Some p" "represents (book_over p) spec_new"
    using book_over_refines [OF order_node_fits] by (auto simp: kDefaultInitialCapacity_def)
  then show ?thesis by (intro that [of "book_over p"]) (simp_all add: book_new_def book_over_def)
qed

lemma exec_refines:
  assumes "represents b A"
  shows "\<exists>b'. exec c b = Some (fst (spec_exec c A), b') \<and> represents b' (snd (spec_exec c A))"
proof (cases c)
  case (AddLimit i sd price quantity)
  with add_refines [OF assms, of i sd price quantity] show ?thesis
    by (cases "spec_add i sd price quantity A") auto
next
  case (Cancel i)
  with cancel_refines [OF assms, of i] show ?thesis by (cases "spec_cancel i A") auto
qed

lemma run_refines:
  assumes "represents b A"
  shows "\<exists>b'. run cs b = Some (fst (spec_run cs A), b') \<and> represents b' (snd (spec_run cs A))"
  using assms
proof (induction cs arbitrary: b A)
  case (Cons c cs)
  obtain b1 where e: "exec c b = Some (fst (spec_exec c A), b1)" "represents b1 (snd (spec_exec c A))"
    using exec_refines [OF Cons.prems] by blast
  obtain b2 where "run cs b1 = Some (fst (spec_run cs (snd (spec_exec c A))), b2)"
    "represents b2 (snd (spec_run cs (snd (spec_exec c A))))"
    using Cons.IH [OF e(2)] by blast
  with e(1) show ?case
    by (cases "spec_exec c A"; cases "spec_run cs (snd (spec_exec c A))") simp
qed simp

end
