(* ===== verification/Book_Observers.thy ===== *)
theory Book_Observers
  imports Book_Refinement
begin

section \<open>What the observers of the book return, and its destruction\<close>

text \<open>
  The const member functions of \<open>OrderBook\<close> read off the specified book: best prices, the queue
  of a level in FIFO order, its total, the number of orders.  Only the totals can be undefined:
  they add signed 64-bit quantities without a check.  The destructor visits every node, and the
  pool then owns nothing.
\<close>

definition spec_queue :: "side \<Rightarrow> Price \<Rightarrow> spec_book \<Rightarrow> queue" where
  "spec_queue sd price A =
     (case map_of (if sd = Buy then sp_bids A else sp_asks A) price of None \<Rightarrow> [] | Some q \<Rightarrow> q)"

lemma best_refines:
  assumes "represents b A"
  shows "best_bid b = (case sp_bids A of [] \<Rightarrow> None | (p, q) # d \<Rightarrow> Some p)"
    and "best_ask b = (case sp_asks A of [] \<Rightarrow> None | (p, q) # d \<Rightarrow> Some p)"
proof -
  obtain gb ga where r: "sp_bids A = strip gb" "sp_asks A = strip ga"
    "side_rep (node_pool b) (bids b) gb" "side_rep (node_pool b) (asks b) ga"
    using assms by (rule representsE)
  have "map fst (bids b) = map fst (sp_bids A)" "map fst (asks b) = map fst (sp_asks A)"
    using om_rel_keys [OF r(3)] om_rel_keys [OF r(4)] by (simp_all add: r(1,2))
  then show "best_bid b = (case sp_bids A of [] \<Rightarrow> None | (p, q) # d \<Rightarrow> Some p)"
    "best_ask b = (case sp_asks A of [] \<Rightarrow> None | (p, q) # d \<Rightarrow> Some p)"
    by (auto simp: best_bid_def best_ask_def split: list.split)
qed

text \<open>Looking a price up in a represented side.\<close>

context price_order
begin

lemma find_side:
  assumes "side_rep p levels g" and "depth_ok lt (strip g)"
  obtains "om_find lt k levels = None" "map_of (strip g) k = None"
  | level xs where "om_find lt k levels = Some level" "level_rep (mem p) level xs"
      "map_of (strip g) k = Some (map snd xs)"
proof -
  have s: "om_sorted lt (strip g)" "om_sorted lt g"
    using assms(2) om_sorted_keys [of "strip g" g] by (simp_all add: depth_ok_def)
  have m: "map_of (strip g) k = map_option (map snd) (map_of g k)"
    by (simp add: strip_def map_of_map)
  have "rel_option (level_rep (mem p)) (om_find lt k levels) (map_of g k)"
    using om_rel_find [OF assms(1), of lt k] find_map_of [OF s(2)] by simp
  then show ?thesis
    using that m by (cases "om_find lt k levels"; cases "map_of g k") auto
qed

end

lemma side_cases:
  assumes "represents b A"
  obtains "om_find (if sd = Buy then bids_cmp else asks_cmp) k (if sd = Buy then bids b else asks b) = None"
      "spec_queue sd k A = []"
  | level xs where
      "om_find (if sd = Buy then bids_cmp else asks_cmp) k (if sd = Buy then bids b else asks b) = Some level"
      "level_rep (mem (node_pool b)) level xs" "spec_queue sd k A = map snd xs"
proof -
  obtain gb ga where r: "sp_bids A = strip gb" "sp_asks A = strip ga"
    "depth_ok bids_cmp (strip gb)" "depth_ok asks_cmp (strip ga)"
    "side_rep (node_pool b) (bids b) gb" "side_rep (node_pool b) (asks b) ga"
    using assms by (rule representsE)
  show ?thesis
  proof (cases sd)
    case Buy
    show ?thesis
      by (rule bids_levels.find_side [OF r(5,3), of k]) (use that Buy r(1) in \<open>simp_all add: spec_queue_def\<close>)
  next
    case Sell
    show ?thesis
      by (rule asks_levels.find_side [OF r(6,4), of k]) (use that Sell r(2) in \<open>simp_all add: spec_queue_def\<close>)
  qed
qed

lemma quantity_at_refines:
  assumes "represents b A"
  shows "quantity_at sd price b = sum_orders 0 (spec_queue sd price A)"
  using assms
proof (cases rule: side_cases [of b A sd price, consumes 1])
  case 1
  then show ?thesis by (cases sd) (simp_all add: quantity_at_def)
next
  case (2 level xs)
  then show ?thesis using sum_quantity_spec [OF 2(2)] by (cases sd) (simp_all add: quantity_at_def)
qed

lemma orders_at_refines:
  assumes "represents b A"
  shows "orders_at sd price b = Some (map order_id (spec_queue sd price A))"
  using assms
proof (cases rule: side_cases [of b A sd price, consumes 1])
  case 1
  then show ?thesis by (cases sd) (simp_all add: orders_at_def)
next
  case (2 level xs)
  then show ?thesis using collect_ids_spec [OF 2(2)] by (cases sd) (simp_all add: orders_at_def)
qed

fun depth_sums :: "depth \<Rightarrow> (Price \<times> Quantity) list option" where
  "depth_sums [] = Some []"
| "depth_sums ((price, rs) # d) = do {
     q \<leftarrow> sum_orders 0 rs;
     qs \<leftarrow> depth_sums d;
     Some ((price, q) # qs)
   }"

lemma level_sums_refines: "side_rep p levels g \<Longrightarrow> level_sums levels p = depth_sums (strip g)"
proof (induction g arbitrary: levels)
  case (Cons y g)
  obtain k xs where y: "y = (k, xs)" by force
  with Cons.prems obtain level others where l: "levels = (k, level) # others"
    "level_rep (mem p) level xs" "side_rep p others g"
    by (auto simp: om_rel_Cons_right)
  from Cons.IH [OF l(3)] sum_quantity_spec [OF l(2)] show ?case by (simp add: l(1) y)
qed simp

lemma levels_refine:
  assumes "represents b A"
  shows "bid_levels b = depth_sums (sp_bids A)" and "ask_levels b = depth_sums (sp_asks A)"
proof -
  obtain gb ga where r: "sp_bids A = strip gb" "sp_asks A = strip ga"
    "side_rep (node_pool b) (bids b) gb" "side_rep (node_pool b) (asks b) ga"
    using assms by (rule representsE)
  then show "bid_levels b = depth_sums (sp_bids A)" "ask_levels b = depth_sums (sp_asks A)"
    by (simp_all add: bid_levels_def ask_levels_def level_sums_refines)
qed

text \<open>When a total is defined it is the sum; it is defined when the sum fits.\<close>

lemma sum_orders_Some: "sum_orders acc rs = Some t \<Longrightarrow> val t = val acc + qsum rs"
proof (induction rs arbitrary: acc)
  case (Cons r rs)
  from Cons.prems have a: "in_int64 (val acc + val (order_quantity r))"
    "sum_orders (acc + order_quantity r) rs = Some t"
    by (auto simp: checked_add_def split: if_splits)
  from Cons.IH [OF a(2)] val_add [OF a(1)] show ?case by simp
qed simp

lemma sum_orders_defined:
  assumes "positive rs" and "0 \<le> val acc" and "in_int64 (val acc + qsum rs)"
  shows "\<exists>t. sum_orders acc rs = Some t"
  using assms
proof (induction rs arbitrary: acc)
  case (Cons r rs)
  have "0 < val (order_quantity r)" "0 \<le> qsum rs"
    using Cons.prems(1) qsum_nonneg [of rs] by (auto simp: less_int64_def)
  with Cons.prems(2,3) have a: "in_int64 (val acc + val (order_quantity r))"
    by (simp add: in_int64_def)
  have "\<exists>t. sum_orders (acc + order_quantity r) rs = Some t"
    using Cons.prems \<open>0 < val (order_quantity r)\<close>
    by (intro Cons.IH) (simp_all add: val_add [OF a] algebra_simps)
  with a show ?case by (simp add: checked_add_def)
qed simp

lemma sum_orders_iff:
  assumes "positive rs"
  shows "(\<exists>t. sum_orders 0 rs = Some t \<and> val t = qsum rs) \<longleftrightarrow> qsum rs < 2 ^ 63"
proof
  assume "\<exists>t. sum_orders 0 rs = Some t \<and> val t = qsum rs"
  then show "qsum rs < 2 ^ 63" using val_range(2) by metis
next
  assume less: "qsum rs < 2 ^ 63"
  with qsum_nonneg [OF assms] have "in_int64 (val 0 + qsum rs)" by (simp add: in_int64_def)
  from sum_orders_defined [OF assms _ this] obtain t where "sum_orders 0 rs = Some t" by auto
  with sum_orders_Some [OF this] show "\<exists>t. sum_orders 0 rs = Some t \<and> val t = qsum rs" by simp
qed

lemma sum_orders_undefined:
  assumes "positive rs" and "2 ^ 63 \<le> qsum rs"
  shows "sum_orders 0 rs = None"
proof (cases "sum_orders 0 rs")
  case (Some t)
  with sum_orders_Some [OF Some] val_range(2) [of t] assms(2) show ?thesis by simp
qed

subsection \<open>Counting nodes\<close>

lemma represents_pool:
  assumes "represents b A"
  obtains U where "pool_owns (node_pool b) U" and "card U = length (spec_orders A)"
proof -
  obtain gb ga where r: "sp_bids A = strip gb" "sp_asks A = strip ga"
    "store_rep (node_pool b) (locations b) (entries Buy gb @ entries Sell ga)"
    using assms by (rule representsE)
  let ?E = "entries Buy gb @ entries Sell ga"
  have s: "pool_owns (node_pool b) (set (places ?E))" "distinct (places ?E)"
    using r(3) by (simp_all add: store_rep_def)
  have "length (places ?E) = length (map fst ?E)" by (simp add: places_def)
  also have "map fst ?E = spec_ids A" by (simp add: entries_ids spec_ids_def spec_orders_def r(1,2))
  finally have "card (set (places ?E)) = length (spec_orders A)"
    using distinct_card [OF s(2)] by (simp add: spec_ids_def)
  with s(1) show ?thesis by (rule that)
qed

lemma in_use_order_count:
  assumes "represents b A"
  shows "in_use (node_pool b) = order_count b" and "order_count b = of_nat (length (spec_orders A))"
proof -
  obtain U where U: "pool_owns (node_pool b) U" "card U = length (spec_orders A)"
    using assms by (rule represents_pool)
  show "order_count b = of_nat (length (spec_orders A))"
    using represents_index(4) [OF assms] by (simp add: order_count_def)
  with slab_owns_counts(2) [OF U(1)] U(2) show "in_use (node_pool b) = order_count b" by simp
qed

subsection \<open>The destructor\<close>

lemma destroy_levels_spec:
  assumes "store_rep p L (entries s g @ F)" and "side_rep p levels g"
  shows "\<exists>q. destroy_levels levels p = Some q \<and> pool_owns q (set (places F)) \<and>
    (\<forall>b \<in> set (places F). mem q b = mem p b)"
proof -
  have "\<exists>q. destroy_levels levels p = Some q \<and> pool_owns q (set (places F)) \<and>
      (\<forall>b \<in> set (places F). mem q b = mem p b)"
    if "pool_owns p (set (places (entries s g @ F)))" "distinct (places (entries s g @ F))"
      "side_rep p levels g" for p
    using that
  proof (induction g arbitrary: levels p)
    case (Cons y g)
    obtain k xs where y: "y = (k, xs)" by force
    let ?U = "set (places (entries s (y # g) @ F))" and ?R = "entries s g @ F"
    obtain level others where l: "levels = (k, level) # others" "level_rep (mem p) level xs"
      "side_rep p others g"
      using Cons.prems(3) by (auto simp: y om_rel_Cons_right)
    have U: "?U = addrs xs \<union> set (places ?R)" and dist: "distinct (map fst xs)" "distinct (places ?R)"
      "addrs xs \<inter> set (places ?R) = {}"
      using Cons.prems(2) by (auto simp: y)
    obtain p1 where p1: "destroy_nodes (pl_head level) p = Some p1" "pool_owns p1 (?U - addrs xs)"
      "\<forall>b. b \<notin> addrs xs \<longrightarrow> mem p1 b = mem p b"
      using destroy_nodes_spec [OF Cons.prems(1) l(2) [unfolded level_rep_def] _ dist(1)] U by blast
    have "?U - addrs xs = set (places ?R)" unfolding U using dist(3) by blast
    moreover have keep: "\<forall>b \<in> set (places ?R). mem p1 b = mem p b"
      using p1(3) dist(3) by (metis disjoint_iff)
    moreover have "\<forall>b \<in> set (places (entries s g)). mem p1 b = mem p b" using keep by simp
    then have "side_rep p1 others g" by (rule om_rel_level_agree [OF l(3)])
    ultimately obtain q where "destroy_levels others p1 = Some q" "pool_owns q (set (places F))"
      "\<forall>b \<in> set (places F). mem q b = mem p1 b"
      using Cons.IH [of p1 others] p1(2) dist(2) by metis
    with p1(1) keep show ?case by (simp add: l(1))
  qed simp
  with assms show ?thesis by (simp add: store_rep_def)
qed

lemma book_destroy_refines:
  assumes "represents b A"
  shows "\<exists>p. book_destroy b = Some p \<and> pool_owns p {}"
proof -
  obtain gb ga where r: "side_rep (node_pool b) (bids b) gb" "side_rep (node_pool b) (asks b) ga"
    "store_rep (node_pool b) (locations b) (entries Buy gb @ entries Sell ga)"
    using assms by (rule representsE)
  obtain q where q: "destroy_levels (bids b) (node_pool b) = Some q"
    "pool_owns q (set (places (entries Sell ga)))"
    "\<forall>a \<in> set (places (entries Sell ga)). mem q a = mem (node_pool b) a"
    using destroy_levels_spec [OF r(3,1)] by blast
  have s: "side_rep q (asks b) ga" using r(2) q(3) by (rule om_rel_level_agree)
  have "distinct (places (entries Sell ga))" using r(3) by (simp add: store_rep_def)
  moreover have "\<exists>L. index_ok L (entries Sell ga @ [])"
    using r(3) by (intro exI [of _ "entries Sell ga"]) (auto simp: store_rep_def index_ok_def)
  ultimately obtain L where "store_rep q L (entries Sell ga @ [])"
    using q(2) by (auto simp: store_rep_def)
  from destroy_levels_spec [OF this s] q(1) show ?thesis by (auto simp: book_destroy_def)
qed

end
