(* ===== verification/Book_Properties.thy ===== *)
theory Book_Properties
  imports Book_Observers
begin

section \<open>Properties of the order book\<close>

text \<open>
  The guarantees of \<open>OrderBook\<close>, stated on the code's definitions.  \<open>book_after cs\<close> is the book a
  client has after constructing one and calling the commands \<open>cs\<close>.
\<close>

definition book_after :: "command list \<Rightarrow> (reply list \<times> order_book) option" where
  "book_after cs = do { b \<leftarrow> book_new; run cs b }"

definition spec_after :: "command list \<Rightarrow> spec_book" where
  "spec_after cs = snd (spec_run cs spec_new)"

lemma book_after_spec:
  obtains b where "book_after cs = Some (fst (spec_run cs spec_new), b)" and "represents b (spec_after cs)"
proof -
  obtain b0 where b0: "book_new = Some b0" "represents b0 spec_new" by (rule book_new_refines)
  have "book_after cs = run cs b0" by (simp add: b0(1) book_after_def)
  with run_refines [OF b0(2), of cs] show ?thesis
    using that by (auto simp: spec_after_def)
qed

lemma reached:
  assumes "book_after cs = Some (rs, b)"
  shows "represents b (spec_after cs)"
proof -
  obtain b' where "book_after cs = Some (fst (spec_run cs spec_new), b')" "represents b' (spec_after cs)"
    by (rule book_after_spec)
  with assms show ?thesis by simp
qed

lemma represents_inv: "represents b A \<Longrightarrow> spec_inv A"
  by (simp add: represents_def)

text \<open>The example book of the witnesses: two bids at 100, one at 99, asks at 105 and 107.\<close>

definition sample :: "command list" where
  "sample = [AddLimit 1 Buy 100 10, AddLimit 2 Buy 100 4, AddLimit 3 Buy 99 7,
     AddLimit 4 Sell 105 5, AddLimit 5 Sell 107 6]"

lemma sample_numerals:
  "(0::int64) < 4" "(0::int64) < 5" "(0::int64) < 6" "(0::int64) < 7" "(0::int64) < 10" "(0::int64) < 20"
  "(99::int64) < 100" "(100::int64) < 105" "(105::int64) < 107" "(0::int64) < 3" "(0::int64) < 8"
  by (simp_all add: less_int64_def val_numeral)

lemma sample_ids: "spec_ids (spec_after sample) = [1, 2, 3, 4, 5]"
  by code_simp

text \<open>
  C1: the order book implements its specification.  For every sequence of \<open>add_limit_order\<close> and
  \<open>cancel_order\<close> calls on a new \<open>OrderBook\<close>, each call ends without undefined behaviour (no null
  or dangling pointer, no signed overflow, no endless loop), answers or throws what the
  specification says, and the book left behind represents the specified one.
\<close>

theorem book_implements_spec:
  "\<exists>b. book_after cs = Some (fst (spec_run cs spec_new), b) \<and> represents b (spec_after cs)"
  using book_after_spec [of cs] by blast

lemma queue_in_side:
  assumes "represents b A" and "orders_at sd price b = Some ids" and "ids \<noteq> []"
  shows "price \<in> fst ` set (if sd = Buy then sp_bids A else sp_asks A)"
proof -
  have "spec_queue sd price A \<noteq> []" using orders_at_refines [OF assms(1)] assms(2,3) by auto
  then show ?thesis
    by (auto simp: spec_queue_def split: option.splits dest!: map_of_SomeD intro: rev_image_eqI)
qed

lemma side_prices:
  assumes "represents b A"
  shows "fst ` set (if sd = Buy then sp_bids A else sp_asks A) =
    {price. \<exists>ids. orders_at sd price b = Some ids \<and> ids \<noteq> []}"
proof (intro equalityI subsetI)
  let ?d = "if sd = Buy then sp_bids A else sp_asks A"
  fix price assume "price \<in> fst ` set ?d"
  then obtain q where q: "map_of ?d price = Some q" by (metis map_of_eq_None_iff not_Some_eq)
  then have "q \<noteq> []"
    using map_of_SomeD [OF q] represents_inv [OF assms] depth_ok_queue
    by (auto simp: spec_inv_def split: if_splits)
  with q show "price \<in> {price. \<exists>ids. orders_at sd price b = Some ids \<and> ids \<noteq> []}"
    using orders_at_refines [OF assms, of sd price] by (simp add: spec_queue_def)
qed (use queue_in_side [OF assms] in blast)

lemma no_side_prices:
  assumes "represents b A"
  shows "(if sd = Buy then sp_bids A else sp_asks A) = [] \<longleftrightarrow> (\<forall>price. orders_at sd price b = Some [])"
proof -
  have "(if sd = Buy then sp_bids A else sp_asks A) = [] \<longleftrightarrow>
      {price. \<exists>ids. orders_at sd price b = Some ids \<and> ids \<noteq> []} = {}"
    unfolding side_prices [OF assms, of sd, symmetric] by simp
  then show ?thesis using orders_at_refines [OF assms, of sd] by auto
qed

text \<open>
  C5: the best prices.  Whatever commands were executed, \<open>best_bid()\<close> is the highest price at which
  buy orders rest and \<open>best_ask()\<close> the lowest at which sell orders rest: orders do rest at the
  reported price, every other price with resting orders is no better, and nothing is reported
  exactly when no price of that side has an order.  The book is never crossed or locked: the best
  bid is below the best ask.
\<close>

theorem best_prices:
  assumes "book_after cs = Some (rs, b)"
  shows "(\<forall>p q. best_bid b = Some p \<longrightarrow> best_ask b = Some q \<longrightarrow> p < q) \<and>
    (\<forall>p. best_bid b = Some p \<longrightarrow> (\<exists>ids. orders_at Buy p b = Some ids \<and> ids \<noteq> [])) \<and>
    (\<forall>q. best_ask b = Some q \<longrightarrow> (\<exists>ids. orders_at Sell q b = Some ids \<and> ids \<noteq> [])) \<and>
    (\<forall>price ids. orders_at Buy price b = Some ids \<longrightarrow> ids \<noteq> [] \<longrightarrow> (\<exists>p. best_bid b = Some p \<and> price \<le> p)) \<and>
    (\<forall>price ids. orders_at Sell price b = Some ids \<longrightarrow> ids \<noteq> [] \<longrightarrow> (\<exists>q. best_ask b = Some q \<and> q \<le> price)) \<and>
    (best_bid b = None \<longleftrightarrow> (\<forall>price. orders_at Buy price b = Some [])) \<and>
    (best_ask b = None \<longleftrightarrow> (\<forall>price. orders_at Sell price b = Some []))"
proof (intro conjI allI impI)
  let ?A = "spec_after cs"
  have rep: "represents b ?A" by (rule reached [OF assms])
  note inv = represents_inv [OF rep] and best = best_refines [OF rep]
  note prices = side_prices [OF rep, of Buy] side_prices [OF rep, of Sell]
  have sorted: "om_sorted bids_cmp (sp_bids ?A)" "om_sorted asks_cmp (sp_asks ?A)"
    using inv by (simp_all add: spec_inv_def depth_ok_def)
  show "p < q" if "best_bid b = Some p" "best_ask b = Some q" for p q
    using that best spec_inv_uncrossed [OF inv]
    by (cases "sp_bids ?A"; cases "sp_asks ?A") force+
  show "\<exists>ids. orders_at Buy p b = Some ids \<and> ids \<noteq> []" if "best_bid b = Some p" for p
  proof -
    have "p \<in> fst ` set (sp_bids ?A)" using that best(1) by (auto split: list.splits)
    then show ?thesis using prices(1) by auto
  qed
  show "\<exists>ids. orders_at Sell q b = Some ids \<and> ids \<noteq> []" if "best_ask b = Some q" for q
  proof -
    have "q \<in> fst ` set (sp_asks ?A)" using that best(2) by (auto split: list.splits)
    then show ?thesis using prices(2) by auto
  qed
  show "\<exists>p. best_bid b = Some p \<and> price \<le> p" if "orders_at Buy price b = Some ids" "ids \<noteq> []" for price ids
    using queue_in_side [OF rep that] best(1) sorted(1)
    by (cases "sp_bids ?A") (fastforce simp: bids_cmp_def)+
  show "\<exists>q. best_ask b = Some q \<and> q \<le> price" if "orders_at Sell price b = Some ids" "ids \<noteq> []" for price ids
    using queue_in_side [OF rep that] best(2) sorted(2)
    by (cases "sp_asks ?A") (fastforce simp: asks_cmp_def)+
  show "best_bid b = None \<longleftrightarrow> (\<forall>price. orders_at Buy price b = Some [])"
    unfolding best(1) using no_side_prices [OF rep, of Buy] by (auto split: list.splits)
  show "best_ask b = None \<longleftrightarrow> (\<forall>price. orders_at Sell price b = Some [])"
    unfolding best(2) using no_side_prices [OF rep, of Sell] by (auto split: list.splits)
qed

theorem best_prices_witness:
  "\<exists>rs b. book_after sample = Some (rs, b) \<and> best_bid b = Some 100 \<and> best_ask b = Some 105 \<and>
     (100::Price) < 105 \<and> (99::Price) \<le> 100"
proof -
  obtain b where b: "book_after sample = Some (fst (spec_run sample spec_new), b)"
    "represents b (spec_after sample)" by (rule book_after_spec)
  have sides: "map fst (sp_bids (spec_after sample)) = [100, 99]" "map fst (sp_asks (spec_after sample)) = [105, 107]"
    "map order_id (spec_queue Buy 99 (spec_after sample)) = [3]"
    by code_simp+
  have best: "best_bid b = Some 100" "best_ask b = Some 105"
    using best_refines [OF b(2)] sides by (auto split: list.splits)
  have "orders_at Buy 99 b = Some [3]" using orders_at_refines [OF b(2), of Buy 99] sides(3) by simp
  with best_prices [OF b(1)] b(1) best show ?thesis by auto
qed

definition beyond :: "side \<Rightarrow> Price \<Rightarrow> Price \<Rightarrow> bool" where
  "beyond sd limit p \<longleftrightarrow> (if sd = Buy then p > limit else p < limit)"

lemma beyond_eq:
  "beyond Buy limit = (\<lambda>p. p > limit)" "beyond Sell limit = (\<lambda>p. p < limit)"
  by (simp_all add: beyond_def fun_eq_iff)

definition opposite :: "side \<Rightarrow> spec_book \<Rightarrow> depth" where
  "opposite sd A = (if sd = Buy then sp_asks A else sp_bids A)"

lemma spec_match_trades:
  assumes "spec_inv A" and "0 \<le> quantity" and "spec_match i sd price quantity A = (ts, rem, A1)"
  shows "map fill_of ts = greedy (val quantity) (crossing (beyond sd price) (opposite sd A))"
    and "\<forall>t \<in> set ts. aggressor_order_id t = i \<and> aggressor_side t = sd"
    and "numbered (sp_sequence A) ts (sp_sequence A1)"
proof -
  obtain lt sq d where f: "fill_depth (beyond sd price) i sd quantity (sp_sequence A) (opposite sd A) = (ts, rem, sq, d)"
    "depth_ok lt (opposite sd A)"
    using assms(1,3) unfolding spec_match_def beyond_def opposite_def spec_inv_def
    by (cases sd) (auto split: prod.splits)
  show "map fill_of ts = greedy (val quantity) (crossing (beyond sd price) (opposite sd A))"
    by (rule fill_depth_greedy [OF assms(2) f(2,1)])
  show "\<forall>t \<in> set ts. aggressor_order_id t = i \<and> aggressor_side t = sd"
    using fill_depth_trades [OF f(1)] by blast
  show "numbered (sp_sequence A) ts (sp_sequence A1)"
    by (rule spec_match_spec(7) [OF assms(2,1,3)])
qed

text \<open>
  C4: price-time priority.  An accepted order trades with the resting orders of the other side
  that its limit price reaches, best price first and oldest first within a price, each for as
  much as is left of the incoming order, up to its own size, at the resting order's price; every
  trade names the incoming order and side, and the trades take consecutive sequence numbers.
\<close>

theorem price_time_priority:
  assumes "represents b A" and "0 < quantity" and "i \<notin> set (spec_ids A)"
  shows "\<exists>ts b'. add_limit_order i sd price quantity b = Some (Inr ts, b') \<and>
    map fill_of ts = greedy (val quantity) (crossing (beyond sd price) (opposite sd A)) \<and>
    (\<forall>t \<in> set ts. aggressor_order_id t = i \<and> aggressor_side t = sd) \<and>
    map trade_sequence ts = map (\<lambda>k. next_sequence b + of_nat k) [0..<length ts]"
proof -
  obtain ts rem A1 where m: "spec_match i sd price quantity A = (ts, rem, A1)" by (metis prod_cases3)
  have "fst (spec_add i sd price quantity A) = Inr ts" using assms(2,3) m by (simp add: spec_add_def)
  moreover have "next_sequence b = sp_sequence A" using assms(1) by (simp add: represents_def)
  ultimately show ?thesis
    using add_refines [OF assms(1), of i sd price quantity]
      spec_match_trades [OF represents_inv [OF assms(1)] less_imp_le [OF assms(2)] m]
    by (auto simp: numbered_def)
qed

theorem price_time_priority_witness:
  "\<exists>b ts b'. represents b (spec_after sample) \<and> add_limit_order 9 Sell 99 20 b = Some (Inr ts, b') \<and>
     map fill_of ts = [(1, 100, 10), (2, 100, 4), (3, 99, 6)]"
proof -
  obtain b where b: "represents b (spec_after sample)" using book_after_spec [of sample] by blast
  have g: "greedy (val 20) (crossing (beyond Sell 99) (opposite Sell (spec_after sample)))
      = [(1, 100, 10), (2, 100, 4), (3, 99, 6)]"
    by code_simp
  show ?thesis
    using price_time_priority [OF b, of 20 9 Sell 99] b by (auto simp: g sample_ids sample_numerals)
qed

subsection \<open>Effects of an accepted order\<close>

lemma greedy_positive: "positive rs \<Longrightarrow> \<forall>(i, p, q) \<in> set (greedy rem rs). 0 < q"
  by (induction rs arbitrary: rem) (auto simp: Let_def less_int64_def)

lemma crossing_positive:
  assumes "depth_ok lt d"
  shows "positive (crossing stop d)"
proof -
  have "\<forall>pq \<in> set (takeWhile (\<lambda>(p, q). \<not> stop p) d). positive (snd pq)"
    using assms by (auto simp: depth_ok_def dest!: set_takeWhileD)
  then show ?thesis by (auto simp: crossing_def orders_of_def)
qed

lemma opposite_ok: "spec_inv A \<Longrightarrow> \<exists>lt. depth_ok lt (opposite sd A)"
  by (auto simp: opposite_def spec_inv_def)

lemma add_accepted:
  assumes "represents b A" and "add_limit_order i sd price quantity b = Some (Inr ts, b')"
  shows "spec_add i sd price quantity A = (Inr ts, snd (spec_add i sd price quantity A))"
    and "represents b' (snd (spec_add i sd price quantity A))"
    and "0 < quantity" and "i \<notin> set (spec_ids A)"
proof -
  obtain b1 where b1: "add_limit_order i sd price quantity b = Some (fst (spec_add i sd price quantity A), b1)"
    "represents b1 (snd (spec_add i sd price quantity A))"
    using add_refines [OF assms(1), of i sd price quantity] by blast
  with assms(2) have r: "fst (spec_add i sd price quantity A) = Inr ts" "b1 = b'" by simp_all
  then show "spec_add i sd price quantity A = (Inr ts, snd (spec_add i sd price quantity A))"
    by (metis prod.collapse)
  show "represents b' (snd (spec_add i sd price quantity A))" using b1(2) r(2) by simp
  show "0 < quantity" "i \<notin> set (spec_ids A)"
    using r(1) by (auto simp: spec_add_def not_le split: if_splits)
qed

lemma trades_positive:
  assumes "represents b A" and "add_limit_order i sd price quantity b = Some (Inr ts, b')"
  shows "\<forall>t \<in> set ts. 0 < trade_quantity t"
proof
  fix t assume t: "t \<in> set ts"
  note inv = represents_inv [OF assms(1)] and acc = add_accepted [OF assms]
  obtain A1 rem where m: "spec_match i sd price quantity A = (ts, rem, A1)"
    using spec_add_orders [OF inv acc(1)] by metis
  obtain lt where "depth_ok lt (opposite sd A)" using opposite_ok [OF inv] by blast
  moreover have "fill_of t \<in> set (greedy (val quantity) (crossing (beyond sd price) (opposite sd A)))"
    using spec_match_trades(1) [OF inv less_imp_le [OF acc(3)] m] t by (metis image_eqI set_map)
  ultimately have "0 < val (trade_quantity t)"
    using greedy_positive [OF crossing_positive] by (fastforce simp: fill_of_def)
  then show "0 < trade_quantity t" by (simp add: less_int64_def)
qed

text \<open>
  C6: quantity is conserved.  The quantity of an accepted order is what its trades carry, each a
  positive amount, plus what comes to rest; the total resting in the book falls by what traded
  and grows by what came to rest.
\<close>

theorem add_conserves:
  assumes "represents b A" and "add_limit_order i sd price quantity b = Some (Inr ts, b')"
  shows "\<exists>A' rest. represents b' A' \<and> 0 \<le> rest \<and> val quantity = tsum ts + rest \<and>
    qsum (spec_orders A') = qsum (spec_orders A) - tsum ts + rest \<and>
    (\<forall>t \<in> set ts. 0 < trade_quantity t)"
proof -
  note inv = represents_inv [OF assms(1)] and acc = add_accepted [OF assms]
  obtain A1 rem where m: "spec_match i sd price quantity A = (ts, rem, A1)" "0 \<le> rem"
    "val quantity = tsum ts + val rem" "qsum (spec_orders A) = tsum ts + qsum (spec_orders A1)"
    "rem = 0 \<Longrightarrow> snd (spec_add i sd price quantity A) = A1"
    "rem \<noteq> 0 \<Longrightarrow> mset (spec_orders (snd (spec_add i sd price quantity A))) =
      add_mset (rest_as i price rem (sp_sequence A1)) (mset (spec_orders A1))"
    using spec_add_orders [OF inv acc(1)] by metis
  have sum: "mset xs = mset ys \<Longrightarrow> qsum xs = qsum ys" for xs ys
    unfolding qsum_def by (metis mset_map sum_mset_sum_list)
  have "qsum (spec_orders (snd (spec_add i sd price quantity A))) = qsum (spec_orders A1) + val rem"
  proof (cases "rem = 0")
    case False
    from sum [of _ "rest_as i price rem (sp_sequence A1) # spec_orders A1"] m(6) [OF False]
    show ?thesis by simp
  qed (use m(5) in simp)
  moreover have "\<forall>t \<in> set ts. 0 < trade_quantity t" by (rule trades_positive [OF assms])
  ultimately show ?thesis
    using acc(2) m(2-4) by (intro exI [of _ "snd (spec_add i sd price quantity A)"] exI [of _ "val rem"])
      (simp add: less_eq_int64_def)
qed

theorem add_conserves_witness:
  "\<exists>b ts b' A' rest. represents b (spec_after sample) \<and>
     add_limit_order 9 Sell 99 20 b = Some (Inr ts, b') \<and> represents b' A' \<and>
     20 = tsum ts + rest \<and> qsum (spec_orders A') = 32 - tsum ts + rest"
proof -
  obtain b where b: "represents b (spec_after sample)" using book_after_spec [of sample] by blast
  have add: "fst (spec_add 9 Sell 99 20 (spec_after sample)) =
      Inr (map (\<lambda>(r, p, q, s). \<lparr>aggressor_order_id = 9, resting_order_id = r, aggressor_side = Sell,
        trade_price = p, trade_quantity = q, trade_sequence = s\<rparr>) [(1, 100, 10, 5), (2, 100, 4, 6), (3, 99, 6, 7)])"
    and sum: "qsum (spec_orders (spec_after sample)) = 32"
    by code_simp+
  from add_refines [OF b, of 9 Sell 99 20] obtain ts b' where
    a: "add_limit_order 9 Sell 99 20 b = Some (Inr ts, b')" unfolding add by blast
  obtain A' rest where "represents b' A'" "val 20 = tsum ts + rest"
    "qsum (spec_orders A') = 32 - tsum ts + rest"
    using add_conserves [OF b a] unfolding sum by blast
  moreover have "val 20 = 20" by (simp add: val_numeral)
  ultimately show ?thesis using a b by metis
qed

text \<open>
  C16: a rejected order leaves the book as it was.  \<open>add_limit_order\<close> throws exactly when the
  quantity is not positive or the id already rests, in this order, and then nothing changed.
\<close>

theorem add_rejects:
  assumes "represents b A"
  shows "add_limit_order i sd price quantity b = Some (Inl e, b') \<longleftrightarrow> b' = b \<and>
    (if quantity \<le> 0 then e = quantity_error else i \<in> set (spec_ids A) \<and> e = duplicate_error)"
proof (cases "quantity \<le> 0 \<or> i \<in> set (spec_ids A)")
  case True
  then show ?thesis
    using represents_index(2) [OF assms, of i] by (auto simp: add_limit_order_def)
next
  case False
  then obtain ts where "fst (spec_add i sd price quantity A) = Inr ts"
    by (cases "spec_match i sd price quantity A") (simp add: spec_add_def)
  with add_refines [OF assms, of i sd price quantity] False show ?thesis by auto
qed

theorem add_rejects_witness:
  "\<exists>b. represents b (spec_after sample) \<and>
     add_limit_order 3 Sell 100 1 b = Some (Inl duplicate_error, b) \<and>
     add_limit_order 9 Sell 100 0 b = Some (Inl quantity_error, b)"
proof -
  obtain b where b: "represents b (spec_after sample)" using book_after_spec [of sample] by blast
  have "\<not> (1::int64) \<le> 0" by (simp add: less_eq_int64_def)
  with add_rejects [OF b, of 3 Sell 100 1] add_rejects [OF b, of 9 Sell 100 0] b show ?thesis
    by (auto simp: sample_ids)
qed

text \<open>
  Every accepted order advances the sequence counter by one for each trade and by one more
  when a remainder rests; the numbers wrap around modulo \<open>2 ^ 64\<close>.
\<close>

theorem sequence_advances:
  assumes "represents b A" and "add_limit_order i sd price quantity b = Some (Inr ts, b')"
  shows "next_sequence b' =
    next_sequence b + of_nat (length ts + (if tsum ts < val quantity then 1 else 0))"
proof -
  note inv = represents_inv [OF assms(1)] and acc = add_accepted [OF assms]
  obtain A1 rem where m: "spec_match i sd price quantity A = (ts, rem, A1)" "0 \<le> rem"
    "val quantity = tsum ts + val rem" "rem = 0 \<Longrightarrow> snd (spec_add i sd price quantity A) = A1"
    "rem \<noteq> 0 \<Longrightarrow> snd (spec_add i sd price quantity A) = spec_rest i sd price rem A1"
    using spec_add_orders [OF inv acc(1)] by metis
  have "sp_sequence A1 = sp_sequence A + of_nat (length ts)"
    using spec_match_trades(3) [OF inv less_imp_le [OF acc(3)] m(1)] by (simp add: numbered_def)
  moreover have "tsum ts < val quantity \<longleftrightarrow> rem \<noteq> 0"
    using m(2,3) by (auto simp: less_eq_int64_def simp flip: val_eq_0_iff)
  moreover have "next_sequence b = sp_sequence A" "next_sequence b' = sp_sequence (snd (spec_add i sd price quantity A))"
    using assms(1) acc(2) by (simp_all add: represents_def)
  ultimately show ?thesis
    using m(4,5) by (cases "rem = 0") (simp_all add: spec_rest_eq)
qed

theorem sequence_advances_witness:
  "\<exists>b ts b'. represents b (spec_after sample) \<and> add_limit_order 9 Sell 101 4 b = Some (Inr ts, b') \<and>
     next_sequence b' = next_sequence b + of_nat (length ts + (if tsum ts < val 4 then 1 else 0))"
proof -
  obtain b where b: "represents b (spec_after sample)" using book_after_spec [of sample] by blast
  have add: "fst (spec_add 9 Sell 101 4 (spec_after sample)) = Inr []" by code_simp
  from add_refines [OF b, of 9 Sell 101 4] obtain b' where
    a: "add_limit_order 9 Sell 101 4 b = Some (Inr [], b')" unfolding add by blast
  from sequence_advances [OF b a] a b show ?thesis by blast
qed

subsection \<open>Where an order rests, and how it leaves\<close>

lemma spec_queue_enqueue:
  assumes "spec_inv A" and "0 < rem"
  shows "spec_queue sd' k (spec_rest i sd price rem A) =
    (if sd' = sd \<and> k = price then spec_queue sd price A @ [rest_as i price rem (sp_sequence A)]
     else spec_queue sd' k A)"
proof -
  have s: "om_sorted bids_cmp (sp_bids A)" "om_sorted asks_cmp (sp_asks A)"
    using assms(1) by (simp_all add: spec_inv_def depth_ok_def)
  show ?thesis
    by (cases sd; cases sd')
      (auto simp: spec_queue_def spec_rest_eq enqueue_def bids_order.map_of_put [OF s(1)]
        asks_order.map_of_put [OF s(2)] bids_order.find_map_of [OF s(1)] asks_order.find_map_of [OF s(2)])
qed

lemma spec_match_own_side:
  assumes "spec_match i sd price quantity A = (ts, rem, A1)"
  shows "spec_queue sd k A1 = spec_queue sd k A"
  using assms by (cases sd) (auto simp: spec_match_def spec_queue_def split: prod.splits)

lemma remainder_queue:
  assumes "represents b A" and "add_limit_order i sd price quantity b = Some (Inr ts, b')"
    and "tsum ts < val quantity"
  shows "map order_id (spec_queue sd k (snd (spec_add i sd price quantity A))) =
    map order_id (spec_queue sd k A) @ (if k = price then [i] else [])"
proof -
  note inv = represents_inv [OF assms(1)] and acc = add_accepted [OF assms(1,2)]
  obtain A1 rem where m: "spec_match i sd price quantity A = (ts, rem, A1)" "spec_inv A1" "0 \<le> rem"
    "val quantity = tsum ts + val rem"
    "rem \<noteq> 0 \<Longrightarrow> snd (spec_add i sd price quantity A) = spec_rest i sd price rem A1"
    using spec_add_orders [OF inv acc(1)] by metis
  have rem: "0 < rem" using m(3,4) assms(3) by (auto simp: int64_order_defs)
  then have "snd (spec_add i sd price quantity A) = spec_rest i sd price rem A1" using m(5) by auto
  then show ?thesis
    using spec_queue_enqueue [OF m(2) rem] spec_match_own_side [OF m(1)] by simp
qed

text \<open>
  C17: time priority of arrivals.  What is left of an accepted order comes to rest behind every
  order already waiting at its price and side; no other price of that side changes.
\<close>

theorem remainder_rests_last:
  assumes "represents b A" and "add_limit_order i sd price quantity b = Some (Inr ts, b')"
    and "tsum ts < val quantity"
  shows "\<exists>ids. orders_at sd price b = Some ids \<and> orders_at sd price b' = Some (ids @ [i]) \<and>
    (\<forall>k. k \<noteq> price \<longrightarrow> orders_at sd k b' = orders_at sd k b)"
  using orders_at_refines [OF assms(1)] orders_at_refines [OF add_accepted(2) [OF assms(1,2)]]
  by (simp add: remainder_queue [OF assms])

theorem remainder_rests_last_witness:
  "\<exists>b ts b'. represents b (spec_after sample) \<and> add_limit_order 9 Buy 100 3 b = Some (Inr ts, b') \<and>
     orders_at Buy 100 b' = Some [1, 2, 9] \<and> orders_at Buy 99 b' = Some [3]"
proof -
  obtain b where b: "represents b (spec_after sample)" using book_after_spec [of sample] by blast
  have add: "fst (spec_add 9 Buy 100 3 (spec_after sample)) = Inr []" by code_simp
  from add_refines [OF b, of 9 Buy 100 3] obtain b' where
    a: "add_limit_order 9 Buy 100 3 b = Some (Inr [], b')" unfolding add by blast
  have less: "tsum [] < val 3" by (simp add: val_numeral)
  have q: "map order_id (spec_queue Buy 100 (spec_after sample)) = [1, 2]"
    "map order_id (spec_queue Buy 99 (spec_after sample)) = [3]" "(99::int64) \<noteq> 100"
    by code_simp+
  from remainder_rests_last [OF b a less] orders_at_refines [OF b] a b q show ?thesis by auto
qed

text \<open>
  C15: cancelling.  \<open>cancel_order\<close> returns true exactly when the id rests; it removes that order and
  nothing else, keeps the order of the others and the sequence counter, and leaves the book
  untouched when it returns false.
\<close>

theorem cancel_removes:
  assumes "represents b A"
  shows "\<exists>b' A'. cancel_order i b = Some (i \<in> set (spec_ids A), b') \<and> represents b' A' \<and>
    spec_orders A' = filter (\<lambda>r. order_id r \<noteq> i) (spec_orders A) \<and>
    next_sequence b' = next_sequence b \<and> (i \<notin> set (spec_ids A) \<longrightarrow> b' = b)"
proof -
  obtain b' where b': "cancel_order i b = Some (fst (spec_cancel i A), b')"
    "represents b' (snd (spec_cancel i A))"
    using cancel_refines [OF assms] by blast
  moreover have "b' = b" if "i \<notin> set (spec_ids A)"
    using that b'(1) represents_index(2) [OF assms, of i] by (simp add: cancel_order_def)
  moreover have "next_sequence b' = next_sequence b"
    using b'(2) assms by (simp add: represents_def spec_cancel_def)
  ultimately show ?thesis
    using spec_cancel_orders [of i A] by (auto simp: spec_cancel_def)
qed

theorem cancel_removes_witness:
  "\<exists>b b' A'. represents b (spec_after sample) \<and> cancel_order 2 b = Some (True, b') \<and> represents b' A' \<and>
     spec_ids A' = [1, 3, 4, 5]"
proof -
  obtain b where b: "represents b (spec_after sample)" using book_after_spec [of sample] by blast
  obtain b' A' where c: "cancel_order 2 b = Some (True, b')" "represents b' A'"
    "spec_orders A' = filter (\<lambda>r. order_id r \<noteq> 2) (spec_orders (spec_after sample))"
    using cancel_removes [OF b, of 2] by (auto simp: sample_ids)
  have "spec_ids A' = filter (\<lambda>j. j \<noteq> 2) (spec_ids (spec_after sample))"
    unfolding spec_ids_def c(3) by (simp add: filter_map comp_def)
  with b c show ?thesis by (auto simp: sample_ids)
qed

lemma drop_enqueue:
  assumes "om_sorted lt d" and "price_order lt" and "depth_ok lt d"
    and "order_id r \<notin> order_id ` set (orders_of d)"
  shows "drop_order (order_id r) (enqueue lt r d) = d"
proof -
  let ?k = "order_price r"
  obtain us q vs where e: "enqueue lt r d = us @ (?k, q @ [r]) # vs"
    "orders_of d = orders_of us @ q @ orders_of vs" "d = us @ (?k, q) # vs \<or> (d = us @ vs \<and> q = [])"
    using price_order.enqueue_split [OF assms(2,1)] by metis
  have "depth_ok lt us" "depth_ok lt vs" and q: "d = us @ (?k, q) # vs \<Longrightarrow> q \<noteq> []"
    using e(3) assms(3) by (auto simp: depth_ok_append depth_ok_Cons)
  moreover have "order_id r \<notin> order_id ` set (orders_of us)" "order_id r \<notin> order_id ` set (orders_of vs)"
    using assms(4) by (auto simp: e(2))
  moreover have "\<forall>s \<in> set q. order_id s \<noteq> order_id r" using assms(4) by (metis e(2) Un_iff imageI set_append)
  ultimately have drop: "drop_order (order_id r) us = us" "drop_order (order_id r) vs = vs"
    "filter (\<lambda>s. order_id s \<noteq> order_id r) (q @ [r]) = q"
    by (simp_all add: drop_order_other)
  show ?thesis
    using e(3) q by (auto simp: e(1) drop_order_append drop simp del: filter_append)
qed

text \<open>
  C18: a round trip.  An order that crosses nothing, added and then cancelled, leaves the book it
  was added to, apart from the sequence number it used.
\<close>

theorem add_cancel_roundtrip:
  assumes "represents b A" and "0 < quantity" and "i \<notin> set (spec_ids A)"
    and "\<forall>p \<in> fst ` set (opposite sd A). beyond sd price p"
  shows "\<exists>b1 b2. add_limit_order i sd price quantity b = Some (Inr [], b1) \<and>
    cancel_order i b1 = Some (True, b2) \<and>
    represents b2 (A\<lparr>sp_sequence := sp_sequence A + 1\<rparr>)"
proof -
  note inv = represents_inv [OF assms(1)]
  have A: "depth_ok bids_cmp (sp_bids A)" "depth_ok asks_cmp (sp_asks A)"
    "om_sorted bids_cmp (sp_bids A)" "om_sorted asks_cmp (sp_asks A)"
    using inv by (simp_all add: spec_inv_def depth_ok_def)
  have stop: "fill_depth (beyond sd price) i sd quantity sq d = ([], quantity, sq, d)"
    if "\<forall>p \<in> fst ` set d. beyond sd price p" for d sq
    using that by (cases d) auto
  have "spec_match i sd price quantity A = ([], quantity, A)"
    using stop [OF assms(4), of "sp_sequence A"]
    by (cases sd) (simp_all add: spec_match_def beyond_eq opposite_def)
  with assms(2,3) have add: "spec_add i sd price quantity A = (Inr [], spec_rest i sd price quantity A)"
    by (simp add: spec_add_def not_le)
  let ?r = "rest_as i price quantity (sp_sequence A)"
  have ids: "order_id ?r \<notin> order_id ` set (orders_of (sp_bids A))" "order_id ?r \<notin> order_id ` set (orders_of (sp_asks A))"
    using assms(3) by (auto simp: spec_ids_def spec_orders_def)
  have "drop_order i (sp_bids A) = sp_bids A" "drop_order i (sp_asks A) = sp_asks A"
    using drop_order_other [OF A(1) ids(1)] drop_order_other [OF A(2) ids(2)] by simp_all
  moreover have "drop_order i (enqueue bids_cmp ?r (sp_bids A)) = sp_bids A"
    "drop_order i (enqueue asks_cmp ?r (sp_asks A)) = sp_asks A"
    using drop_enqueue [OF A(3) bids_levels.price_order_axioms A(1) ids(1)]
      drop_enqueue [OF A(4) asks_levels.price_order_axioms A(2) ids(2)] by simp_all
  ultimately have undo: "snd (spec_cancel i (spec_rest i sd price quantity A)) = A\<lparr>sp_sequence := sp_sequence A + 1\<rparr>"
    by (cases sd) (simp_all add: spec_cancel_def spec_rest_eq)
  obtain b1 where b1: "add_limit_order i sd price quantity b = Some (Inr [], b1)"
    "represents b1 (spec_rest i sd price quantity A)"
    using add_refines [OF assms(1), of i sd price quantity] by (auto simp: add)
  have room: "room_for sd price A"
    using assms(4) by (cases sd) (auto simp: room_for_def opposite_def beyond_def)
  have "i \<in> set (spec_ids (spec_rest i sd price quantity A))"
    using arg_cong [OF spec_rest_spec(2) [OF inv assms(2,3) room], of set_mset]
    by (simp add: spec_ids_def image_iff)
  then have "fst (spec_cancel i (spec_rest i sd price quantity A))" by (simp add: spec_cancel_def)
  with cancel_refines [OF b1(2), of i] b1(1) show ?thesis by (auto simp: undo)
qed

theorem add_cancel_roundtrip_witness:
  "\<exists>b b1 b2. represents b (spec_after sample) \<and> add_limit_order 9 Buy 101 8 b = Some (Inr [], b1) \<and>
     cancel_order 9 b1 = Some (True, b2) \<and>
     represents b2 ((spec_after sample)\<lparr>sp_sequence := sp_sequence (spec_after sample) + 1\<rparr>)"
proof -
  obtain b where b: "represents b (spec_after sample)" using book_after_spec [of sample] by blast
  have "map fst (opposite Buy (spec_after sample)) = [105, 107]" by code_simp
  then have "fst ` set (opposite Buy (spec_after sample)) = {105, 107}" by (metis list.simps(15) empty_set set_map)
  moreover have "beyond Buy 101 105" "beyond Buy 101 107" by code_simp+
  ultimately have "\<forall>p \<in> fst ` set (opposite Buy (spec_after sample)). beyond Buy 101 p" by auto
  from add_cancel_roundtrip [OF b _ _ this, of 8 9] b show ?thesis
    by (auto simp: sample_ids sample_numerals)
qed

end
