(* ===== verification/Book_Accounting.thy ===== *)
theory Book_Accounting
  imports Book_Properties
begin

section \<open>Totals, counts and memory of the order book\<close>

text \<open>
  What the aggregate observers report (with the bound beyond which the code's signed sum
  overflows), that the index, the pool and the levels agree on the number of orders, that the
  destructor gives every block back, and the demo program of main.cpp, whose printed values are
  computed from the specification.
\<close>

lemma spec_queue_positive:
  assumes "spec_inv A"
  shows "positive (spec_queue sd price A)"
proof (cases "map_of (if sd = Buy then sp_bids A else sp_asks A) price")
  case (Some q)
  then have "(price, q) \<in> set (if sd = Buy then sp_bids A else sp_asks A)" by (rule map_of_SomeD)
  moreover have "depth_ok (if sd = Buy then bids_cmp else asks_cmp) (if sd = Buy then sp_bids A else sp_asks A)"
    using assms by (simp add: spec_inv_def)
  ultimately have "positive q" using depth_ok_queue by blast
  with Some show ?thesis by (simp add: spec_queue_def)
qed (simp add: spec_queue_def)

text \<open>
  C28: totals.  \<open>quantity_at\<close> returns the exact total of a level as long as it is below \<open>2 ^ 63\<close>;
  from there on the unchecked signed addition overflows.
\<close>

theorem quantity_at_total:
  assumes "represents b A"
  shows "if qsum (spec_queue sd price A) < 2 ^ 63
    then \<exists>t. quantity_at sd price b = Some t \<and> val t = qsum (spec_queue sd price A)
    else quantity_at sd price b = None"
proof -
  have "positive (spec_queue sd price A)"
    by (rule spec_queue_positive [OF represents_inv [OF assms]])
  then show ?thesis
    using sum_orders_iff sum_orders_undefined quantity_at_refines [OF assms, of sd price]
    by (auto simp: not_less)
qed

theorem quantity_at_total_witness:
  "\<exists>b t. represents b (spec_after sample) \<and> quantity_at Buy 100 b = Some t \<and> val t = 14"
proof -
  obtain b where b: "represents b (spec_after sample)" using book_after_spec [of sample] by blast
  have "qsum (spec_queue Buy 100 (spec_after sample)) = 14" by code_simp
  with quantity_at_total [OF b, of Buy 100] b show ?thesis by auto
qed

definition huge :: Quantity where
  "huge = Int64 (push_bit 62 1)"

text \<open>
  The totals overflow on valid orders.  Two buy orders of \<open>2 ^ 62\<close> at one price are accepted,
  and then \<open>quantity_at\<close> and \<open>bid_levels\<close> at that price run into a signed overflow.
\<close>

theorem level_total_overflows:
  "\<exists>b. book_after [AddLimit 1 Buy 100 huge, AddLimit 2 Buy 100 huge]
      = Some ([Added (Inr []), Added (Inr [])], b) \<and>
    quantity_at Buy 100 b = None \<and> bid_levels b = None"
proof -
  let ?cs = "[AddLimit 1 Buy 100 huge, AddLimit 2 Buy 100 huge]"
  obtain b where b: "book_after ?cs = Some (fst (spec_run ?cs spec_new), b)"
    "represents b (spec_after ?cs)"
    by (rule book_after_spec)
  have "fst (spec_run ?cs spec_new) = [Added (Inr []), Added (Inr [])]"
    "sum_orders 0 (spec_queue Buy 100 (spec_after ?cs)) = None"
    "depth_sums (sp_bids (spec_after ?cs)) = None"
    by code_simp+
  with b quantity_at_refines [OF b(2), of Buy 100] levels_refine(1) [OF b(2)] show ?thesis by simp
qed

lemma depth_sums_Some:
  "depth_sums d = Some ls \<Longrightarrow> map fst ls = map fst d \<and>
     (\<forall>(p, q) \<in> set ls. \<exists>rs. (p, rs) \<in> set d \<and> sum_orders 0 rs = Some q)"
proof (induction d arbitrary: ls)
  case (Cons pr d)
  obtain p rs where pr: "pr = (p, rs)" by force
  with Cons.prems obtain q ls' where q: "sum_orders 0 rs = Some q" "depth_sums d = Some ls'" "ls = (p, q) # ls'"
    by (auto simp: bind_Some_iff)
  show ?case using Cons.IH [OF q(2)] q(1) unfolding q(3) pr by fastforce
qed simp

lemma snapshot:
  assumes "depth_ok lt d" and "depth_sums d = Some ls"
  shows "sorted_wrt lt (map fst ls)"
    and "\<forall>(p, q) \<in> set ls. 0 < q \<and> (\<exists>rs. (p, rs) \<in> set d \<and> sum_orders 0 rs = Some q)"
proof -
  note ls = depth_sums_Some [OF assms(2)]
  show "sorted_wrt lt (map fst ls)"
    using ls assms(1) by (simp add: depth_ok_def om_sorted_def)
  have "0 < q" if "(p, rs) \<in> set d" "sum_orders 0 rs = Some q" for p q rs
  proof -
    have "rs \<noteq> []" "positive rs" using assms(1) that(1) by (auto simp: depth_ok_def)
    then have "0 < qsum rs" using qsum_nonneg [of "tl rs"] by (cases rs) (auto simp: less_int64_def)
    with sum_orders_Some [OF that(2)] show ?thesis by (simp add: less_int64_def)
  qed
  with ls show "\<forall>(p, q) \<in> set ls. 0 < q \<and> (\<exists>rs. (p, rs) \<in> set d \<and> sum_orders 0 rs = Some q)"
    by blast
qed

text \<open>
  C29: the depth snapshots.  \<open>bid_levels()\<close> lists the prices at which buy orders rest, all of them
  and no others, in strictly descending order, and \<open>ask_levels()\<close> those at which sell orders rest in
  strictly ascending order, each with its positive total, the one \<open>quantity_at\<close> reports.
\<close>

theorem snapshots_sorted:
  assumes "book_after cs = Some (rs, b)" and "bid_levels b = Some bl" and "ask_levels b = Some al"
  shows "sorted_wrt (>) (map fst bl) \<and> sorted_wrt (<) (map fst al) \<and>
    fst ` set bl = {p. \<exists>ids. orders_at Buy p b = Some ids \<and> ids \<noteq> []} \<and>
    fst ` set al = {p. \<exists>ids. orders_at Sell p b = Some ids \<and> ids \<noteq> []} \<and>
    (\<forall>(p, q) \<in> set bl. 0 < q \<and> quantity_at Buy p b = Some q) \<and>
    (\<forall>(p, q) \<in> set al. 0 < q \<and> quantity_at Sell p b = Some q)"
proof -
  let ?A = "spec_after cs"
  have rep: "represents b ?A" by (rule reached [OF assms(1)])
  have ok: "depth_ok bids_cmp (sp_bids ?A)" "depth_ok asks_cmp (sp_asks ?A)"
    using represents_inv [OF rep] by (simp_all add: spec_inv_def)
  note b = snapshot [OF ok(1)] and a = snapshot [OF ok(2)]
  have sums: "depth_sums (sp_bids ?A) = Some bl" "depth_sums (sp_asks ?A) = Some al"
    using assms(2,3) levels_refine [OF rep] by simp_all
  have dist: "distinct (map fst (sp_bids ?A))" "distinct (map fst (sp_asks ?A))"
    using bids_order.sorted_distinct asks_order.sorted_distinct ok [THEN depth_ok_sorted] by blast+
  have q: "(p, rs) \<in> set (sp_bids ?A) \<Longrightarrow> quantity_at Buy p b = sum_orders 0 rs"
    "(p, rs) \<in> set (sp_asks ?A) \<Longrightarrow> quantity_at Sell p b = sum_orders 0 rs" for p rs
    using quantity_at_refines [OF rep] map_of_is_SomeI [OF dist(1)] map_of_is_SomeI [OF dist(2)]
    by (simp_all add: spec_queue_def)
  have cmp: "bids_cmp = (>)" "asks_cmp = (<)" by (simp_all add: bids_cmp_def asks_cmp_def fun_eq_iff)
  have "sorted_wrt (>) (map fst bl)" "sorted_wrt (<) (map fst al)"
    using b(1) [OF sums(1)] a(1) [OF sums(2)] by (simp_all only: cmp)
  moreover have "\<forall>(p, q) \<in> set bl. 0 < q \<and> quantity_at Buy p b = Some q"
    using b(2) [OF sums(1)] q(1) by fastforce
  moreover have "\<forall>(p, q) \<in> set al. 0 < q \<and> quantity_at Sell p b = Some q"
    using a(2) [OF sums(2)] q(2) by fastforce
  moreover have "fst ` set bl = {p. \<exists>ids. orders_at Buy p b = Some ids \<and> ids \<noteq> []}"
    using arg_cong [OF depth_sums_Some [OF sums(1), THEN conjunct1], of set] side_prices [OF rep, of Buy] by simp
  moreover have "fst ` set al = {p. \<exists>ids. orders_at Sell p b = Some ids \<and> ids \<noteq> []}"
    using arg_cong [OF depth_sums_Some [OF sums(2), THEN conjunct1], of set] side_prices [OF rep, of Sell] by simp
  ultimately show ?thesis by blast
qed

theorem snapshots_sorted_witness:
  "\<exists>rs b bl al. book_after sample = Some (rs, b) \<and> bid_levels b = Some bl \<and> ask_levels b = Some al \<and>
     bl = [(100, 14), (99, 7)] \<and> al = [(105, 5), (107, 6)] \<and> quantity_at Buy 99 b = Some 7"
proof -
  obtain b where b: "book_after sample = Some (fst (spec_run sample spec_new), b)"
    "represents b (spec_after sample)" by (rule book_after_spec)
  have "depth_sums (sp_bids (spec_after sample)) = Some [(100, 14), (99, 7)]"
    "depth_sums (sp_asks (spec_after sample)) = Some [(105, 5), (107, 6)]"
    by code_simp+
  then have l: "bid_levels b = Some [(100, 14), (99, 7)]" "ask_levels b = Some [(105, 5), (107, 6)]"
    using levels_refine [OF b(2)] by simp_all
  with snapshots_sorted [OF b(1) l] b(1) show ?thesis by auto
qed

text \<open>
  C30: the counts agree.  After any commands \<open>order_count()\<close> is the number of resting orders, and
  the pool has handed out exactly that many nodes: no node leaks, none is lost.
\<close>

theorem counts_agree:
  "\<exists>rs b. book_after cs = Some (rs, b) \<and>
     order_count b = of_nat (length (spec_orders (spec_after cs))) \<and>
     in_use (node_pool b) = order_count b"
  using in_use_order_count book_after_spec [of cs] by metis

text \<open>
  C31: destruction.  After any commands the destructor of \<open>OrderBook\<close> ends normally, every node has
  gone back to the pool, and the pool's own destructor then leaves no block behind.
\<close>

theorem destructor_releases_all:
  "\<exists>rs b p. book_after cs = Some (rs, b) \<and> book_destroy b = Some p \<and> in_use p = 0 \<and>
     slab_destroy p = Map.empty"
proof -
  obtain b where b: "book_after cs = Some (fst (spec_run cs spec_new), b)" "represents b (spec_after cs)"
    by (rule book_after_spec)
  obtain p where p: "book_destroy b = Some p" "pool_owns p {}"
    using book_destroy_refines [OF b(2)] by blast
  with b(1) slab_owns_counts(2) [OF p(2)] slab_destroy_empty [OF p(2)] show ?thesis by auto
qed

end
