(* ===== verification/Book_Exhaustion.thy ===== *)
theory Book_Exhaustion
  imports Book_Properties
begin

section \<open>An order book whose memory runs out\<close>

text \<open>
  Order_Book takes every allocation to succeed.  Here one of them does not: \<open>add_limit_order\<close> has
  no handler, so \<open>std::bad_alloc\<close> leaves it from where it was thrown and what has happened up to
  that point stays.  A \<open>fault\<close> names the allocation that fails if the call comes to it; every other
  one succeeds.

  \<^item> \<open>TradeVector k\<close>: \<open>trades.push_back\<close> of the trade with index \<open>k\<close> has to grow the vector.  The
    argument is built first, so \<open>next_sequence_++\<close> has happened.  Any \<open>k\<close> is allowed: which of the
    calls find the vector full depends on how the library lets it grow.
  \<^item> \<open>LevelNode\<close>: \<open>operator[]\<close> has to create a node of the map for a price that has no level.
  \<^item> \<open>PoolChunk\<close>: the free list of the pool is empty and \<open>add_chunk\<close> throws before it changes
    the pool, from \<open>operator new\<close> or from \<open>chunks_.push_back\<close> (which leaks the new chunk).
  \<^item> \<open>IndexNode\<close>: \<open>locations_.emplace\<close> throws, which leaves the index as it was.

  The lemmas compare the interrupted matching loops with those of an order of a smaller quantity;
  the properties are in Exhaustion_Properties.
\<close>

datatype fault = TradeVector nat | LevelNode | PoolChunk | IndexNode

datatype thrown = Rejected exn | BadAlloc

subsection \<open>Matching\<close>

text \<open>The first component tells whether the exception was thrown.\<close>

definition match_head_full ::
  "fault \<Rightarrow> OrderId \<Rightarrow> side \<Rightarrow> Price \<Rightarrow> match_state \<Rightarrow> PriceLevel \<Rightarrow> (bool \<times> match_state \<times> PriceLevel) option" where
  "match_head_full f i sd level_price st level =
     (if f = TradeVector (length (m_trades st))
      then do {
        h \<leftarrow> pl_head level;
        n \<leftarrow> load h (m_pool st);
        Some (True, st\<lparr>m_sequence := m_sequence st + 1\<rparr>, level)
      }
      else do {
        (st1, level1) \<leftarrow> match_head i sd level_price st level;
        Some (False, st1, level1)
      })"

partial_function (option) match_level_full ::
  "fault \<Rightarrow> OrderId \<Rightarrow> side \<Rightarrow> Price \<Rightarrow> match_state \<Rightarrow> PriceLevel \<Rightarrow> (bool \<times> match_state \<times> PriceLevel) option" where
  "match_level_full f i sd level_price st level =
     (if m_remaining st > 0 \<and> pl_head level \<noteq> None
      then do {
        (threw, st1, level1) \<leftarrow> match_head_full f i sd level_price st level;
        if threw then Some (True, st1, level1)
        else match_level_full f i sd level_price st1 level1
      }
      else Some (False, st, level))"

partial_function (option) match_levels_full ::
  "fault \<Rightarrow> (Price \<Rightarrow> bool) \<Rightarrow> OrderId \<Rightarrow> side \<Rightarrow> match_state \<Rightarrow> (Price, PriceLevel) omap \<Rightarrow>
   (bool \<times> match_state \<times> (Price, PriceLevel) omap) option" where
  "match_levels_full f stop i sd st levels =
     (if m_remaining st > 0
      then (case levels of
          [] \<Rightarrow> Some (False, st, levels)
        | (level_price, level) # others \<Rightarrow>
            if stop level_price then Some (False, st, levels)
            else do {
              (threw, st1, level1) \<leftarrow> match_level_full f i sd level_price st level;
              if threw then Some (True, st1, (level_price, level1) # others)
              else match_levels_full f stop i sd st1
                (if pl_head level1 = None then others else (level_price, level1) # others)
            })
      else Some (False, st, levels))"

definition match_full ::
  "fault \<Rightarrow> OrderId \<Rightarrow> side \<Rightarrow> Price \<Rightarrow> match_state \<Rightarrow> order_book \<Rightarrow> (bool \<times> match_state \<times> order_book) option" where
  "match_full f i sd price st b =
     (if sd = Buy
      then do {
        (threw, st1, levels) \<leftarrow> match_levels_full f (\<lambda>level_price. level_price > price) i sd st (asks b);
        Some (threw, st1, b\<lparr>asks := levels\<rparr>)
      }
      else do {
        (threw, st1, levels) \<leftarrow> match_levels_full f (\<lambda>level_price. level_price < price) i sd st (bids b);
        Some (threw, st1, b\<lparr>bids := levels\<rparr>)
      })"

subsection \<open>Resting the remainder, and the whole call\<close>

definition level_for :: "(Price \<Rightarrow> Price \<Rightarrow> bool) \<Rightarrow> Price \<Rightarrow> (Price, PriceLevel) omap \<Rightarrow> PriceLevel" where
  "level_for lt price levels = (case om_find lt price levels of None \<Rightarrow> empty_level | Some l \<Rightarrow> l)"

text \<open>One side of the book: the node, if it came to be, with the levels and the pool.\<close>

definition rest_levels_full ::
  "fault \<Rightarrow> (Price \<Rightarrow> Price \<Rightarrow> bool) \<Rightarrow> RestingOrder \<Rightarrow> (Price, PriceLevel) omap \<Rightarrow> pool \<Rightarrow>
   (addr option \<times> (Price, PriceLevel) omap \<times> pool) option" where
  "rest_levels_full f lt order levels p =
     (let price = order_price order; level = level_for lt price levels in
      if f = LevelNode \<and> om_find lt price levels = None then Some (None, levels, p)
      else if f = PoolChunk \<and> free_list p = None then Some (None, om_put lt price level levels, p)
      else do {
        (node, level1, p1) \<leftarrow> push_back level order p;
        Some (Some node, om_put lt price level1 levels, p1)
      })"

definition rest_order_full ::
  "fault \<Rightarrow> OrderId \<Rightarrow> side \<Rightarrow> Price \<Rightarrow> Quantity \<Rightarrow> order_book \<Rightarrow> (bool \<times> order_book) option" where
  "rest_order_full f i sd price remaining b = do {
     let seq = next_sequence b;
     let b1 = b\<lparr>next_sequence := seq + 1\<rparr>;
     let order = \<lparr>order_id = i, order_price = price, order_quantity = remaining, order_sequence = seq\<rparr>;
     (node, b2) \<leftarrow> (if sd = Buy
       then do {
         (node, levels, p) \<leftarrow> rest_levels_full f bids_cmp order (bids b1) (node_pool b1);
         Some (node, b1\<lparr>bids := levels, node_pool := p\<rparr>)
       }
       else do {
         (node, levels, p) \<leftarrow> rest_levels_full f asks_cmp order (asks b1) (node_pool b1);
         Some (node, b1\<lparr>asks := levels, node_pool := p\<rparr>)
       });
     Some (case node of
         None \<Rightarrow> (True, b2)
       | Some a \<Rightarrow> if f = IndexNode then (True, b2)
           else (False, b2\<lparr>locations :=
             emplace i \<lparr>loc_side = sd, loc_price = price, loc_node = a\<rparr> (locations b2)\<rparr>))
   }"

definition add_limit_order_full ::
  "fault \<Rightarrow> OrderId \<Rightarrow> side \<Rightarrow> Price \<Rightarrow> Quantity \<Rightarrow> order_book \<Rightarrow> ((thrown + Trade list) \<times> order_book) option" where
  "add_limit_order_full f i sd price quantity b =
     (if quantity \<le> 0 then Some (Inl (Rejected quantity_error), b)
      else if map_of (locations b) i \<noteq> None then Some (Inl (Rejected duplicate_error), b)
      else do {
        (threw, st, b1) \<leftarrow> match_full f i sd price (start_match quantity b) b;
        let b2 = settle st b1;
        if threw then Some (Inl BadAlloc, b2)
        else if m_remaining st > 0
        then do {
          (threw, b3) \<leftarrow> rest_order_full f i sd price (m_remaining st) b2;
          Some (if threw then Inl BadAlloc else Inr (m_trades st), b3)
        }
        else Some (Inr (m_trades st), b2)
      })"

subsection \<open>Induction along a loop that returns\<close>

lemma match_level_induct [consumes 1, case_names stop round]:
  assumes "match_level i sd price st level = Some y"
    and "\<And>st level. \<not> (0 < m_remaining st \<and> pl_head level \<noteq> None) \<Longrightarrow> P st level (st, level)"
    and "\<And>st level st1 level1 y. 0 < m_remaining st \<Longrightarrow> pl_head level \<noteq> None \<Longrightarrow>
      match_head i sd price st level = Some (st1, level1) \<Longrightarrow> match_level i sd price st1 level1 = Some y \<Longrightarrow>
      P st1 level1 y \<Longrightarrow> P st level y"
  shows "P st level y"
proof -
  have "match_level i' sd' price' st level = Some y \<Longrightarrow> i' = i \<Longrightarrow> sd' = sd \<Longrightarrow> price' = price \<Longrightarrow>
      match_level i sd price st level = Some y \<and> P st level y" for i' sd' price' st level y
  proof (induction rule: match_level.raw_induct [rotated, consumes 1, case_names body])
    case (body rec i' sd' price' st level y)
    show ?case
    proof (cases "0 < m_remaining st \<and> pl_head level \<noteq> None")
      case True
      with body(2-5) obtain st1 level1 where h: "match_head i sd price st level = Some (st1, level1)"
        "rec i sd price st1 level1 = Some y"
        by (auto simp: bind_Some_iff)
      note ih = body(1) [OF h(2) refl refl refl]
      have "match_level i sd price st level = Some y" by (subst match_level.simps) (use True h ih in simp)
      with assms(3) [OF _ _ h(1)] True ih show ?thesis by blast
    next
      case False
      then have "y = (st, level)" using body(2) by (simp split: if_splits)
      with assms(2) [OF False] False show ?thesis by (subst match_level.simps) auto
    qed
  qed
  with assms(1) show ?thesis by blast
qed

lemma match_levels_induct [consumes 1, case_names stop pass]:
  assumes "match_levels stop i sd st levels = Some y"
    and "\<And>st levels. \<not> (0 < m_remaining st \<and> levels \<noteq> [] \<and> \<not> stop (fst (hd levels))) \<Longrightarrow> P st levels (st, levels)"
    and "\<And>st p level others st1 level1 ls y. 0 < m_remaining st \<Longrightarrow> \<not> stop p \<Longrightarrow>
      match_level i sd p st level = Some (st1, level1) \<Longrightarrow>
      ls = (if pl_head level1 = None then others else (p, level1) # others) \<Longrightarrow>
      match_levels stop i sd st1 ls = Some y \<Longrightarrow> P st1 ls y \<Longrightarrow> P st ((p, level) # others) y"
  shows "P st levels y"
proof -
  have "match_levels stop' i' sd' st levels = Some y \<Longrightarrow> stop' = stop \<Longrightarrow> i' = i \<Longrightarrow> sd' = sd \<Longrightarrow>
      match_levels stop i sd st levels = Some y \<and> P st levels y" for stop' i' sd' st levels y
  proof (induction rule: match_levels.raw_induct [rotated, consumes 1, case_names body])
    case (body rec stop' i' sd' st levels y)
    show ?case
    proof (cases "0 < m_remaining st \<and> levels \<noteq> [] \<and> \<not> stop (fst (hd levels))")
      case True
      then obtain p level others where l: "levels = (p, level) # others" by (cases levels) auto
      with True body(2-5) obtain st1 level1 ls where m: "match_level i sd p st level = Some (st1, level1)"
        "ls = (if pl_head level1 = None then others else (p, level1) # others)" "rec stop i sd st1 ls = Some y"
        by (auto simp: bind_Some_iff)
      note ih = body(1) [OF m(3) refl refl refl]
      have "match_levels stop i sd st levels = Some y"
        by (subst match_levels.simps) (use True m ih in \<open>simp add: l\<close>)
      with assms(3) [OF _ _ m(1,2)] True ih show ?thesis by (simp add: l)
    next
      case False
      then have "y = (st, levels)" using body(2,3) by (auto split: if_splits list.splits)
      with assms(2) [OF False] False show ?thesis by (subst match_levels.simps) (auto split: list.splits)
    qed
  qed
  with assms(1) show ?thesis by blast
qed

subsection \<open>The loops append trades and account for the quantity\<close>

text \<open>What one round does to the remaining quantity and the trades.\<close>

lemma match_head_effect:
  assumes "match_head i sd price st level = Some (st', level')"
  shows "\<exists>t. m_trades st' = m_trades st @ [t] \<and> m_remaining st' = m_remaining st - trade_quantity t"
  using assms by (auto simp: match_head_def Let_def bind_Some_iff checked_sub_def split: if_splits)

definition trades_sum :: "Trade list \<Rightarrow> Quantity" where
  "trades_sum ts = (\<Sum>t\<leftarrow>ts. trade_quantity t)"

lemma trades_sum_simps [simp]:
  "trades_sum [] = 0" "trades_sum (t # ts) = trade_quantity t + trades_sum ts"
  "trades_sum (ts @ ts') = trades_sum ts + trades_sum ts'"
  by (simp_all add: trades_sum_def)

definition accounts :: "match_state \<Rightarrow> match_state \<Rightarrow> bool" where
  "accounts st st' \<longleftrightarrow> (\<exists>ts. m_trades st' = m_trades st @ ts \<and> m_remaining st' + trades_sum ts = m_remaining st)"

lemma accounts_refl [simp]: "accounts st st"
  by (simp add: accounts_def)

lemma accounts_trans: "accounts st st1 \<Longrightarrow> accounts st1 st2 \<Longrightarrow> accounts st st2"
  unfolding accounts_def by (auto simp: algebra_simps)

lemma match_head_accounts: "match_head i sd price st level = Some (st', level') \<Longrightarrow> accounts st st'"
  by (drule match_head_effect) (auto simp: accounts_def)

lemma match_level_accounts: "match_level i sd price st level = Some y \<Longrightarrow> accounts st (fst y)"
  by (induction rule: match_level_induct) (auto dest!: match_head_accounts intro: accounts_trans)

lemma match_levels_accounts: "match_levels stop i sd st levels = Some y \<Longrightarrow> accounts st (fst y)"
  by (induction rule: match_levels_induct) (auto dest!: match_level_accounts intro: accounts_trans)

text \<open>Trades so far that are all positive, as the representation invariant makes them.\<close>

definition gains :: "match_state \<Rightarrow> bool" where
  "gains st \<longleftrightarrow> (\<forall>t \<in> set (m_trades st). 0 < trade_quantity t)"

lemma accounts_gains: "accounts st st' \<Longrightarrow> gains st' \<Longrightarrow> gains st"
  by (auto simp: accounts_def gains_def)

lemmas level_gains = accounts_gains [OF match_level_accounts]
  and levels_gains = accounts_gains [OF match_levels_accounts]

subsection \<open>A smaller order takes the same way\<close>

text \<open>
  If a round leaves at least \<open>d\<close>, the round of an order smaller by \<open>d\<close> does the same and leaves \<open>d\<close>
  less: it fills the resting order in both cases.
\<close>

definition less_by :: "Quantity \<Rightarrow> match_state \<Rightarrow> match_state" where
  "less_by d st = st\<lparr>m_remaining := m_remaining st - d\<rparr>"

lemma less_by_simps [simp]:
  "m_remaining (less_by d st) = m_remaining st - d" "m_trades (less_by d st) = m_trades st"
  "m_sequence (less_by d st) = m_sequence st" "m_locations (less_by d st) = m_locations st"
  "m_pool (less_by d st) = m_pool st"
  by (simp_all add: less_by_def)

lemma int64_less_diff:
  assumes "0 < (d::int64)" and "d \<le> r - q" and "0 < q" and "q \<le> r"
  shows "0 < r - d" and "q \<le> r - d" and "d \<le> r"
  using assms checked_sub_le(2) [of q r] checked_sub_le(2) [of d r] by (auto simp: int64_order_defs)

lemma match_head_less:
  assumes head: "match_head i sd price st level = Some (st', level')" and rem: "0 < m_remaining st"
    and pos: "gains st'" and d: "0 < d" "d \<le> m_remaining st'"
  shows "match_head i sd price (less_by d st) level = Some (less_by d st', level')"
    and "0 < m_remaining (less_by d st)" and "d \<le> m_remaining st"
proof -
  let ?r = "m_remaining st"
  obtain h n where n: "pl_head level = Some h" "load h (m_pool st) = Some n"
    using head by (auto simp: match_head_def bind_Some_iff)
  let ?q = "order_quantity (node_order n)"
  have st': "m_remaining st' = ?r - min ?r ?q" "\<exists>t. t \<in> set (m_trades st') \<and> trade_quantity t = min ?r ?q"
    using head n by (auto simp: match_head_def Let_def bind_Some_iff checked_sub_def split: if_splits)
  then have q: "0 < min ?r ?q" "0 < ?r - min ?r ?q" using pos d unfolding gains_def by fastforce+
  then have "min ?r ?q \<noteq> ?r" by auto
  then have min: "min ?r ?q = ?q" "?q < ?r" "0 < ?q" using q(1) by (auto simp: min_def split: if_splits)
  note diff = int64_less_diff [OF d(1), of ?r ?q]
  have less: "0 < ?r - d" "?q \<le> ?r - d" "d \<le> ?r" using diff d(2) st'(1) min by auto
  then have "min (?r - d) ?q = ?q" by (simp add: min_def)
  moreover have "checked_sub (?r - d) ?q = Some (?r - d - ?q)" "checked_sub ?r ?q = Some (?r - ?q)"
    "checked_sub ?q ?q = Some 0"
    using checked_sub_le(1) [of ?q ?q] checked_sub_le(1) min less by auto
  ultimately show "match_head i sd price (less_by d st) level = Some (less_by d st', level')"
    using head n min(1)
    by (auto simp: match_head_def Let_def bind_Some_iff less_by_def diff_right_commute split: if_splits)
  show "0 < m_remaining (less_by d st)" "d \<le> ?r" using less by simp_all
qed

text \<open>The same for a level, and for the levels in order, when none of them is empty.\<close>

lemma match_level_less:
  assumes "match_level i sd price st level = Some y" and "gains (fst y)"
    and "0 < d" and "d \<le> m_remaining (fst y)"
  shows "match_level i sd price (less_by d st) level = Some (less_by d (fst y), snd y) \<and>
    d \<le> m_remaining st \<and> (pl_head level \<noteq> None \<longrightarrow> 0 < m_remaining (less_by d st))"
  using assms
proof (induction rule: match_level_induct)
  case (stop st level)
  then show ?case by (subst match_level.simps) auto
next
  case (round st level st1 level1 y)
  note ih = round(5) [OF round(6-8)]
  note step = match_head_less [OF round(3,1) level_gains [OF round(4,6)] round(7) conjunct1 [OF conjunct2 [OF ih]]]
  have "match_level i sd price (less_by d st) level = match_level i sd price (less_by d st1) level1"
    by (subst match_level.simps) (use step(1,2) round(2) in simp)
  with ih step(2,3) show ?case by simp
qed

definition no_empty :: "(Price, PriceLevel) omap \<Rightarrow> bool" where
  "no_empty levels \<longleftrightarrow> (\<forall>(p, level) \<in> set levels. pl_head level \<noteq> None)"

lemma no_empty_simps [simp]:
  "no_empty []" "no_empty ((p, level) # levels) \<longleftrightarrow> pl_head level \<noteq> None \<and> no_empty levels"
  by (auto simp: no_empty_def)

lemma match_levels_less:
  assumes "match_levels stop i sd st levels = Some y" and "gains (fst y)"
    and "0 < d" and "d \<le> m_remaining (fst y)" and "no_empty levels"
  shows "match_levels stop i sd (less_by d st) levels = Some (less_by d (fst y), snd y) \<and> d \<le> m_remaining st"
  using assms
proof (induction rule: match_levels_induct)
  case (stop st levels)
  then show ?case by (subst match_levels.simps) (auto split: list.splits)
next
  case (pass st p level others st1 level1 ls y)
  have full: "pl_head level \<noteq> None" "no_empty ls" using pass(10) by (auto simp: pass(4))
  note ih = pass(6) [OF pass(7-9) full(2)]
  have step: "match_level i sd p (less_by d st) level = Some (less_by d st1, level1)" "d \<le> m_remaining st"
    "0 < m_remaining (less_by d st)"
    using match_level_less [OF pass(3), of d] levels_gains [OF pass(5,7)] pass(8) ih full(1) by auto
  have "match_levels stop i sd (less_by d st) ((p, level) # others) = match_levels stop i sd (less_by d st1) ls"
    by (subst match_levels.simps) (use step pass(2,4) in simp)
  with ih step(2) show ?case by simp
qed

subsection \<open>The interrupted loops\<close>

text \<open>Without a trade whose entry in the vector fails, the loops are the ones of Order_Book.\<close>

definition before_fault :: "fault \<Rightarrow> Trade list \<Rightarrow> bool" where
  "before_fault f ts \<longleftrightarrow> (\<forall>k. f = TradeVector k \<longrightarrow> length ts \<le> k)"

lemma before_fault_accounts: "before_fault f (m_trades st') \<Longrightarrow> accounts st st' \<Longrightarrow> before_fault f (m_trades st)"
  by (auto simp: before_fault_def accounts_def)

lemma match_head_no_fault:
  assumes "match_head i sd price st level = Some (st', level')" and "before_fault f (m_trades st')"
  shows "match_head_full f i sd price st level = Some (False, st', level')"
proof -
  have "f \<noteq> TradeVector (length (m_trades st))"
    using match_head_effect [OF assms(1)] assms(2) by (auto simp: before_fault_def)
  with assms(1) show ?thesis by (simp add: match_head_full_def)
qed

lemma match_level_no_fault:
  assumes "match_level i sd price st level = Some y" and "before_fault f (m_trades (fst y))"
  shows "match_level_full f i sd price st level = Some (False, y)"
  using assms
proof (induction rule: match_level_induct)
  case (stop st level)
  then show ?case by (subst match_level_full.simps) auto
next
  case (round st level st1 level1 y)
  note head = match_head_no_fault [OF round(3) before_fault_accounts [OF round(6) match_level_accounts [OF round(4)]]]
  show ?case by (subst match_level_full.simps) (use head round in simp)
qed

lemma match_levels_no_fault:
  assumes "match_levels stop i sd st levels = Some y" and "before_fault f (m_trades (fst y))"
  shows "match_levels_full f stop i sd st levels = Some (False, y)"
  using assms
proof (induction rule: match_levels_induct)
  case (stop st levels)
  then show ?case by (subst match_levels_full.simps) (auto split: list.splits)
next
  case (pass st p level others st1 level1 ls y)
  have "before_fault f (m_trades (fst (st1, level1)))"
    using before_fault_accounts [OF pass(7) match_levels_accounts [OF pass(5)]] by simp
  note level = match_level_no_fault [OF pass(3) this]
  show ?case by (subst match_levels_full.simps) (use level pass in simp)
qed

text \<open>
  The loops of an order whose trade \<open>k\<close> fails stop where those of a smaller order do, the one that
  is worth the first \<open>k\<close> trades, with one more sequence number spent.
\<close>

definition spent :: "match_state \<Rightarrow> match_state" where
  "spent st = st\<lparr>m_sequence := m_sequence st + 1\<rparr>"

definition interrupted :: "nat \<Rightarrow> Trade list \<Rightarrow> match_state \<Rightarrow> match_state \<Rightarrow> bool" where
  "interrupted k ts st st' \<longleftrightarrow> m_trades st' = take k ts \<and> 0 < m_remaining st' \<and> m_remaining st' \<le> m_remaining st"

lemma match_level_fault:
  assumes "match_level i sd price st level = Some y" and "gains (fst y)"
    and "length (m_trades st) \<le> k" and "k < length (m_trades (fst y))"
  shows "\<exists>st' level'. interrupted k (m_trades (fst y)) st st' \<and> pl_head level' \<noteq> None \<and>
    match_level_full (TradeVector k) i sd price st level = Some (True, spent st', level') \<and>
    match_level i sd price (less_by (m_remaining st') st) level = Some (less_by (m_remaining st') st', level')"
  using assms
proof (induction rule: match_level_induct)
  case (round st level st1 level1 y)
  obtain h n where n: "pl_head level = Some h" "load h (m_pool st) = Some n"
    using round(3) by (auto simp: match_head_def bind_Some_iff)
  obtain ts where ts: "m_trades (fst y) = m_trades st @ ts"
    using accounts_trans [OF match_head_accounts [OF round(3)] match_level_accounts [OF round(4)]]
    by (auto simp: accounts_def)
  show ?case
  proof (cases "length (m_trades st) = k")
    case True
    have "match_level_full (TradeVector k) i sd price st level = Some (True, spent st, level)"
      by (subst match_level_full.simps) (use True n round(1) in \<open>simp add: match_head_full_def spent_def\<close>)
    moreover have "match_level i sd price (less_by (m_remaining st) st) level = Some (less_by (m_remaining st) st, level)"
      by (subst match_level.simps) simp
    ultimately show ?thesis using True ts round(1,2)
      by (intro exI [of _ st] exI [of _ level]) (simp add: interrupted_def)
  next
    case False
    have len: "length (m_trades st1) \<le> k" using match_head_effect [OF round(3)] round(7) False by auto
    from round(5) [OF round(6) len round(8)] obtain st' level' where ih:
      "interrupted k (m_trades (fst y)) st1 st'" "pl_head level' \<noteq> None"
      "match_level_full (TradeVector k) i sd price st1 level1 = Some (True, spent st', level')"
      "match_level i sd price (less_by (m_remaining st') st1) level1 = Some (less_by (m_remaining st') st', level')"
      by blast
    have d: "0 < m_remaining st'" "m_remaining st' \<le> m_remaining st1" using ih(1) by (simp_all add: interrupted_def)
    note step = match_head_less [OF round(3,1) level_gains [OF round(4,6)] d]
    have "match_level_full (TradeVector k) i sd price st level = match_level_full (TradeVector k) i sd price st1 level1"
      by (subst match_level_full.simps) (use round(1-3) False in \<open>simp add: match_head_full_def\<close>)
    moreover have "match_level i sd price (less_by (m_remaining st') st) level =
        match_level i sd price (less_by (m_remaining st') st1) level1"
      by (subst match_level.simps) (use step(1,2) round(2) in simp)
    ultimately show ?thesis using ih step(3)
      by (intro exI [of _ st'] exI [of _ level']) (simp add: interrupted_def)
  qed
qed simp

lemma match_levels_fault_here:
  assumes level: "match_level i sd p st level = Some (st1, level1)" and gains: "gains st1"
    and run: "0 < m_remaining st" "\<not> stop p" and k: "length (m_trades st) \<le> k" "k < length (m_trades st1)"
  shows "\<exists>st' levels'. interrupted k (m_trades st1) st st' \<and>
    match_levels_full (TradeVector k) stop i sd st ((p, level) # others) = Some (True, spent st', levels') \<and>
    match_levels stop i sd (less_by (m_remaining st') st) ((p, level) # others) = Some (less_by (m_remaining st') st', levels')"
proof -
  from match_level_fault [OF level _ k(1)] gains k(2) obtain st' level' where m:
    "interrupted k (m_trades st1) st st'" "pl_head level' \<noteq> None"
    "match_level_full (TradeVector k) i sd p st level = Some (True, spent st', level')"
    "match_level i sd p (less_by (m_remaining st') st) level = Some (less_by (m_remaining st') st', level')"
    by auto
  let ?less = "less_by (m_remaining st')"
  have stop: "match_levels stop i sd (?less st') ((p, level') # others) = Some (?less st', (p, level') # others)"
    by (subst match_levels.simps) simp
  have "match_levels stop i sd (?less st) ((p, level) # others) = Some (?less st', (p, level') # others)"
  proof (cases "0 < m_remaining (?less st)")
    case True
    then show ?thesis by (subst match_levels.simps) (use m(2,4) stop run(2) in auto)
  next
    case False
    then have "match_level i sd p (?less st) level = Some (?less st, level)" by (subst match_level.simps) simp
    moreover have "match_levels stop i sd (?less st) ((p, level) # others) = Some (?less st, (p, level) # others)"
      by (subst match_levels.simps) (use False in simp)
    ultimately show ?thesis using m(4) by simp
  qed
  moreover have "match_levels_full (TradeVector k) stop i sd st ((p, level) # others) =
      Some (True, spent st', (p, level') # others)"
    by (subst match_levels_full.simps) (use m(3) run in simp)
  ultimately show ?thesis using m(1) by blast
qed

lemma match_levels_fault:
  assumes "match_levels stop i sd st levels = Some y" and "gains (fst y)" and "no_empty levels"
    and "length (m_trades st) \<le> k" and "k < length (m_trades (fst y))"
  shows "\<exists>st' levels'. interrupted k (m_trades (fst y)) st st' \<and>
    match_levels_full (TradeVector k) stop i sd st levels = Some (True, spent st', levels') \<and>
    match_levels stop i sd (less_by (m_remaining st') st) levels = Some (less_by (m_remaining st') st', levels')"
  using assms
proof (induction rule: match_levels_induct)
  case (pass st p level others st1 level1 ls y)
  have full: "pl_head level \<noteq> None" "no_empty ls" using pass(8) by (auto simp: pass(4))
  have g1: "gains (fst (st1, level1))" using levels_gains [OF pass(5,7)] by simp
  obtain ts where ts: "m_trades (fst y) = m_trades st1 @ ts"
    using match_levels_accounts [OF pass(5)] by (auto simp: accounts_def)
  show ?case
  proof (cases "k < length (m_trades st1)")
    case True
    then have "take k (m_trades (fst y)) = take k (m_trades st1)" using ts by simp
    moreover have "gains st1" using g1 by simp
    ultimately show ?thesis
      using match_levels_fault_here [where stop = stop and others = others, OF pass(3) _ pass(1,2,9) True]
      by (simp add: interrupted_def)
  next
    case False
    from pass(6) [OF pass(7) full(2) _ pass(10)] False obtain st' levels' where ih:
      "interrupted k (m_trades (fst y)) st1 st'"
      "match_levels_full (TradeVector k) stop i sd st1 ls = Some (True, spent st', levels')"
      "match_levels stop i sd (less_by (m_remaining st') st1) ls = Some (less_by (m_remaining st') st', levels')"
      by auto
    have d: "0 < m_remaining st'" "m_remaining st' \<le> m_remaining st1" using ih(1) by (simp_all add: interrupted_def)
    have step: "match_level i sd p (less_by (m_remaining st') st) level = Some (less_by (m_remaining st') st1, level1)"
      "m_remaining st' \<le> m_remaining st" "0 < m_remaining (less_by (m_remaining st') st)"
      using match_level_less [OF pass(3) g1 d(1)] d(2) full(1) by auto
    have "before_fault (TradeVector k) (m_trades (fst (st1, level1)))" using False by (simp add: before_fault_def)
    note level = match_level_no_fault [OF pass(3) this]
    have "match_levels_full (TradeVector k) stop i sd st ((p, level) # others) =
        match_levels_full (TradeVector k) stop i sd st1 ls"
      by (subst match_levels_full.simps) (use level pass(1,2,4) in simp)
    moreover have "match_levels stop i sd (less_by (m_remaining st') st) ((p, level) # others) =
        match_levels stop i sd (less_by (m_remaining st') st1) ls"
      by (subst match_levels.simps) (use step pass(2,4) in simp)
    ultimately show ?thesis using ih step(2)
      by (intro exI [of _ st'] exI [of _ levels']) (simp add: interrupted_def)
  qed
qed simp

end
