(* ===== verification/Matching_Rounds.thy ===== *)
theory Matching_Rounds
  imports Book_Exhaustion
begin

section \<open>How often the matching loops run\<close>

text \<open>
  The loops of \<open>add_limit_order\<close> once more, with a budget of rounds for each: \<open>match_level_in\<close> is the
  inner loop and \<open>match_levels_in\<close> the outer one.  Going round with no budget left is None; a loop that
  ends returns what it has not used of the inner budget.  The lemmas show the rounds that a loop of
  Order_Book which returns can have taken, and the property bounds those of a call.
\<close>

subsection \<open>The loops with a budget\<close>

fun match_level_in ::
  "OrderId \<Rightarrow> side \<Rightarrow> Price \<Rightarrow> nat \<Rightarrow> match_state \<Rightarrow> PriceLevel \<Rightarrow> (nat \<times> match_state \<times> PriceLevel) option" where
  "match_level_in i sd level_price 0 st level =
     (if m_remaining st > 0 \<and> pl_head level \<noteq> None then None else Some (0, st, level))"
| "match_level_in i sd level_price (Suc k) st level =
     (if m_remaining st > 0 \<and> pl_head level \<noteq> None
      then do {
        (st1, level1) \<leftarrow> match_head i sd level_price st level;
        match_level_in i sd level_price k st1 level1
      }
      else Some (Suc k, st, level))"

text \<open>A round of the outer loop that only breaks is a round.\<close>

fun match_levels_in ::
  "(Price \<Rightarrow> bool) \<Rightarrow> OrderId \<Rightarrow> side \<Rightarrow> nat \<Rightarrow> nat \<Rightarrow> match_state \<Rightarrow> (Price, PriceLevel) omap \<Rightarrow>
   (nat \<times> match_state \<times> (Price, PriceLevel) omap) option" where
  "match_levels_in stop i sd 0 k st levels =
     (if m_remaining st > 0 \<and> levels \<noteq> [] then None else Some (k, st, levels))"
| "match_levels_in stop i sd (Suc n) k st levels =
     (if m_remaining st > 0
      then (case levels of
          [] \<Rightarrow> Some (k, st, levels)
        | (level_price, level) # others \<Rightarrow>
            if stop level_price then Some (k, st, levels)
            else do {
              (k1, st1, level1) \<leftarrow> match_level_in i sd level_price k st level;
              match_levels_in stop i sd n k1 st1
                (if pl_head level1 = None then others else (level_price, level1) # others)
            })
      else Some (k, st, levels))"

lemma match_level_in_stop:
  "\<not> (0 < m_remaining st \<and> pl_head level \<noteq> None) \<Longrightarrow> match_level_in i sd price k st level = Some (k, st, level)"
  by (cases k) auto

lemma match_levels_in_filled: "\<not> 0 < m_remaining st \<Longrightarrow> match_levels_in stop i sd n k st levels = Some (k, st, levels)"
  by (cases n) auto

text \<open>Every round of the inner loop makes a trade, so it takes as many rounds as it makes trades.\<close>

lemma level_rounds:
  assumes "match_level i sd price st level = Some y"
  shows "\<exists>ts. m_trades (fst y) = m_trades st @ ts \<and>
    (\<forall>k. match_level_in i sd price (length ts + k) st level = Some (k, fst y, snd y)) \<and>
    \<not> (0 < m_remaining (fst y) \<and> pl_head (snd y) \<noteq> None)"
  using assms
proof (induction rule: match_level_induct)
  case (stop st level)
  then show ?case by (intro exI [of _ "[]"]) (simp add: match_level_in_stop)
next
  case (round st level st1 level1 y)
  obtain t where t: "m_trades st1 = m_trades st @ [t]" using match_head_effect [OF round(3)] by blast
  obtain ts where ts: "m_trades (fst y) = m_trades st1 @ ts"
    "\<forall>k. match_level_in i sd price (length ts + k) st1 level1 = Some (k, fst y, snd y)"
    "\<not> (0 < m_remaining (fst y) \<and> pl_head (snd y) \<noteq> None)"
    using round(5) by blast
  then show ?case using t round(1-3) by (intro exI [of _ "t # ts"]) simp
qed

text \<open>
  A round of the outer loop removes the best level or is the last one: if it leaves the level, the
  order is filled.
\<close>

lemma levels_rounds:
  assumes "match_levels stop i sd st levels = Some y"
  shows "\<exists>ts. m_trades (fst y) = m_trades st @ ts \<and>
    (\<forall>n k. length levels \<le> n \<longrightarrow>
       match_levels_in stop i sd n (length ts + k) st levels = Some (k, fst y, snd y))"
  using assms
proof (induction rule: match_levels_induct)
  case (stop st levels)
  then have "match_levels_in stop i sd n k st levels = Some (k, st, levels)" if "length levels \<le> n" for n k
    using that by (cases n) (auto split: list.splits)
  then show ?case by (intro exI [of _ "[]"]) simp
next
  case (pass st p level others st1 level1 ls y)
  obtain ts where ts: "m_trades st1 = m_trades st @ ts"
    "\<And>k. match_level_in i sd p (length ts + k) st level = Some (k, st1, level1)"
    "\<not> (0 < m_remaining st1 \<and> pl_head level1 \<noteq> None)"
    using level_rounds [OF pass(3)] by auto
  obtain us where us: "m_trades (fst y) = m_trades st1 @ us"
    "\<And>n k. length ls \<le> n \<Longrightarrow> match_levels_in stop i sd n (length us + k) st1 ls = Some (k, fst y, snd y)"
    using pass(6) by blast
  have last: "us = [] \<and> y = (st1, ls)" if "\<not> 0 < m_remaining st1"
  proof -
    have "y = (st1, ls)" using pass(5) that by (subst (asm) match_levels.simps) simp
    then show ?thesis using us(1) by simp
  qed
  have rest: "match_levels_in stop i sd n (length us + k) st1 ls = Some (k, fst y, snd y)"
    if "length others \<le> n" for n k
    using us(2) [of n k] last match_levels_in_filled [of st1 stop i sd n k ls] that ts(3) pass(4)
    by (cases "0 < m_remaining st1") auto
  have "match_levels_in stop i sd n (length (ts @ us) + k) st ((p, level) # others) = Some (k, fst y, snd y)"
    if n: "length ((p, level) # others) \<le> n" for n k
  proof -
    obtain n' where "n = Suc n'" "length others \<le> n'" using n by (cases n) auto
    then show ?thesis using pass(1,2,4) ts(2) [of "length us + k"] rest [of n' k] by (simp add: add.assoc)
  qed
  then show ?case using ts(1) us(1) by (intro exI [of _ "ts @ us"]) simp
qed

subsection \<open>The resting orders that trade\<close>

lemma greedy_ids: "\<exists>n. map fst (greedy rem rs) = map order_id (take n rs)"
proof (induction rs arbitrary: rem)
  case (Cons r rs)
  show ?case
  proof (cases "rem \<le> 0")
    case True
    then show ?thesis by (intro exI [of _ 0]) simp
  next
    case False
    obtain n where "map fst (greedy (rem - min rem (val (order_quantity r))) rs) = map order_id (take n rs)"
      using Cons.IH by blast
    then show ?thesis using False by (intro exI [of _ "Suc n"]) (simp add: Let_def)
  qed
qed simp

lemma crossing_prefix: "\<exists>ys. orders_of d = crossing stop d @ ys"
proof -
  have "orders_of d = orders_of (takeWhile (\<lambda>(p, q). \<not> stop p) d @ dropWhile (\<lambda>(p, q). \<not> stop p) d)" by simp
  then show ?thesis unfolding crossing_def orders_of_simps(3) by blast
qed

lemma fills_resting:
  assumes "map fill_of ts = greedy q (crossing stop d)"
  obtains n where "map resting_order_id ts = map order_id (take n (orders_of d))"
proof -
  have "map resting_order_id ts = map fst (map fill_of ts)" by (simp add: fill_of_def)
  then obtain n where n: "map resting_order_id ts = map order_id (take n (crossing stop d))"
    using assms greedy_ids by metis
  obtain ys where ys: "orders_of d = crossing stop d @ ys" using crossing_prefix by metis
  show ?thesis
  proof (rule that [of "min n (length (crossing stop d))"])
    show "map resting_order_id ts = map order_id (take (min n (length (crossing stop d))) (orders_of d))"
      using n by (cases "n \<le> length (crossing stop d)") (simp_all add: ys min_def)
  qed
qed

text \<open>An accepted order goes through the outer loop of the other side.\<close>

lemma add_through_levels:
  assumes "represents b A" and "add_limit_order i sd price quantity b = Some (Inr ts, b')"
  obtains st levels where
    "match_levels (beyond sd price) i sd (start_match quantity b) (levels_of (other_side sd) b) = Some (st, levels)"
    and "m_trades st = ts"
proof -
  have "(\<lambda>p. side_cmp (other_side sd) price p) = beyond sd price"
    by (cases sd) (auto simp: beyond_def bids_cmp_def asks_cmp_def fun_eq_iff)
  then show ?thesis
    using assms(2) that
    by (auto simp: add_limit_order_eq match_side_eq bind_Some_iff split: if_splits)
qed

text \<open>
  C25: the matching loops end.  A call of \<open>add_limit_order\<close> with a positive quantity and a new id
  returns.  Its outer loop takes at most one round per price level of the other side (a round that
  only breaks included) and its inner loop, over all of them, one round per trade, which is at most
  one per resting order of the other side: with those budgets the loops come to the state they come
  to without.  The resting ids of the trades are those of a prefix of that side's queue, distinct,
  and none of them is the incoming id.
\<close>

theorem each_order_trades_once:
  assumes "represents b A" and "0 < quantity" and "i \<notin> set (spec_ids A)"
  shows "\<exists>ts b' st levels spare. add_limit_order i sd price quantity b = Some (Inr ts, b') \<and>
    match_levels (beyond sd price) i sd (start_match quantity b) (levels_of (other_side sd) b) = Some (st, levels) \<and>
    match_levels_in (beyond sd price) i sd (length (levels_of (other_side sd) b)) (length (orders_of (opposite sd A)))
      (start_match quantity b) (levels_of (other_side sd) b) = Some (spare, st, levels) \<and>
    m_trades st = ts \<and> length ts + spare = length (orders_of (opposite sd A)) \<and>
    distinct (map resting_order_id ts) \<and>
    (\<exists>n. map resting_order_id ts = map order_id (take n (orders_of (opposite sd A)))) \<and>
    i \<notin> resting_order_id ` set ts"
proof -
  note inv = represents_inv [OF assms(1)]
  let ?os = "orders_of (opposite sd A)"
  obtain ts rem A1 where m: "spec_match i sd price quantity A = (ts, rem, A1)" by (metis prod_cases3)
  have "fst (spec_add i sd price quantity A) = Inr ts" using assms(2,3) m by (simp add: spec_add_def)
  then obtain b' where add: "add_limit_order i sd price quantity b = Some (Inr ts, b')"
    using add_refines [OF assms(1), of i sd price quantity] by auto
  obtain n where n: "map resting_order_id ts = map order_id (take n ?os)"
    using fills_resting [OF spec_match_trades(1) [OF inv less_imp_le [OF assms(2)] m]] .
  have ids: "distinct (map order_id ?os)" "set (map order_id ?os) \<subseteq> set (spec_ids A)"
    using inv by (auto simp: spec_inv_def spec_ids_def spec_orders_def opposite_def)
  have dist: "distinct (map resting_order_id ts)"
    unfolding n take_map [symmetric] using ids(1) by (rule distinct_take)
  have new: "i \<notin> resting_order_id ` set ts"
    using arg_cong [OF n, of set] ids(2) assms(3) by (auto dest!: in_set_takeD)
  have len: "length ts \<le> length ?os" using arg_cong [OF n, of length] by simp
  obtain st levels where loop:
    "match_levels (beyond sd price) i sd (start_match quantity b) (levels_of (other_side sd) b) = Some (st, levels)"
    "m_trades st = ts"
    using add_through_levels [OF assms(1) add] .
  have "match_levels_in (beyond sd price) i sd (length (levels_of (other_side sd) b)) (length ?os)
      (start_match quantity b) (levels_of (other_side sd) b) = Some (length ?os - length ts, st, levels)"
    using levels_rounds [OF loop(1)] loop(2) len by (auto simp: start_match_def dest: le_Suc_ex)
  with add loop n dist new len show ?thesis by fastforce
qed

theorem each_order_trades_once_witness:
  "\<exists>b ts b' st levels spare. represents b (spec_after sample) \<and>
     add_limit_order 9 Sell 99 20 b = Some (Inr ts, b') \<and>
     match_levels_in (beyond Sell 99) 9 Sell (length (bids b)) 3 (start_match 20 b) (bids b) = Some (spare, st, levels) \<and>
     distinct (map resting_order_id ts) \<and> length ts + spare = 3"
proof -
  obtain b where b: "represents b (spec_after sample)" using book_after_spec [of sample] by blast
  have len: "length (orders_of (opposite Sell (spec_after sample))) = 3" by code_simp
  show ?thesis
    using each_order_trades_once [OF b, of 20 9 Sell 99] b
    by (fastforce simp: sample_ids sample_numerals len)
qed

end
