(* ===== verification/Book_Typing.thy ===== *)
theory Book_Typing
  imports Book_Properties
begin

section \<open>The pointers of the order book\<close>

text \<open>
  A typing of the book's state: every pointer it stores, in the index, at the ends of a level and
  inside a node, is null or names a block that holds a live \<open>OrderNode\<close>, and the entries of the
  index describe the orders they point to.  \<open>book_typed\<close> can be evaluated on a state; the property
  shows that it holds after any sequence of calls.
\<close>

definition link_ok :: "pool \<Rightarrow> ptr \<Rightarrow> bool" where
  "link_ok p q = (case q of None \<Rightarrow> True | Some a \<Rightarrow> load a p \<noteq> None)"

definition entry_ok :: "order_book \<Rightarrow> OrderId \<times> OrderLocation \<Rightarrow> bool" where
  "entry_ok b e = (case e of (i, loc) \<Rightarrow>
     (case load (loc_node loc) (node_pool b) of
        None \<Rightarrow> False
      | Some n \<Rightarrow> order_id (node_order n) = i \<and> order_price (node_order n) = loc_price loc \<and>
          order_quantity (node_order n) > 0 \<and>
          link_ok (node_pool b) (node_prev n) \<and> link_ok (node_pool b) (node_next n)) \<and>
     loc_price loc \<in> set (map fst (if loc_side loc = Buy then bids b else asks b)))"

definition level_ok :: "order_book \<Rightarrow> Price \<times> PriceLevel \<Rightarrow> bool" where
  "level_ok b l = (case l of (price, level) \<Rightarrow> pl_head level \<noteq> None \<and> pl_tail level \<noteq> None \<and>
     link_ok (node_pool b) (pl_head level) \<and> link_ok (node_pool b) (pl_tail level))"

definition book_typed :: "order_book \<Rightarrow> bool" where
  "book_typed b \<longleftrightarrow> list_all (entry_ok b) (locations b) \<and> list_all (level_ok b) (bids b @ asks b) \<and>
     distinct (map (loc_node \<circ> snd) (locations b))"

subsection \<open>Lists of nodes\<close>

lemma seg_first: "seg m pv p xs l nx \<Longrightarrow> p = nx \<or> p \<in> Some ` addrs xs"
  by (cases xs) auto

lemma seg_last: "seg m pv p xs l nx \<Longrightarrow> l = pv \<or> l \<in> Some ` addrs xs"
  by (induction xs arbitrary: pv p) fastforce+

lemma seg_node:
  "seg m pv p xs l nx \<Longrightarrow> (a, r) \<in> set xs \<Longrightarrow>
   \<exists>q n. m a = Some (Object \<lparr>node_order = r, node_prev = q, node_next = n\<rparr>) \<and>
     (q = pv \<or> q \<in> Some ` addrs xs) \<and> (n = nx \<or> n \<in> Some ` addrs xs)"
proof (induction xs arbitrary: pv p)
  case (Cons x xs)
  obtain a' r' where x: "x = (a', r')" by force
  with Cons.prems(1) obtain n where n: "m a' = Some (Object \<lparr>node_order = r', node_prev = pv, node_next = n\<rparr>)"
    "seg m (Some a') n xs l nx" by auto
  show ?case
  proof (cases "(a, r) = x")
    case True
    then show ?thesis using n(1) seg_first [OF n(2)] x by auto
  next
    case False
    with Cons.prems(2) Cons.IH [OF n(2)] show ?thesis by (fastforce simp: x)
  qed
qed simp

lemma seg_live: "seg m pv p xs l nx \<Longrightarrow> a \<in> addrs xs \<Longrightarrow> \<exists>v. m a = Some (Object v)"
  using seg_node by fastforce

text \<open>What the representation of one side gives for its levels and its entries.\<close>

lemma level_pointers:
  assumes "level_rep (mem p) level xs" and "xs \<noteq> []"
  shows "pl_head level \<noteq> None" "pl_tail level \<noteq> None" "link_ok p (pl_head level)" "link_ok p (pl_tail level)"
    and "(a, r) \<in> set xs \<Longrightarrow> \<exists>n. load a p = Some n \<and> node_order n = r \<and> link_ok p (node_prev n) \<and> link_ok p (node_next n)"
proof -
  have sg: "seg (mem p) None (pl_head level) xs (pl_tail level) None" using assms(1) by (simp add: level_rep_def)
  have live: "link_ok p q" if "q = None \<or> q \<in> Some ` addrs xs" for q
    using that seg_live [OF sg] unfolding link_ok_def load_def by (fastforce split: option.splits)
  show "pl_head level \<noteq> None" using level_rep_head [OF assms(1)] assms(2) by simp
  obtain ys a' r' where xs: "xs = ys @ [(a', r')]" using assms(2) by (metis prod.exhaust rev_exhaust)
  then show "pl_tail level \<noteq> None" using sg by (auto simp: seg_append)
  show "link_ok p (pl_head level)" "link_ok p (pl_tail level)"
    using live seg_first [OF sg] seg_last [OF sg] by blast+
  show "\<exists>n. load a p = Some n \<and> node_order n = r \<and> link_ok p (node_prev n) \<and> link_ok p (node_next n)"
    if ar: "(a, r) \<in> set xs"
  proof -
    obtain q n where "mem p a = Some (Object \<lparr>node_order = r, node_prev = q, node_next = n\<rparr>)"
      "link_ok p q" "link_ok p n"
      using seg_node [OF sg ar] live by blast
    then show ?thesis by (simp add: load_def)
  qed
qed

lemma om_rel_member:
  "om_rel R levels g \<Longrightarrow> (k, xs) \<in> set g \<Longrightarrow> \<exists>level. (k, level) \<in> set levels \<and> R level xs"
  "om_rel R levels g \<Longrightarrow> (k, level) \<in> set levels \<Longrightarrow> \<exists>xs. (k, xs) \<in> set g \<and> R level xs"
  by (induction levels arbitrary: g; fastforce simp: om_rel_def list_all2_Cons1)+

lemma side_typed:
  assumes side: "side_rep (node_pool b) levels g" and ok: "depth_ok lt (strip g)"
    and levels: "levels = (if s = Buy then bids b else asks b)"
  shows "\<forall>l \<in> set levels. level_ok b l" and "\<forall>e \<in> set (entries s g). entry_ok b e"
proof -
  have queue: "xs \<noteq> [] \<and> (\<forall>(a, r) \<in> set xs. order_price r = k \<and> 0 < order_quantity r)" if "(k, xs) \<in> set g" for k xs
  proof -
    have "(k, map snd xs) \<in> set (strip g)" using that by (force simp: strip_def)
    with ok show ?thesis by (fastforce simp: depth_ok_def)
  qed
  show "\<forall>l \<in> set levels. level_ok b l"
  proof
    fix l assume "l \<in> set levels"
    moreover obtain k level where l: "l = (k, level)" by force
    ultimately obtain xs where "(k, xs) \<in> set g" "level_rep (mem (node_pool b)) level xs"
      using om_rel_member(2) [OF side] by blast
    with level_pointers(1-4) queue show "level_ok b l" by (simp add: level_ok_def l)
  qed
  show "\<forall>e \<in> set (entries s g). entry_ok b e"
  proof
    fix e assume "e \<in> set (entries s g)"
    then obtain k xs a r where k: "(k, xs) \<in> set g" "(a, r) \<in> set xs"
      and e: "e = (order_id r, \<lparr>loc_side = s, loc_price = k, loc_node = a\<rparr>)"
      by (auto simp: entries_def node_entries_def)
    obtain level where level: "(k, level) \<in> set levels" "level_rep (mem (node_pool b)) level xs"
      using om_rel_member(1) [OF side k(1)] by blast
    note q = queue [OF k(1)]
    obtain n where n: "load a (node_pool b) = Some n" "node_order n = r"
      "link_ok (node_pool b) (node_prev n)" "link_ok (node_pool b) (node_next n)"
      using level_pointers(5) [OF level(2) _ k(2)] q by blast
    have "k \<in> set (map fst levels)" using level(1) by (force simp: rev_image_eqI)
    with n q k(2) show "entry_ok b e" by (auto simp: entry_ok_def e levels)
  qed
qed

lemma represents_typed:
  assumes "represents b A"
  shows "book_typed b"
proof -
  obtain gb ga where r: "depth_ok bids_cmp (strip gb)" "depth_ok asks_cmp (strip ga)"
    "side_rep (node_pool b) (bids b) gb" "side_rep (node_pool b) (asks b) ga"
    "store_rep (node_pool b) (locations b) (entries Buy gb @ entries Sell ga)"
    using assms by (rule representsE)
  let ?E = "entries Buy gb @ entries Sell ga" and ?L = "locations b"
  have E: "set ?L = set ?E" "distinct (map fst ?L)" "distinct (map (loc_node \<circ> snd) ?E)"
    using r(5) by (simp_all add: store_rep_def index_ok_def places_def)
  have "distinct ?L" using E(2) by (simp add: distinct_map)
  moreover have "inj_on (loc_node \<circ> snd) (set ?L)" using E(3) unfolding E(1) by (simp only: distinct_map)
  ultimately have "distinct (map (loc_node \<circ> snd) ?L)" by (simp add: distinct_map)
  with side_typed [OF r(3,1), of Buy] side_typed [OF r(4,2), of Sell] E(1) show ?thesis
    by (auto simp: book_typed_def list_all_iff)
qed

text \<open>
  C8: no dangling pointers.  After any sequence of calls every entry of the index points to a live
  node that holds an order with that id, at the recorded price, with a positive quantity and in a
  level of the recorded side; no two entries share a node; the links inside the nodes and the ends
  of the levels are null or point to live nodes, and no level is empty.
\<close>

theorem pointers_are_typed:
  assumes "book_after cs = Some (rs, b)"
  shows "book_typed b"
  by (rule represents_typed [OF reached [OF assms]])

theorem pointers_are_typed_witness:
  "\<exists>rs b. book_after sample = Some (rs, b) \<and> book_typed b \<and> length (locations b) = 5"
proof -
  obtain b where b: "book_after sample = Some (fst (spec_run sample spec_new), b)"
    "represents b (spec_after sample)" by (rule book_after_spec)
  have "length (spec_ids (spec_after sample)) = 5" by (simp add: sample_ids)
  then have "length (locations b) = 5" using represents_index(4) [OF b(2)] by (simp add: spec_ids_def)
  with pointers_are_typed [OF b(1)] b(1) show ?thesis by blast
qed

end
