(* ===== verification/Exhaustion_Properties.thy ===== *)
theory Exhaustion_Properties
  imports Book_Exhaustion
begin

section \<open>What is left of a book when an allocation fails\<close>

text \<open>
  The properties of Book_Exhaustion, on books that represent a specified one.  A failure while the
  order matches, or at the node of a new level, leaves the book of a smaller order, fully filled: it
  can be used on, but the trades are lost with the exception.  A failure of the pool leaves a level
  with no order, one of the index an order that the index does not know.
\<close>

subsection \<open>The matching pass of a whole book\<close>

definition match_book :: "OrderId \<Rightarrow> side \<Rightarrow> Price \<Rightarrow> match_state \<Rightarrow> order_book \<Rightarrow> (match_state \<times> order_book) option" where
  "match_book i sd price st b = (if sd = Buy then match_buy i price st b else match_sell i price st b)"

lemma match_book_eq:
  "match_book i sd price st b =
     do { (st1, ls) \<leftarrow> match_levels (beyond sd price) i sd st (levels_of (other_side sd) b); Some (st1, set_levels (other_side sd) ls b) }"
  by (cases sd) (simp_all add: match_book_def match_buy_def match_sell_def beyond_eq)

lemma match_full_eq:
  "match_full f i sd price st b =
     do { (threw, st1, ls) \<leftarrow> match_levels_full f (beyond sd price) i sd st (levels_of (other_side sd) b);
          Some (threw, st1, set_levels (other_side sd) ls b) }"
  by (cases sd) (simp_all add: match_full_def beyond_eq)

lemma match_bookE:
  assumes "match_book i sd price st b = Some (st', b')"
  obtains ls where "match_levels (beyond sd price) i sd st (levels_of (other_side sd) b) = Some (st', ls)"
    and "b' = set_levels (other_side sd) ls b"
  using assms by (auto simp: match_book_eq bind_Some_iff)

lemma match_book_no_fault:
  assumes "match_book i sd price st b = Some (st', b')" and "before_fault f (m_trades st')"
  shows "match_full f i sd price st b = Some (False, st', b')"
proof -
  obtain ls where m: "match_levels (beyond sd price) i sd st (levels_of (other_side sd) b) = Some (st', ls)"
    "b' = set_levels (other_side sd) ls b" using assms(1) by (rule match_bookE)
  with match_levels_no_fault [OF m(1)] assms(2) show ?thesis by (simp add: match_full_eq)
qed

lemma match_book_less:
  assumes "match_book i sd price st b = Some (st', b')" and "gains st'" and "no_empty (levels_of (other_side sd) b)"
    and "0 < m_remaining st'"
  shows "match_book i sd price (less_by (m_remaining st') st) b = Some (less_by (m_remaining st') st', b')"
proof -
  obtain ls where m: "match_levels (beyond sd price) i sd st (levels_of (other_side sd) b) = Some (st', ls)"
    "b' = set_levels (other_side sd) ls b" using assms(1) by (rule match_bookE)
  with match_levels_less [OF m(1)] assms(2-4) show ?thesis by (simp add: match_book_eq)
qed

lemma match_book_fault:
  assumes "match_book i sd price st b = Some (st', b')" and "gains st'" and "no_empty (levels_of (other_side sd) b)"
    and "m_trades st = []" and "k < length (m_trades st')"
  obtains st1 b1 where "m_trades st1 = take k (m_trades st')"
    and "match_full (TradeVector k) i sd price st b = Some (True, spent st1, b1)"
    and "match_book i sd price (less_by (m_remaining st1) st) b = Some (less_by (m_remaining st1) st1, b1)"
proof -
  obtain ls where "match_levels (beyond sd price) i sd st (levels_of (other_side sd) b) = Some (st', ls)"
    using assms(1) by (rule match_bookE)
  from match_levels_fault [OF this, of k] assms(2-5) obtain st1 ls1 where
    "interrupted k (m_trades st') st st1"
    "match_levels_full (TradeVector k) (beyond sd price) i sd st (levels_of (other_side sd) b) = Some (True, spent st1, ls1)"
    "match_levels (beyond sd price) i sd (less_by (m_remaining st1) st) (levels_of (other_side sd) b) =
      Some (less_by (m_remaining st1) st1, ls1)"
    by auto
  then show ?thesis using that [of st1 "set_levels (other_side sd) ls1 b"]
    by (simp add: interrupted_def match_book_eq match_full_eq)
qed

lemma match_book_nothing:
  assumes "\<not> 0 < m_remaining st"
  shows "match_book i sd price st b = Some (st, b)"
proof -
  have "match_levels stop i sd st ls = Some (st, ls)" for stop ls
    by (subst match_levels.simps) (use assms in simp)
  then show ?thesis by (cases sd) (simp_all add: match_book_eq)
qed

lemma match_book_accounts: "match_book i sd price st b = Some (st', b') \<Longrightarrow> accounts st st'"
  by (auto elim!: match_bookE dest: match_levels_accounts)

subsection \<open>Books that represent a specified one\<close>

lemma side_no_empty:
  assumes "side_rep p levels g" and "depth_ok lt (strip g)"
  shows "no_empty levels"
  using assms
proof (induction g arbitrary: levels)
  case (Cons x g)
  obtain k xs where x: "x = (k, xs)" by force
  with Cons.prems(1) obtain level ls where l: "levels = (k, level) # ls" "level_rep (mem p) level xs" "side_rep p ls g"
    by (auto simp: om_rel_Cons_right)
  with Cons x level_rep_head [OF l(2)] show ?case by (auto simp: depth_ok_Cons)
qed simp

lemma represents_no_empty:
  assumes "represents b A"
  shows "no_empty (bids b)" and "no_empty (asks b)" and "no_empty (levels_of (other_side sd) b)"
  using assms by (cases sd; auto elim!: representsE dest: side_no_empty)+

text \<open>An accepted order: the matching pass, then the remainder.\<close>

lemma accepted_order:
  assumes "represents b A" and "add_limit_order i sd price quantity b = Some (Inr ts, b')"
  obtains st b1 where "match_book i sd price (start_match quantity b) b = Some (st, b1)"
    and "m_trades st = ts" and "gains st" and "0 < quantity" and "map_of (locations b) i = None"
    and "0 < m_remaining st \<Longrightarrow> rest_order i sd price (m_remaining st) (settle st b1) = Some b'"
    and "\<not> 0 < m_remaining st \<Longrightarrow> b' = settle st b1"
proof -
  have acc: "0 < quantity" "map_of (locations b) i = None"
    using add_accepted [OF assms] represents_index(2) [OF assms(1), of i] by simp_all
  have "add_limit_order i sd price quantity b = do {
      (st, b1) \<leftarrow> match_book i sd price (start_match quantity b) b;
      b2 \<leftarrow> (if m_remaining st > 0 then rest_order i sd price (m_remaining st) (settle st b1) else Some (settle st b1));
      Some (Inr (m_trades st), b2) }"
    using acc by (simp add: add_limit_order_eq match_book_def not_le [symmetric])
  with assms(2) obtain st b1 where m: "match_book i sd price (start_match quantity b) b = Some (st, b1)" "m_trades st = ts"
    "(if 0 < m_remaining st then rest_order i sd price (m_remaining st) (settle st b1) else Some (settle st b1)) = Some b'"
    by (auto simp: bind_Some_iff)
  have "gains st" using trades_positive [OF assms] m(2) by (simp add: gains_def)
  show ?thesis by (rule that [OF m(1,2) \<open>gains st\<close> acc]) (use m(3) in simp_all)
qed

lemma add_full_eq:
  assumes "0 < quantity" and "map_of (locations b) i = None"
  shows "add_limit_order_full f i sd price quantity b = do {
     (threw, st, b1) \<leftarrow> match_full f i sd price (start_match quantity b) b;
     if threw then Some (Inl BadAlloc, settle st b1)
     else if m_remaining st > 0
     then do {
       (threw, b3) \<leftarrow> rest_order_full f i sd price (m_remaining st) (settle st b1);
       Some (if threw then Inl BadAlloc else Inr (m_trades st), b3)
     }
     else Some (Inr (m_trades st), settle st b1)
   }"
  using assms by (simp add: add_limit_order_full_def not_le [symmetric] Let_def)

text \<open>
  The book of the order that is worth just the trades made so far: the order itself, or nothing.
\<close>

definition cut_short :: "OrderId \<Rightarrow> side \<Rightarrow> Price \<Rightarrow> Trade list \<Rightarrow> order_book \<Rightarrow> order_book \<Rightarrow> bool" where
  "cut_short i sd price ts b b' \<longleftrightarrow>
     (if ts = [] then b' = b else add_limit_order i sd price (trades_sum ts) b = Some (Inr ts, b'))"

lemma cut_shortI:
  assumes m: "match_book i sd price (less_by (m_remaining st) (start_match quantity b)) b =
      Some (less_by (m_remaining st) st, b')"
    and new: "map_of (locations b) i = None"
  shows "cut_short i sd price (m_trades st) b (settle st b')"
proof -
  let ?d = "m_remaining st"
  have settle: "settle (less_by ?d st) b' = settle st b'" by (simp add: settle_def)
  have start: "less_by ?d (start_match quantity b) = start_match (quantity - ?d) b"
    by (simp add: less_by_def start_match_def)
  have worth: "quantity - ?d = trades_sum (m_trades st)"
    using match_book_accounts [OF m] by (auto simp: accounts_def start_match_def)
  show ?thesis
  proof (cases "0 < quantity - ?d")
    case True
    then have "m_trades st \<noteq> []" unfolding worth by auto
    moreover have "add_limit_order i sd price (quantity - ?d) b = Some (Inr (m_trades st), settle st b')"
      using True new m by (simp add: add_limit_order_eq match_book_def [symmetric] start settle not_le [symmetric])
    ultimately show ?thesis by (simp add: cut_short_def worth)
  next
    case False
    then have "match_book i sd price (start_match (quantity - ?d) b) b = Some (start_match (quantity - ?d) b, b)"
      by (intro match_book_nothing) (simp add: start_match_def)
    with m have "less_by ?d st = start_match (quantity - ?d) b \<and> b' = b" unfolding start by auto
    then have "less_by ?d st = start_match (quantity - ?d) b" and "b' = b" by blast+
    then have "m_trades (less_by ?d st) = []" "settle (less_by ?d st) b' = b" by (simp_all add: start_match_def settle_def)
    then show ?thesis by (simp add: cut_short_def settle)
  qed
qed

subsection \<open>Resting the remainder\<close>

lemma rest_level_fault:
  assumes "om_find (side_cmp sd) price (levels_of sd b) = None"
  shows "rest_order_full LevelNode i sd price remaining b = Some (True, b\<lparr>next_sequence := next_sequence b + 1\<rparr>)"
  using assms by (cases sd) (simp_all add: rest_order_full_def rest_levels_full_def Let_def)

lemma rest_index_fault:
  assumes "rest_order i sd price remaining b = Some b'"
  shows "rest_order_full IndexNode i sd price remaining b = Some (True, b'\<lparr>locations := locations b\<rparr>)"
  using assms
  by (cases sd) (auto simp: rest_order_def rest_order_full_def rest_levels_full_def level_for_def Let_def bind_Some_iff)

lemma rest_locations:
  assumes "rest_order i sd price remaining b = Some b'"
  shows "\<exists>x. locations b' = emplace i x (locations b)"
  using assms by (cases sd) (auto simp: rest_order_def Let_def bind_Some_iff)

lemma no_level:
  assumes "no_empty levels" and "\<forall>level. om_find lt k levels = Some level \<longrightarrow> collect_ids level p = Some []"
  shows "om_find lt k levels = None"
proof (cases "om_find lt k levels")
  case (Some level)
  have "om_find lt k levels = Some level \<Longrightarrow> level \<in> snd ` set levels" by (induction levels) (auto split: if_splits)
  with Some assms(1) obtain h where h: "pl_head level = Some h" by (auto simp: no_empty_def)
  have grows: "collect_from n ids p = Some ids' \<Longrightarrow> length ids \<le> length ids'" for n ids ids'
  proof (induction rule: collect_from.raw_induct [rotated, consumes 1, case_names step])
    case (step rec n ids p ids')
    show ?case
    proof (cases n)
      case (Some a)
      with step(2) have "\<exists>x :: OrderNode. rec (node_next x) (ids @ [order_id (node_order x)]) p = Some ids'"
        by (auto simp: bind_Some_iff)
      then obtain x :: OrderNode where "rec (node_next x) (ids @ [order_id (node_order x)]) p = Some ids'" by blast
      from step(1) [OF this] show ?thesis by simp
    qed (use step(2) in simp)
  qed
  have "collect_from (Some h) [] p = Some []" using assms(2) Some h by (simp add: collect_ids_def)
  then obtain x :: OrderNode where "collect_from (node_next x) [order_id (node_order x)] p = Some []"
    by (subst (asm) collect_from.simps) (auto simp: bind_Some_iff)
  from grows [OF this] show ?thesis by simp
qed

lemma orders_at_none:
  assumes "represents b A" and "orders_at sd price b = Some []"
  shows "om_find (side_cmp sd) price (levels_of sd b) = None"
proof (rule no_level [where p = "node_pool b"])
  show "no_empty (levels_of sd b)" using represents_no_empty(1,2) [OF assms(1)] by (cases sd) simp_all
  show "\<forall>level. om_find (side_cmp sd) price (levels_of sd b) = Some level \<longrightarrow> collect_ids level (node_pool b) = Some []"
    using assms(2) by (cases sd) (auto simp: orders_at_def)
qed

lemma match_book_own:
  assumes "match_book i sd price st b = Some (st', b')"
  shows "levels_of sd (settle st' b') = levels_of sd b" and "next_sequence (settle st' b') = m_sequence st'"
    and "locations (settle st' b') = m_locations st'"
  using assms by (auto elim!: match_bookE simp: settle_def)

text \<open>The index only loses entries while an order matches.\<close>

lemma match_locations:
  shows "match_level i sd price st level = Some y \<Longrightarrow> set (m_locations (fst y)) \<subseteq> set (m_locations st)"
    and "match_levels stop i sd st levels = Some z \<Longrightarrow> set (m_locations (fst z)) \<subseteq> set (m_locations st)"
proof -
  have head: "set (m_locations st') \<subseteq> set (m_locations st)"
    if "match_head i sd price st level = Some (st', level')" for i sd price st level st' level'
    using that by (auto simp: match_head_def Let_def bind_Some_iff set_AList_delete split: if_splits)
  have level: "set (m_locations (fst y)) \<subseteq> set (m_locations st)"
    if "match_level i sd price st level = Some y" for i sd price st level y
    using that by (induction rule: match_level_induct) (use head in fastforce)+
  show "match_level i sd price st level = Some y \<Longrightarrow> set (m_locations (fst y)) \<subseteq> set (m_locations st)" by (rule level)
  show "match_levels stop i sd st levels = Some z \<Longrightarrow> set (m_locations (fst z)) \<subseteq> set (m_locations st)"
    by (induction rule: match_levels_induct) (use level in fastforce)+
qed

lemma match_book_locations:
  "match_book i sd price st b = Some (st', b') \<Longrightarrow> map_of (m_locations st) i = None \<Longrightarrow> map_of (m_locations st') i = None"
  by (auto elim!: match_bookE dest!: match_locations(2) simp: map_of_eq_None_iff)

subsection \<open>An order that is cut short\<close>

lemma spend_represents:
  assumes "represents b A"
  shows "represents (b\<lparr>next_sequence := next_sequence b + 1\<rparr>) (A\<lparr>sp_sequence := sp_sequence A + 1\<rparr>)"
proof -
  obtain gb ga where r: "spec_inv A" "next_sequence b = sp_sequence A" "sp_bids A = strip gb" "sp_asks A = strip ga"
    "side_rep (node_pool b) (bids b) gb" "side_rep (node_pool b) (asks b) ga"
    "store_rep (node_pool b) (locations b) (entries Buy gb @ entries Sell ga)"
    using assms by (rule representsE)
  then show ?thesis
    by (intro representsI [of _ _ gb ga]) (simp_all add: spec_inv_def spec_ids_def spec_orders_def)
qed

lemma cut_short_represents:
  assumes "represents b A" and "cut_short i sd price ts b b'"
  shows "\<exists>A'. represents (b'\<lparr>next_sequence := next_sequence b' + 1\<rparr>) A'"
  using assms add_accepted(2) [OF assms(1)] spend_represents unfolding cut_short_def by (metis (full_types))

text \<open>A call that is not rejected, without a fault and with one.\<close>

lemma not_rejected:
  assumes "represents b A" and "0 < quantity" and "map_of (locations b) i = None"
  obtains ts b' where "add_limit_order i sd price quantity b = Some (Inr ts, b')"
proof -
  have "i \<notin> set (spec_ids A)" using represents_index(2) [OF assms(1), of i] assms(3) by simp
  with assms(2) obtain ts where "fst (spec_add i sd price quantity A) = Inr ts"
    by (cases "spec_match i sd price quantity A") (simp add: spec_add_def not_le [symmetric])
  then show ?thesis using add_refines [OF assms(1), of i sd price quantity] that by auto
qed

lemma trade_fault_throws:
  assumes "represents b A" and "match_book i sd price (start_match quantity b) b = Some (st, b')" and "gains st"
    and "\<not> before_fault f (m_trades st)"
  shows "\<exists>st1 b1. match_full f i sd price (start_match quantity b) b = Some (True, st1, b1)"
proof -
  obtain k where k: "f = TradeVector k" "k < length (m_trades st)" using assms(4) by (auto simp: before_fault_def)
  have "m_trades (start_match quantity b) = []" by (simp add: start_match_def)
  from match_book_fault [OF assms(2,3) represents_no_empty(3) [OF assms(1)] this k(2)] show ?thesis
    unfolding k(1) by metis
qed

text \<open>Resting the remainder with a fault: it throws, or does what it does without.\<close>

lemma rest_levels_cases:
  assumes "push_back (level_for lt (order_price order) levels) order p = Some (a, level, q)"
  shows "\<exists>ls p'. rest_levels_full f lt order levels p = Some (None, ls, p') \<or>
    rest_levels_full f lt order levels p = Some (Some a, om_put lt (order_price order) level levels, q)"
  using assms by (simp add: rest_levels_full_def Let_def)

lemma rest_fault_cases:
  assumes "rest_order i sd price remaining b = Some b'"
  shows "\<exists>x. rest_order_full f i sd price remaining b = Some x \<and> (fst x \<or> snd x = b')"
proof -
  let ?r = "\<lparr>order_id = i, order_price = price, order_quantity = remaining, order_sequence = next_sequence b\<rparr>"
  obtain a level q where pb:
    "push_back (level_for (side_cmp sd) price (levels_of sd b)) ?r (node_pool b) = Some (a, level, q)"
    "b' = (if sd = Buy then b\<lparr>bids := om_put bids_cmp price level (bids b)\<rparr>
       else b\<lparr>asks := om_put asks_cmp price level (asks b)\<rparr>)\<lparr>next_sequence := next_sequence b + 1, node_pool := q,
         locations := emplace i \<lparr>loc_side = sd, loc_price = price, loc_node = a\<rparr> (locations b)\<rparr>"
    using assms
    by (cases sd) (auto simp: rest_order_def level_for_def Let_def bind_Some_iff)
  show ?thesis
    using rest_levels_cases [of "side_cmp sd" ?r "levels_of sd b" "node_pool b" a level q f] pb
    by (cases sd) (auto simp: rest_order_full_def Let_def)
qed

text \<open>
  C36: with any one allocation failing, \<open>add_limit_order\<close> is still defined on every book that a
  client can reach: it ends without undefined behaviour, and either it throws \<open>std::bad_alloc\<close> or it
  answers and does exactly what it does when no allocation fails.
\<close>

theorem failing_call_is_defined:
  assumes "represents b A"
  shows "\<exists>r b'. add_limit_order_full f i sd price quantity b = Some (r, b') \<and>
    (r = Inl BadAlloc \<or> (\<exists>r0. r = map_sum Rejected id r0 \<and> add_limit_order i sd price quantity b = Some (r0, b')))"
proof (cases "0 < quantity \<and> map_of (locations b) i = None")
  case False
  then show ?thesis
    by (auto simp: add_limit_order_full_def add_limit_order_def not_less intro!: exI [of _ b])
next
  case pre: True
  then obtain ts b1 where add: "add_limit_order i sd price quantity b = Some (Inr ts, b1)"
    using not_rejected [OF assms] by blast
  obtain st bm where m: "match_book i sd price (start_match quantity b) b = Some (st, bm)" "m_trades st = ts"
    "gains st" "0 < m_remaining st \<Longrightarrow> rest_order i sd price (m_remaining st) (settle st bm) = Some b1"
    "\<not> 0 < m_remaining st \<Longrightarrow> b1 = settle st bm"
    using accepted_order [OF assms add] by blast
  note full = add_full_eq [OF conjunct1 [OF pre] conjunct2 [OF pre], of f]
  show ?thesis
  proof (cases "before_fault f ts")
    case True
    then have match: "match_full f i sd price (start_match quantity b) b = Some (False, st, bm)"
      by (intro match_book_no_fault [OF m(1)]) (simp add: m(2))
    show ?thesis
    proof (cases "0 < m_remaining st")
      case True
      obtain threw b2 where r: "rest_order_full f i sd price (m_remaining st) (settle st bm) = Some (threw, b2)"
        "threw \<or> b2 = b1"
        using rest_fault_cases [OF m(4) [OF True], of f] by fastforce
      then show ?thesis using True m(2) add by (cases threw) (simp_all add: full match)
    next
      case False
      then show ?thesis using m(2,5) add by (simp add: full match)
    qed
  next
    case False
    then obtain st1 b2 where "match_full f i sd price (start_match quantity b) b = Some (True, st1, b2)"
      using trade_fault_throws [OF assms m(1,3)] m(2) by blast
    then show ?thesis by (simp add: full)
  qed
qed

definition sample_trades :: "Trade list" where
  "sample_trades = map (\<lambda>(r, p, q, s). \<lparr>aggressor_order_id = 9, resting_order_id = r, aggressor_side = Sell,
     trade_price = p, trade_quantity = q, trade_sequence = s\<rparr>) [(1, 100, 10, 5), (2, 100, 4, 6), (3, 99, 6, 7)]"

lemma sample_add:
  assumes "represents b (spec_after sample)"
  obtains b1 where "add_limit_order 9 Sell 99 20 b = Some (Inr sample_trades, b1)"
proof -
  have "fst (spec_add 9 Sell 99 20 (spec_after sample)) = Inr sample_trades" by code_simp
  with add_refines [OF assms, of 9 Sell 99 20] show ?thesis using that by auto
qed

theorem failing_call_is_defined_witness:
  "\<exists>b r b'. represents b (spec_after sample) \<and> add_limit_order_full (TradeVector 0) 9 Sell 99 20 b = Some (r, b') \<and>
     r = Inl BadAlloc"
proof -
  obtain b where b: "represents b (spec_after sample)" using book_after_spec [of sample] by blast
  obtain b1 where b1: "add_limit_order 9 Sell 99 20 b = Some (Inr sample_trades, b1)" by (rule sample_add [OF b])
  obtain r b' where call: "add_limit_order_full (TradeVector 0) 9 Sell 99 20 b = Some (r, b')"
    using failing_call_is_defined [OF b, of "TradeVector 0" 9 Sell 99 20] by blast
  obtain st bm where m: "match_book 9 Sell 99 (start_match 20 b) b = Some (st, bm)" "m_trades st = sample_trades"
    "gains st" "0 < (20 :: Quantity)" "map_of (locations b) 9 = None"
    using accepted_order [OF b b1] by blast
  have "\<not> before_fault (TradeVector 0) (m_trades st)" by (simp add: m(2) before_fault_def sample_trades_def)
  then obtain st1 b2 where "match_full (TradeVector 0) 9 Sell 99 (start_match 20 b) b = Some (True, st1, b2)"
    using trade_fault_throws [OF b m(1,3)] by blast
  with call have "r = Inl BadAlloc" by (simp add: add_full_eq [OF m(4,5)])
  with b call show ?thesis by blast
qed

text \<open>Whether the fault \<open>f\<close> comes after the first \<open>k\<close> of the trades \<open>ts\<close> of an order.\<close>

definition fails_after :: "fault \<Rightarrow> nat \<Rightarrow> OrderId \<Rightarrow> side \<Rightarrow> Price \<Rightarrow> order_book \<Rightarrow> Trade list \<Rightarrow> order_book \<Rightarrow> bool" where
  "fails_after f k i sd price b ts b' \<longleftrightarrow>
     (f = TradeVector k \<and> k < length ts) \<or>
     (f = LevelNode \<and> k = length ts \<and> map_of (locations b') i \<noteq> None \<and> orders_at sd price b = Some [])"

text \<open>
  The state in which the call is interrupted: the trades so far, of a matching pass that would have
  ended there with the quantity of those trades.
\<close>

definition interrupted_at :: "fault \<Rightarrow> Trade list \<Rightarrow> OrderId \<Rightarrow> side \<Rightarrow> Price \<Rightarrow> Quantity \<Rightarrow> order_book \<Rightarrow>
    match_state \<Rightarrow> order_book \<Rightarrow> bool" where
  "interrupted_at f ts i sd price quantity b st bm \<longleftrightarrow> m_trades st = ts \<and>
     match_book i sd price (less_by (m_remaining st) (start_match quantity b)) b = Some (less_by (m_remaining st) st, bm) \<and>
     add_limit_order_full f i sd price quantity b =
       Some (Inl BadAlloc, (settle st bm)\<lparr>next_sequence := next_sequence (settle st bm) + 1\<rparr>)"

lemma interrupted_trade:
  assumes "represents b A" and "match_book i sd price (start_match quantity b) b = Some (st, bm)" and "gains st"
    and "0 < quantity" and "map_of (locations b) i = None" and "k < length (m_trades st)"
  shows "\<exists>st1 b2. interrupted_at (TradeVector k) (take k (m_trades st)) i sd price quantity b st1 b2"
proof -
  have "m_trades (start_match quantity b) = []" by (simp add: start_match_def)
  from match_book_fault [OF assms(2,3) represents_no_empty(3) [OF assms(1)] this assms(6)] obtain st1 b2 where
    "m_trades st1 = take k (m_trades st)" "match_full (TradeVector k) i sd price (start_match quantity b) b = Some (True, spent st1, b2)"
    "match_book i sd price (less_by (m_remaining st1) (start_match quantity b)) b = Some (less_by (m_remaining st1) st1, b2)"
    by metis
  then show ?thesis
    by (intro exI [of _ st1] exI [of _ b2])
      (simp add: interrupted_at_def add_full_eq [OF assms(4,5)] settle_def spent_def)
qed

lemma interrupted_level:
  assumes "represents b A" and "match_book i sd price (start_match quantity b) b = Some (st, bm)" and "gains st"
    and "0 < quantity" and "map_of (locations b) i = None" and "0 < m_remaining st" and "orders_at sd price b = Some []"
  shows "interrupted_at LevelNode (m_trades st) i sd price quantity b st bm"
proof -
  have "match_full LevelNode i sd price (start_match quantity b) b = Some (False, st, bm)"
    by (rule match_book_no_fault [OF assms(2)]) (simp add: before_fault_def)
  moreover have "om_find (side_cmp sd) price (levels_of sd (settle st bm)) = None"
    using orders_at_none [OF assms(1,7)] match_book_own(1) [OF assms(2)] by simp
  ultimately show ?thesis
    using match_book_less [OF assms(2,3) represents_no_empty(3) [OF assms(1)] assms(6)] assms(6)
    by (simp add: interrupted_at_def add_full_eq [OF assms(4,5)] rest_level_fault)
qed

text \<open>
  C12: an order that runs out of memory while it trades, or while it creates its price level, is cut
  short.  Say an order would trade \<open>ts\<close>, and \<open>std::bad_alloc\<close> is thrown when the trade with index \<open>k\<close>
  is put into the vector, or after all \<open>k\<close> trades by the node for its level.  Then the book is the
  one an order with the quantity of the first \<open>k\<close> trades leaves, which trades exactly those and rests
  nothing (or the book before, for \<open>k = 0\<close>), up to one more sequence number; it still represents a
  specified book, so that it can be used on.  The caller is not told of the trades that were made.
\<close>

theorem interrupted_order_is_cut_short:
  assumes "represents b A" and "add_limit_order i sd price quantity b = Some (Inr ts, b1)"
    and "fails_after f k i sd price b ts b1"
  shows "\<exists>b2. add_limit_order_full f i sd price quantity b =
      Some (Inl BadAlloc, b2\<lparr>next_sequence := next_sequence b2 + 1\<rparr>) \<and>
    cut_short i sd price (take k ts) b b2 \<and>
    (\<exists>A'. represents (b2\<lparr>next_sequence := next_sequence b2 + 1\<rparr>) A')"
proof -
  obtain st bm where m: "match_book i sd price (start_match quantity b) b = Some (st, bm)" "m_trades st = ts"
    "gains st" "0 < quantity" "map_of (locations b) i = None"
    "0 < m_remaining st \<Longrightarrow> rest_order i sd price (m_remaining st) (settle st bm) = Some b1"
    "\<not> 0 < m_remaining st \<Longrightarrow> b1 = settle st bm"
    using accepted_order [OF assms(1,2)] by blast
  have "\<exists>st2 bm2. interrupted_at f (take k ts) i sd price quantity b st2 bm2"
  proof (cases "f = LevelNode")
    case False
    with assms(3) have k: "f = TradeVector k" "k < length (m_trades st)" by (simp_all add: fails_after_def m(2))
    show ?thesis using interrupted_trade [OF assms(1) m(1,3-5) k(2)] by (simp add: k(1) m(2))
  next
    case True
    with assms(3) have k: "k = length ts" "map_of (locations b1) i \<noteq> None" "orders_at sd price b = Some []"
      by (simp_all add: fails_after_def)
    have "map_of (locations (settle st bm)) i = None"
      using match_book_locations [OF m(1)] m(5) by (simp add: settle_def start_match_def)
    then have "0 < m_remaining st" using m(7) k(2) by metis
    with interrupted_level [OF assms(1) m(1,3-5) _ k(3)] show ?thesis by (auto simp: True k(1) m(2))
  qed
  then obtain st2 bm2 where st2: "interrupted_at f (take k ts) i sd price quantity b st2 bm2" by blast
  then have "cut_short i sd price (take k ts) b (settle st2 bm2)"
    using cut_shortI [OF _ m(5)] unfolding interrupted_at_def by metis
  with st2 cut_short_represents [OF assms(1)] show ?thesis unfolding interrupted_at_def by blast
qed

theorem interrupted_order_is_cut_short_witness:
  "\<exists>b b2. represents b (spec_after sample) \<and>
     add_limit_order_full (TradeVector 2) 9 Sell 99 20 b = Some (Inl BadAlloc, b2\<lparr>next_sequence := next_sequence b2 + 1\<rparr>) \<and>
     add_limit_order 9 Sell 99 14 b = Some (Inr (take 2 sample_trades), b2)"
proof -
  obtain b where b: "represents b (spec_after sample)" using book_after_spec [of sample] by blast
  obtain b1 where b1: "add_limit_order 9 Sell 99 20 b = Some (Inr sample_trades, b1)" by (rule sample_add [OF b])
  have two: "trades_sum (take 2 sample_trades) = 14" "take 2 sample_trades \<noteq> []" "2 < length sample_trades" by code_simp+
  then have "fails_after (TradeVector 2) 2 9 Sell 99 b sample_trades b1" by (simp add: fails_after_def)
  from interrupted_order_is_cut_short [OF b b1 this] b two(1,2) show ?thesis
    unfolding cut_short_def by auto
qed

subsection \<open>An order the index does not know\<close>

lemma rests_remainder:
  assumes "represents b A" and "add_limit_order i sd price quantity b = Some (Inr ts, b1)"
    and "map_of (locations b1) i \<noteq> None"
  shows "tsum ts < val quantity"
proof -
  note inv = represents_inv [OF assms(1)] and acc = add_accepted [OF assms(1,2)]
  obtain A1 rem where m: "spec_match i sd price quantity A = (ts, rem, A1)" "0 \<le> rem"
    "val quantity = tsum ts + val rem" "rem = 0 \<Longrightarrow> snd (spec_add i sd price quantity A) = A1"
    using spec_add_orders [OF inv acc(1)] by metis
  have "rem \<noteq> 0"
    using m(4) spec_match_spec(3) [OF less_imp_le [OF acc(3)] inv m(1)] acc(4) assms(3)
      represents_index(2) [OF acc(2), of i] by auto
  then show ?thesis using m(2,3) by (auto simp: less_eq_int64_def val_eq_0_iff order_less_le)
qed

text \<open>
  C35: running out of memory in the index leaves a ghost.  When the remainder of an order has been
  linked into its level and \<open>locations_.emplace\<close> throws, the order stays in the book, last at its
  price, where it will trade; but \<open>cancel_order\<close> does not find it and \<open>order_count\<close> does not count it.
\<close>

theorem failed_index_leaves_ghost:
  assumes "represents b A" and "add_limit_order i sd price quantity b = Some (Inr ts, b1)"
    and "map_of (locations b1) i \<noteq> None"
  shows "\<exists>b2 ids. add_limit_order_full IndexNode i sd price quantity b = Some (Inl BadAlloc, b2) \<and>
    orders_at sd price b = Some ids \<and> orders_at sd price b2 = Some (ids @ [i]) \<and>
    cancel_order i b2 = Some (False, b2) \<and> order_count b2 + 1 = order_count b1"
proof -
  obtain st bm where m: "match_book i sd price (start_match quantity b) b = Some (st, bm)" "m_trades st = ts"
    "gains st" "0 < quantity" "map_of (locations b) i = None"
    "0 < m_remaining st \<Longrightarrow> rest_order i sd price (m_remaining st) (settle st bm) = Some b1"
    "\<not> 0 < m_remaining st \<Longrightarrow> b1 = settle st bm"
    using accepted_order [OF assms(1,2)] by blast
  let ?L = "locations (settle st bm)"
  have new: "map_of ?L i = None" using match_book_locations [OF m(1)] m(5) by (simp add: settle_def start_match_def)
  then have rem: "0 < m_remaining st" using m(7) assms(3) by metis
  let ?b2 = "b1\<lparr>locations := ?L\<rparr>"
  have "match_full IndexNode i sd price (start_match quantity b) b = Some (False, st, bm)"
    by (rule match_book_no_fault [OF m(1)]) (simp add: before_fault_def)
  with rest_index_fault [OF m(6) [OF rem]] rem
  have "add_limit_order_full IndexNode i sd price quantity b = Some (Inl BadAlloc, ?b2)"
    by (simp add: add_full_eq [OF m(4,5)])
  moreover obtain x where "locations b1 = (i, x) # ?L"
    using rest_locations [OF m(6) [OF rem]] new by (auto simp: emplace_new)
  then have "order_count ?b2 + 1 = order_count b1" by (simp add: order_count_def)
  moreover have "cancel_order i ?b2 = Some (False, ?b2)" using new by (simp add: cancel_order_def)
  moreover have "orders_at sd price ?b2 = orders_at sd price b1"
    by (simp add: orders_at_def cong: option.case_cong)
  ultimately show ?thesis
    using orders_at_refines [OF assms(1)] orders_at_refines [OF add_accepted(2) [OF assms(1,2)]]
      remainder_queue [OF assms(1,2) rests_remainder [OF assms]]
    by (intro exI [of _ ?b2]) auto
qed

theorem failed_index_leaves_ghost_witness:
  "\<exists>b b2. represents b (spec_after sample) \<and>
     add_limit_order_full IndexNode 9 Buy 100 3 b = Some (Inl BadAlloc, b2) \<and>
     orders_at Buy 100 b2 = Some [1, 2, 9] \<and> cancel_order 9 b2 = Some (False, b2)"
proof -
  obtain b where b: "represents b (spec_after sample)" using book_after_spec [of sample] by blast
  have add: "fst (spec_add 9 Buy 100 3 (spec_after sample)) = Inr []"
    "9 \<in> set (spec_ids (snd (spec_add 9 Buy 100 3 (spec_after sample))))"
    "map order_id (spec_queue Buy 100 (spec_after sample)) = [1, 2]"
    by code_simp+
  from add_refines [OF b, of 9 Buy 100 3] obtain b1 where
    b1: "add_limit_order 9 Buy 100 3 b = Some (Inr [], b1)"
      "represents b1 (snd (spec_add 9 Buy 100 3 (spec_after sample)))" unfolding add(1) by blast
  have "map_of (locations b1) 9 \<noteq> None" using represents_index(2) [OF b1(2), of 9] add(2) by simp
  from failed_index_leaves_ghost [OF b b1(1) this] orders_at_refines [OF b, of Buy 100] b add(3)
  show ?thesis by auto
qed

subsection \<open>A level without an order\<close>

text \<open>An order beyond the whole other side matches nothing.\<close>

lemma match_buy_nothing:
  assumes "\<forall>a. best_ask b = Some a \<longrightarrow> price < a" and "0 < quantity"
  shows "match_buy i price (start_match quantity b) b = Some (start_match quantity b, b)"
proof -
  have "match_levels (\<lambda>level_price. level_price > price) i Buy (start_match quantity b) (asks b) =
      Some (start_match quantity b, asks b)"
    using assms by (subst match_levels.simps) (auto simp: best_ask_def start_match_def split: list.splits)
  then show ?thesis by (simp add: match_buy_def)
qed

text \<open>A price better than the best bid gets a level at the front, with nothing in it.\<close>

lemma level_for_best:
  assumes "\<forall>p. best_bid b = Some p \<longrightarrow> p < price"
  shows "om_put bids_cmp price (level_for bids_cmp price (bids b)) (bids b) = (price, empty_level) # bids b"
  using assms by (cases "bids b") (auto simp: level_for_def best_bid_def bids_cmp_def)

lemma collect_empty: "collect_ids empty_level p = Some []"
  by (simp add: collect_ids_def empty_level_def collect_from.simps)

text \<open>
  C33: running out of memory in the pool leaves an empty level.  When the pool has no free block and
  the heap no room, a buy order that crosses nothing and improves the best bid throws
  \<open>std::bad_alloc\<close> and leaves its price in the book: \<open>best_bid()\<close> then reports a price at which no
  order rests, although the number of orders has not changed.
\<close>

theorem bad_alloc_leaves_empty_level:
  assumes "represents b A" and "0 < quantity" and "i \<notin> set (spec_ids A)"
    and "free_list (node_pool b) = None"
    and "\<forall>a. best_ask b = Some a \<longrightarrow> price < a" and "\<forall>p. best_bid b = Some p \<longrightarrow> p < price"
  shows "\<exists>b'. add_limit_order_full PoolChunk i Buy price quantity b = Some (Inl BadAlloc, b') \<and>
    best_bid b' = Some price \<and> orders_at Buy price b' = Some [] \<and> order_count b' = order_count b \<and>
    next_sequence b' = next_sequence b + 1"
proof -
  let ?b = "b\<lparr>bids := (price, empty_level) # bids b, next_sequence := next_sequence b + 1\<rparr>"
  have new: "map_of (locations b) i = None" using represents_index(2) [OF assms(1)] assms(3) by simp
  have "match_full PoolChunk i Buy price (start_match quantity b) b = Some (False, start_match quantity b, b)"
    by (rule match_book_no_fault) (simp_all add: match_book_def match_buy_nothing [OF assms(5,2)] before_fault_def)
  moreover have "settle (start_match quantity b) b = b" by (simp add: settle_def start_match_def)
  moreover have "m_remaining (start_match quantity b) = quantity" by (simp add: start_match_def)
  ultimately have "add_limit_order_full PoolChunk i Buy price quantity b = Some (Inl BadAlloc, ?b)"
    using assms(2,4) level_for_best [OF assms(6)]
    by (simp add: add_full_eq [OF assms(2) new] rest_order_full_def rest_levels_full_def Let_def)
  then show ?thesis
    by (intro exI [of _ ?b]) (simp add: best_bid_def orders_at_def order_count_def collect_empty bids_cmp_def)
qed

text \<open>A pool of one block, taken by a buy order at 99, and another one at 100.\<close>

definition one_block :: "order_book option" where
  "one_block = do {
     p \<leftarrow> slab_new order_node_layout 1;
     (r, b) \<leftarrow> add_limit_order 1 Buy 99 7 (book_over p);
     Some b
   }"

lemma one_block_facts:
  obtains b where "one_block = Some b" and "represents b (snd (spec_add 1 Buy 99 7 spec_new))"
    and "free_list (node_pool b) = None"
proof -
  have "sizes_fit order_node_layout 1"
    by (simp add: sizes_fit_def kRawBlockSize_def kBlockAlign_def kBlockSize_def order_node_layout_def
        sizeof_FreeNode_def alignof_FreeNode_def)
  then obtain p where p: "slab_new order_node_layout 1 = Some p" "represents (book_over p) spec_new"
    using book_over_refines [of 1] by auto
  obtain b where b: "add_limit_order 1 Buy 99 7 (book_over p) = Some (fst (spec_add 1 Buy 99 7 spec_new), b)"
    "represents b (snd (spec_add 1 Buy 99 7 spec_new))"
    using add_refines [OF p(2), of 1 Buy 99 7] by blast
  then have one: "one_block = Some b" by (simp add: one_block_def p(1))
  have pos: "0 < (7::Quantity)" by (simp add: less_int64_def val_numeral)
  have "\<forall>a. best_ask (book_over p) = Some a \<longrightarrow> 99 < a" by (simp add: best_ask_def book_over_def)
  from match_buy_nothing [OF this pos, of 1] have "add_limit_order 1 Buy 99 7 (book_over p) =
      do { b \<leftarrow> rest_order 1 Buy 99 7 (book_over p); Some (Inr [], b) }"
    using pos by (simp add: add_limit_order_eq not_le [symmetric])
      (simp add: start_match_def settle_def book_over_def)
  moreover have "case slab_new order_node_layout 1 of None \<Rightarrow> False | Some p \<Rightarrow>
      (case rest_order 1 Buy 99 7 (book_over p) of None \<Rightarrow> False | Some b \<Rightarrow> free_list (node_pool b) = None)"
    by code_simp
  ultimately have "free_list (node_pool b) = None" using b(1) p(1) by (auto split: option.splits)
  with one b(2) show thesis by (rule that)
qed

theorem bad_alloc_leaves_empty_level_witness:
  "\<exists>b b'. one_block = Some b \<and> add_limit_order_full PoolChunk 2 Buy 100 5 b = Some (Inl BadAlloc, b') \<and>
     best_bid b = Some 99 \<and> best_bid b' = Some 100 \<and> orders_at Buy 100 b' = Some []"
proof -
  obtain b where b: "one_block = Some b" "represents b (snd (spec_add 1 Buy 99 7 spec_new))"
    "free_list (node_pool b) = None" by (rule one_block_facts)
  have A: "map fst (sp_bids (snd (spec_add 1 Buy 99 7 spec_new))) = [99]"
    "map fst (sp_asks (snd (spec_add 1 Buy 99 7 spec_new))) = []"
    "spec_ids (snd (spec_add 1 Buy 99 7 spec_new)) = [1]"
    by code_simp+
  have best: "best_bid b = Some 99" "best_ask b = None"
    using best_refines [OF b(2)] A(1,2) by (auto split: list.splits)
  have nums: "(99::Price) < 100" "(0::Quantity) < 5" by (simp_all add: less_int64_def val_numeral)
  from bad_alloc_leaves_empty_level [OF b(2) nums(2) _ b(3), of 2 100] b(1) best A(3) nums(1)
  show ?thesis by auto
qed

end
