(* ===== verification/Slab_Properties.thy ===== *)
theory Slab_Properties
  imports Slab_Allocator
begin

section \<open>Properties of the slab allocator\<close>

text \<open>
  A client constructs a pool and then allocates and gives back blocks it holds, in any order:
  the step relation \<open>pool_reaches\<close>.  The theorems state what such a client can rely on, and one
  shows an initial capacity for which the constructor's size computation wraps around.
\<close>

inductive pool_reaches :: "layout \<Rightarrow> size_t \<Rightarrow> 'a slab \<Rightarrow> addr set \<Rightarrow> bool" for L cap where
  start: "slab_new L cap = Some s \<Longrightarrow> pool_reaches L cap s {}"
| take_block: "pool_reaches L cap s U \<Longrightarrow> allocate L s = Some (a, s') \<Longrightarrow> pool_reaches L cap s' (insert a U)"
| write_block: "pool_reaches L cap s U \<Longrightarrow> a \<in> U \<Longrightarrow> construct a v s = Some s' \<Longrightarrow> pool_reaches L cap s' U"
| end_object: "pool_reaches L cap s U \<Longrightarrow> a \<in> U \<Longrightarrow> destroy a s = Some s' \<Longrightarrow> pool_reaches L cap s' U"
| give_back: "pool_reaches L cap s U \<Longrightarrow> a \<in> U \<Longrightarrow> deallocate a s = Some s' \<Longrightarrow> pool_reaches L cap s' (U - {a})"

inductive_cases pool_reachesE: "pool_reaches L cap s U"

definition initial_blocks :: "size_t \<Rightarrow> size_t" where
  "initial_blocks cap = (if cap = 0 then 1 else cap)"

text \<open>A pool whose first chunk fits the address space keeps its invariant and its chunk size.\<close>

lemma slab_new_owns:
  assumes "sizes_fit L (initial_blocks cap)"
  obtains s where "slab_new L cap = Some s" and "slab_owns L s {}" and "chunk_size s = initial_blocks cap"
  using slab_new_spec [OF assms [unfolded initial_blocks_def]]
  unfolding slab_owns_def initial_blocks_def by metis

lemma construct_frame: "construct a v s = Some s' \<Longrightarrow> s' = s\<lparr>mem := (mem s)(a \<mapsto> Object v)\<rparr>"
  by (auto simp: construct_def split: option.splits)

lemma destroy_frame: "destroy a s = Some s' \<Longrightarrow> s' = s\<lparr>mem := (mem s)(a \<mapsto> Raw)\<rparr>"
  by (auto simp: destroy_def split: option.splits cell.splits)

lemma pool_reaches_owns:
  assumes "pool_reaches L cap s U" and "sizes_fit L (initial_blocks cap)"
  shows "slab_owns L s U \<and> chunk_size s = initial_blocks cap"
  using assms
proof (induction rule: pool_reaches.induct)
  case (start s)
  with slab_new_owns [OF start.prems] show ?case by (metis option.inject)
next
  case (take_block s U a s')
  then obtain free where "slab_inv L s free U" "chunk_size s = initial_blocks cap"
    by (auto simp: slab_owns_def)
  with allocate_spec [of L s free U] take_block.hyps(2) show ?case
    by (auto simp: slab_owns_def)
next
  case (give_back s U a s')
  then obtain free where "slab_inv L s free U" "chunk_size s = initial_blocks cap"
    by (auto simp: slab_owns_def)
  with deallocate_spec [of L s free U a] give_back.hyps(2,3) show ?case
    by (auto simp: slab_owns_def)
next
  case (write_block s U a v s')
  then show ?case using construct_frame [OF write_block.hyps(3)] by (auto intro: slab_owns_upd(1))
next
  case (end_object s U a s')
  then show ?case using destroy_frame [OF end_object.hyps(3)] by (auto intro: slab_owns_upd(1))
qed

lemma slab_blocks:
  assumes "slab_owns L s U" and "a \<in> U"
  obtains i where "a = block L (chunk a) i" and "i < unat (chunk_size s)"
    and "chunk a < length (chunks s)" and "sizes_fit L (chunk_size s)"
proof -
  obtain free where core: "slab_core L s free U" using assms(1) by (auto simp: slab_owns_def slab_inv_def)
  then have a: "a \<in> all_blocks L (length (chunks s)) (unat (chunk_size s))" "sizes_fit L (chunk_size s)"
    using assms(2) by (auto simp: slab_core_def)
  then obtain c i where "a = block L c i" "c < length (chunks s)" "i < unat (chunk_size s)"
    by (auto simp: all_blocks_def)
  moreover have "chunk (block L c i) = c" by (simp add: block_def)
  ultimately show ?thesis using that [of i] a(2) by simp
qed

text \<open>
  C13: every block a client holds is usable memory of its own: it lies inside its chunk, is large
  enough for a \<open>T\<close> (and for a \<open>FreeNode\<close>), is aligned, and shares no byte with any other block
  the client holds.
\<close>

theorem blocks_are_separate:
  assumes "sizes_fit L (initial_blocks cap)" and "pool_reaches L cap s U" and "a \<in> U"
  shows "offset a + unat (sizeof_T L) \<le> unat (kBlockSize L * chunk_size s) \<and>
    unat (kBlockAlign L) dvd offset a \<and> unat (alignof_T L) \<le> unat (kBlockAlign L) \<and>
    chunk a < length (chunks s) \<and>
    (\<forall>b \<in> U. b \<noteq> a \<longrightarrow> chunk b = chunk a \<longrightarrow>
      {offset a ..< offset a + unat (sizeof_T L)} \<inter> {offset b ..< offset b + unat (sizeof_T L)} = {})"
proof -
  have own: "slab_owns L s U" using pool_reaches_owns [OF assms(2,1)] by blast
  obtain i where i: "a = block L (chunk a) i" "i < unat (chunk_size s)" "chunk a < length (chunks s)"
    "sizes_fit L (chunk_size s)"
    using slab_blocks [OF own assms(3)] .
  note big = block_bytes_ge [OF i(4)]
  have off: "offset a = i * block_bytes L" by (subst i(1)) (simp add: block_def)
  have "offset a + unat (sizeof_T L) \<le> unat (kBlockSize L * chunk_size s)"
    using block_offset_word(2) [OF i(4,2)] big(2) by (simp add: off)
  moreover have "unat (kBlockAlign L) dvd offset a" using big(3) by (simp add: off)
  moreover have "{offset a ..< offset a + unat (sizeof_T L)} \<inter> {offset b ..< offset b + unat (sizeof_T L)} = {}"
    if b: "b \<in> U" "b \<noteq> a" "chunk b = chunk a" for b
  proof -
    obtain j where j: "b = block L (chunk b) j" using slab_blocks [OF own b(1)] .
    then have "i \<noteq> j" using b(2,3) i(1) by auto
    from blocks_disjoint [OF this, of L "chunk a"] i(1) j b(3)
    have "{offset a ..< offset a + block_bytes L} \<inter> {offset b ..< offset b + block_bytes L} = {}" by simp
    moreover have "{offset x ..< offset x + unat (sizeof_T L)} \<subseteq> {offset x ..< offset x + block_bytes L}" for x
      using big(2) by auto
    ultimately show ?thesis by blast
  qed
  ultimately show ?thesis using i(3) kBlockAlign_ge(2) by blast
qed

text \<open>With no free block \<open>allocate\<close> takes one of a new chunk, otherwise the head of the free list.\<close>

lemma allocate_grow_counts:
  assumes "slab_inv L s [] U"
  obtains a s' where "allocate L s = Some (a, s')" and "a \<notin> U" and "\<forall>b \<in> U. mem s' b = mem s b"
    and "in_use s' = of_nat (card (insert a U))" and "growth_events s' = growth_events s + 1"
    and "capacity s' = capacity s + chunk_size s"
proof -
  obtain a free' s' where a: "allocate L s = Some (a, s')" "slab_inv L s' free' (insert a U)" "a \<notin> U"
    "\<forall>b \<in> U. mem s' b = mem s b" "length (chunks s') = Suc (length (chunks s))" "chunk_size s' = chunk_size s"
    using allocate_grow [OF assms] by blast
  have own: "slab_owns L s U" "slab_owns L s' (insert a U)" using assms a(2) by (auto simp: slab_owns_def)
  have c: "in_use s' = of_nat (card (insert a U))" "growth_events s' = of_nat (length (chunks s))"
    "capacity s' = capacity s + chunk_size s"
    using slab_owns_counts(2,3,5) [OF own(2)] slab_owns_counts(3) [OF own(1)] a(5,6)
    by (simp_all add: algebra_simps)
  have "chunks s \<noteq> []" "growth_events s = of_nat (length (chunks s) - 1)"
    using assms by (simp_all add: slab_inv_def growth_events_def)
  then have "growth_events s' = growth_events s + 1" by (cases "chunks s") (simp_all add: c(2))
  with a(1,3,4) c(1,3) show ?thesis by (intro that)
qed

lemma allocate_pop_counts:
  assumes "slab_inv L s (a # fs) U"
  obtains s' where "allocate L s = Some (a, s')" and "a \<notin> U" and "mem s' = mem s"
    and "in_use s' = of_nat (card (insert a U))" and "growth_events s' = growth_events s" and "capacity s' = capacity s"
proof -
  obtain s' where s': "allocate L s = Some (a, s')" "slab_inv L s' fs (insert a U)" "mem s' = mem s"
    "chunks s' = chunks s" "chunk_size s' = chunk_size s"
    using allocate_pop [OF assms] by blast
  have own: "slab_owns L s U" "slab_owns L s' (insert a U)" using assms s'(2) by (auto simp: slab_owns_def)
  moreover have "a \<notin> U" using assms by (auto simp: slab_inv_def slab_core_def)
  ultimately show ?thesis
    using that s' slab_owns_counts(2,3,5) [OF own(2)] slab_owns_counts(3,5) [OF own(1)] by simp
qed

text \<open>
  C14: \<open>allocate\<close> never fails, hands out a block the client does not hold yet and leaves the held
  blocks alone; it grows by exactly one chunk, and counts one growth event, when every block is
  in use, and does neither while a block is free.
\<close>

theorem allocate_grows_when_full:
  assumes "sizes_fit L (initial_blocks cap)" and "pool_reaches L cap s U"
  shows "\<exists>a s'. allocate L s = Some (a, s') \<and> a \<notin> U \<and> (\<forall>b \<in> U. mem s' b = mem s b) \<and>
    in_use s' = in_use s + 1 \<and>
    (if card U = length (chunks s) * unat (initial_blocks cap)
     then growth_events s' = growth_events s + 1 \<and> capacity s' = capacity s + initial_blocks cap
     else growth_events s' = growth_events s \<and> capacity s' = capacity s)"
proof -
  obtain free where inv: "slab_inv L s free U" and cs: "chunk_size s = initial_blocks cap"
    using pool_reaches_owns [OF assms(2,1)] by (auto simp: slab_owns_def)
  then have core: "slab_core L s free U" by (simp add: slab_inv_def)
  have full: "card U = length (chunks s) * unat (initial_blocks cap) \<longleftrightarrow> free = []"
    using slab_core_counts(3,5) [OF core] cs by (metis add_cancel_right_right length_0_conv)
  have counts: "in_use s = of_nat (card U)" "finite U"
    using slab_owns_counts(1,2) [of L s U] inv by (auto simp: slab_owns_def)
  show ?thesis
  proof (cases free)
    case Nil
    with inv allocate_grow_counts [of L s U] obtain a s' where "allocate L s = Some (a, s')" "a \<notin> U" "\<forall>b \<in> U. mem s' b = mem s b"
      "in_use s' = of_nat (card (insert a U))" "growth_events s' = growth_events s + 1" "capacity s' = capacity s + chunk_size s"
      by blast
    with counts Nil full cs show ?thesis by (simp add: add.commute)
  next
    case (Cons a fs)
    with inv allocate_pop_counts [of L s a fs U] obtain s' where "allocate L s = Some (a, s')" "a \<notin> U" "mem s' = mem s"
      "in_use s' = of_nat (card (insert a U))" "growth_events s' = growth_events s" "capacity s' = capacity s"
      by blast
    with counts Cons full show ?thesis by (simp add: add.commute)
  qed
qed

text \<open>
  The counters count.  At any time \<open>in_use()\<close> is the number of blocks the client holds,
  \<open>capacity()\<close> is the initial capacity times one more than \<open>growth_events()\<close> (modulo \<open>2 ^ 64\<close>), and
  the client never holds more blocks than were reserved.
\<close>

theorem counters_count:
  assumes "sizes_fit L (initial_blocks cap)" and "pool_reaches L cap s U"
  shows "finite U \<and> in_use s = of_nat (card U) \<and>
    capacity s = (growth_events s + 1) * initial_blocks cap \<and>
    card U \<le> length (chunks s) * unat (initial_blocks cap)"
proof -
  have own: "slab_owns L s U" and cs: "chunk_size s = initial_blocks cap"
    using pool_reaches_owns [OF assms(2,1)] by auto
  then have "chunks s \<noteq> []" by (auto simp: slab_owns_def slab_inv_def)
  then have "of_nat (length (chunks s)) = growth_events s + 1"
    using slab_owns_counts(5) [OF own] by (cases "chunks s") simp_all
  with slab_owns_counts(1-4) [OF own] cs show ?thesis by simp
qed

text \<open>
  The free list is a stack: a block just given back is the next one handed out, and the pair
  of calls restores the counters, the free list and every other block.
\<close>

theorem free_list_is_lifo:
  assumes "sizes_fit L (initial_blocks cap)" and "pool_reaches L cap s U" and "a \<in> U"
  shows "\<exists>s1 s2. deallocate a s = Some s1 \<and> allocate L s1 = Some (a, s2) \<and>
    in_use s2 = in_use s \<and> growth_events s2 = growth_events s \<and> free_list s2 = free_list s \<and>
    (\<forall>b. b \<noteq> a \<longrightarrow> mem s2 b = mem s b)"
proof -
  obtain free where inv: "slab_inv L s free U"
    using pool_reaches_owns [OF assms(2,1)] by (auto simp: slab_owns_def)
  then have "a \<in> dom (mem s)" using assms(3) by (auto simp: slab_inv_def slab_core_def)
  then show ?thesis
    by (auto simp: deallocate_def allocate_def read_free_def in_use_def growth_events_def)
qed

subsection \<open>Witnesses\<close>

definition tiny :: layout where
  "tiny = \<lparr>sizeof_T = 12, alignof_T = 4\<rparr>"

text \<open>A pool of one block, filled, then grown: two blocks held.\<close>

definition tiny_pool :: "(addr \<times> addr \<times> nat slab) option" where
  "tiny_pool = do {
     s0 \<leftarrow> slab_new tiny 1;
     (a, s1) \<leftarrow> allocate tiny s0;
     (b, s2) \<leftarrow> allocate tiny s1;
     Some (a, b, s2)
   }"

lemma tiny_fits: "sizes_fit tiny (initial_blocks 1)"
  by (simp add: sizes_fit_def kRawBlockSize_def kBlockAlign_def kBlockSize_def tiny_def
      sizeof_FreeNode_def alignof_FreeNode_def initial_blocks_def)

lemma tiny_pool_eq: "map_option (\<lambda>(a, b, s). (a, b, length (chunks s))) tiny_pool
    = Some (Addr 0 0, Addr 1 0, 2)"
  by code_simp

lemma tiny_reached:
  obtains s :: "nat slab" where "pool_reaches tiny 1 s {Addr 1 0, Addr 0 0}" and "length (chunks s) = 2"
proof -
  obtain s where s: "tiny_pool = Some (Addr 0 0, Addr 1 0, s)" "length (chunks s) = 2"
    using tiny_pool_eq by auto
  then have r: "pool_reaches tiny 1 s {Addr 1 0, Addr 0 0}"
    by (auto simp: tiny_pool_def bind_Some_iff intro: pool_reaches.intros)
  show ?thesis by (rule that [OF r s(2)])
qed

theorem blocks_are_separate_witness:
  "\<exists>s :: nat slab. pool_reaches tiny 1 s {Addr 1 0, Addr 0 0} \<and>
     12 \<le> unat (kBlockSize tiny * chunk_size s) \<and> 0 < length (chunks s)"
proof -
  obtain s :: "nat slab" where s: "pool_reaches tiny 1 s {Addr 1 0, Addr 0 0}" by (rule tiny_reached)
  have "unat (sizeof_T tiny) = 12" by code_simp
  with blocks_are_separate [OF tiny_fits s, of "Addr 0 0"] s show ?thesis by auto
qed

theorem allocate_grows_when_full_witness:
  "\<exists>(s :: nat slab) a s'. pool_reaches tiny 1 s {Addr 1 0, Addr 0 0} \<and> allocate tiny s = Some (a, s') \<and>
     growth_events s' = growth_events s + 1"
proof -
  obtain s :: "nat slab" where s: "pool_reaches tiny 1 s {Addr 1 0, Addr 0 0}" "length (chunks s) = 2"
    by (rule tiny_reached)
  have "card {Addr 1 0, Addr 0 0} = length (chunks s) * unat (initial_blocks 1)"
    by (simp add: s(2) initial_blocks_def)
  with allocate_grows_when_full [OF tiny_fits s(1)] s(1) show ?thesis by auto
qed

theorem counters_count_witness:
  "\<exists>s :: nat slab. pool_reaches tiny 1 s {Addr 1 0, Addr 0 0} \<and> in_use s = 2 \<and>
     capacity s = growth_events s + 1"
proof -
  obtain s :: "nat slab" where s: "pool_reaches tiny 1 s {Addr 1 0, Addr 0 0}" by (rule tiny_reached)
  have "card {Addr 1 0, Addr 0 0} = 2" by simp
  with counters_count [OF tiny_fits s] s show ?thesis by (auto simp: initial_blocks_def)
qed

theorem free_list_is_lifo_witness:
  "\<exists>(s :: nat slab) s1 s2. pool_reaches tiny 1 s {Addr 1 0, Addr 0 0} \<and>
     deallocate (Addr 0 0) s = Some s1 \<and> allocate tiny s1 = Some (Addr 0 0, s2)"
proof -
  obtain s :: "nat slab" where s: "pool_reaches tiny 1 s {Addr 1 0, Addr 0 0}" by (rule tiny_reached)
  from free_list_is_lifo [OF tiny_fits s, of "Addr 0 0"] s show ?thesis by auto
qed

lemma wrapped_chunk:
  assumes "kBlockSize L * count = 0" and "count \<noteq> 0"
  shows "slab_new L count = (None :: 'a slab option)"
proof -
  obtain n where n: "unat count = Suc n" using assms(2) by (metis not0_implies_Suc unat_eq_zero)
  have "thread_blocks L c 0 0 (Suc n) s = None" for c and s :: "'a slab"
    by (simp add: sizeof_FreeNode_def)
  with assms show ?thesis by (simp add: slab_new_def add_chunk_def Let_def n del: thread_blocks.simps)
qed

text \<open>
  C38: the size computation of \<open>add_chunk\<close> wraps.  For a 48-byte \<open>T\<close> and an initial capacity of
  \<open>2 ^ 60\<close> blocks, \<open>kBlockSize * count\<close> is 0 modulo \<open>2 ^ 64\<close>: the constructor asks for an empty
  chunk and its first \<open>FreeNode\<close> is written past the end of it.
\<close>

theorem chunk_size_wraps:
  "kBlockSize \<lparr>sizeof_T = 48, alignof_T = 8\<rparr> * push_bit 60 1 = 0 \<and>
   slab_new \<lparr>sizeof_T = 48, alignof_T = 8\<rparr> (push_bit 60 1) = (None :: nat slab option)"
proof -
  have "kBlockSize \<lparr>sizeof_T = 48, alignof_T = 8\<rparr> * push_bit 60 1 = 0" "(push_bit 60 1 :: 64 word) \<noteq> 0"
    by code_simp+
  with wrapped_chunk show ?thesis by blast
qed

end
