(* ===== verification/Slab_Exhaustion.thy ===== *)
theory Slab_Exhaustion
  imports Slab_Properties
begin

section \<open>The slab allocator when memory runs out\<close>

text \<open>
  \<open>add_chunk\<close> can throw \<open>std::bad_alloc\<close> in two places: from \<open>operator new\<close>, and from
  \<open>chunks_.push_back(raw)\<close> when the vector has to grow, with the new chunk already in hand.  Neither
  \<open>allocate\<close> nor the constructor has a handler.  An \<open>arena\<close> is a pool with the number of chunks
  \<open>operator new\<close> has handed out for it; the destructor gives back those in \<open>chunks_\<close>.
\<close>

datatype chunk_fault = Served | NewFails | RecordFails

record 'a arena =
  pool_of :: "'a slab"
  obtained :: nat

text \<open>The first component tells whether the exception was thrown.\<close>

definition add_chunk_full :: "chunk_fault \<Rightarrow> layout \<Rightarrow> size_t \<Rightarrow> 'a arena \<Rightarrow> (bool \<times> 'a arena) option" where
  "add_chunk_full f L count A =
     (if f = NewFails then Some (True, A)
      else do {
        let A1 = A\<lparr>obtained := obtained A + 1\<rparr>;
        if f = RecordFails then Some (True, A1)
        else do {
          s \<leftarrow> add_chunk L count (pool_of A1);
          Some (False, A1\<lparr>pool_of := s\<rparr>)
        }
      })"

text \<open>
  An exception in the constructor's body ends the lifetime of the members, \<open>chunks_\<close> among them, but
  the destructor of the pool does not run: \<open>Inl\<close> holds the arena as it was then.
\<close>

definition slab_new_full :: "chunk_fault \<Rightarrow> layout \<Rightarrow> size_t \<Rightarrow> ('a arena + 'a arena) option" where
  "slab_new_full f L initial_capacity = do {
     let cs = (if initial_capacity = 0 then 1 else initial_capacity);
     (threw, A) \<leftarrow> add_chunk_full f L cs \<lparr>pool_of = \<lparr>mem = Map.empty, chunks = [], free_list = None,
       chunk_size = cs, total_capacity = 0, in_use_n = 0, growth_events_n = 0\<rparr>, obtained = 0\<rparr>;
     Some (if threw then Inl A else Inr A)
   }"

text \<open>\<open>None\<close> in the first component: \<open>std::bad_alloc\<close> has left \<open>allocate\<close>.\<close>

definition allocate_full :: "chunk_fault \<Rightarrow> layout \<Rightarrow> 'a arena \<Rightarrow> (addr option \<times> 'a arena) option" where
  "allocate_full f L A = do {
     (threw, A1) \<leftarrow> (if free_list (pool_of A) = None
       then do {
         (threw, A1) \<leftarrow> add_chunk_full f L (chunk_size (pool_of A)) A;
         Some (threw, if threw then A1
           else A1\<lparr>pool_of := (pool_of A1)\<lparr>growth_events_n := growth_events_n (pool_of A1) + 1\<rparr>\<rparr>)
       }
       else Some (False, A));
     if threw then Some (None, A1)
     else do {
       node \<leftarrow> free_list (pool_of A1);
       next \<leftarrow> read_free node (pool_of A1);
       Some (Some node, A1\<lparr>pool_of := (pool_of A1)\<lparr>free_list := next, in_use_n := in_use_n (pool_of A1) + 1\<rparr>\<rparr>)
     }
   }"

text \<open>The destructor: its loop gives one chunk back per entry of \<open>chunks_\<close>; the chunks left are leaked.\<close>

fun release_chunks :: "'c list \<Rightarrow> nat \<Rightarrow> nat" where
  "release_chunks [] n = n"
| "release_chunks (c # cs) n = release_chunks cs (n - 1)"

definition arena_destroy :: "'a arena \<Rightarrow> nat" where
  "arena_destroy A = release_chunks (chunks (pool_of A)) (obtained A)"

lemma release_chunks_length [simp]: "release_chunks cs n = n - length cs"
  by (induction cs arbitrary: n) simp_all

subsection \<open>With and without a fault\<close>

lemma allocate_full_served:
  assumes "free_list (pool_of A) \<noteq> None \<or> f = Served"
  shows "allocate_full f L A = do {
    (a, s) \<leftarrow> allocate L (pool_of A);
    Some (Some a, \<lparr>pool_of = s, obtained = obtained A + (if free_list (pool_of A) = None then 1 else 0)\<rparr>)
  }"
  using assms
  by (cases "free_list (pool_of A) = None")
    (auto simp: allocate_full_def allocate_def add_chunk_full_def Let_def split: bind_splits)

lemma allocate_full_fails:
  assumes "free_list (pool_of A) = None" and "f \<noteq> Served"
  shows "allocate_full f L A = Some (None, A\<lparr>obtained := obtained A + (if f = RecordFails then 1 else 0)\<rparr>)"
  using assms by (cases f) (simp_all add: allocate_full_def add_chunk_full_def Let_def)

subsection \<open>What a client can reach\<close>

text \<open>The client of Slab_Properties, with faults; \<open>n\<close> counts the chunks that could not be recorded.\<close>

inductive arena_reaches :: "layout \<Rightarrow> size_t \<Rightarrow> 'a arena \<Rightarrow> addr set \<Rightarrow> nat \<Rightarrow> bool" for L cap where
  start: "slab_new_full f L cap = Some (Inr A) \<Longrightarrow> arena_reaches L cap A {} 0"
| take_block: "arena_reaches L cap A U n \<Longrightarrow> allocate_full f L A = Some (Some a, A') \<Longrightarrow>
    arena_reaches L cap A' (insert a U) n"
| no_block: "arena_reaches L cap A U n \<Longrightarrow> allocate_full f L A = Some (None, A') \<Longrightarrow>
    arena_reaches L cap A' U (if f = RecordFails then n + 1 else n)"
| write_block: "arena_reaches L cap A U n \<Longrightarrow> a \<in> U \<Longrightarrow> construct a v (pool_of A) = Some s \<Longrightarrow>
    arena_reaches L cap (A\<lparr>pool_of := s\<rparr>) U n"
| end_object: "arena_reaches L cap A U n \<Longrightarrow> a \<in> U \<Longrightarrow> destroy a (pool_of A) = Some s \<Longrightarrow>
    arena_reaches L cap (A\<lparr>pool_of := s\<rparr>) U n"
| give_back: "arena_reaches L cap A U n \<Longrightarrow> a \<in> U \<Longrightarrow> deallocate a (pool_of A) = Some s \<Longrightarrow>
    arena_reaches L cap (A\<lparr>pool_of := s\<rparr>) (U - {a}) n"

lemma allocate_chunks:
  assumes "sizes_fit L (initial_blocks cap)" and "pool_reaches L cap s U"
  shows "free_list s = None \<longleftrightarrow> card U = length (chunks s) * unat (initial_blocks cap)"
    and "\<exists>a s'. allocate L s = Some (a, s') \<and> length (chunks s') = length (chunks s) + (if free_list s = None then 1 else 0)"
proof -
  obtain free where inv: "slab_inv L s free U" and cs: "chunk_size s = initial_blocks cap"
    using pool_reaches_owns [OF assms(2,1)] by (auto simp: slab_owns_def)
  then have core: "slab_core L s free U" by (simp add: slab_inv_def)
  have none: "free_list s = None \<longleftrightarrow> free = []"
    using core by (cases free) (auto simp: slab_core_def)
  then show "free_list s = None \<longleftrightarrow> card U = length (chunks s) * unat (initial_blocks cap)"
    using slab_core_counts(3,5) [OF core] cs by (metis add_cancel_right_right length_0_conv)
  show "\<exists>a s'. allocate L s = Some (a, s') \<and> length (chunks s') = length (chunks s) + (if free_list s = None then 1 else 0)"
  proof (cases free)
    case Nil
    with allocate_grow [of L s U] inv none show ?thesis by fastforce
  next
    case (Cons a fs)
    with allocate_pop [of L s a fs U] inv none show ?thesis by fastforce
  qed
qed

lemma slab_new_full_cases:
  assumes "slab_new_full f L cap = Some (Inr A)"
  shows "slab_new L cap = Some (pool_of A)" and "obtained A = 1"
  using assms
  by (auto simp: slab_new_full_def add_chunk_full_def slab_new_def Let_def split: bind_splits if_splits)

lemma arena_reaches_pool:
  assumes "arena_reaches L cap A U n" and fit: "sizes_fit L (initial_blocks cap)"
  shows "pool_reaches L cap (pool_of A) U \<and> obtained A = length (chunks (pool_of A)) + n"
  using assms(1)
proof (induction rule: arena_reaches.induct)
  case (start f A)
  have "length (chunks (pool_of A)) = 1"
    using slab_new_spec [OF fit [unfolded initial_blocks_def], where ?'a = 'a] slab_new_full_cases(1) [OF start] by auto
  with slab_new_full_cases [OF start] show ?case by (auto intro: pool_reaches.start)
next
  case (take_block A U n f a A')
  have "free_list (pool_of A) \<noteq> None \<or> f = Served"
    using take_block.hyps(2) allocate_full_fails [of A f L] by auto
  from allocate_full_served [OF this] take_block.hyps(2) obtain s where
    s: "allocate L (pool_of A) = Some (a, s)"
      "A' = \<lparr>pool_of = s, obtained = obtained A + (if free_list (pool_of A) = None then 1 else 0)\<rparr>"
    by (auto split: bind_splits)
  have "length (chunks s) = length (chunks (pool_of A)) + (if free_list (pool_of A) = None then 1 else 0)"
    using allocate_chunks(2) [OF fit] take_block.IH s(1) by fastforce
  with take_block.IH s show ?case by (auto intro: pool_reaches.take_block)
next
  case (no_block A U n f A')
  have "\<not> (free_list (pool_of A) \<noteq> None \<or> f = Served)"
  proof
    assume "free_list (pool_of A) \<noteq> None \<or> f = Served"
    from allocate_full_served [OF this, of L] no_block.hyps(2) show False by (auto split: bind_splits)
  qed
  with allocate_full_fails [of A f L] no_block show ?case by auto
next
  case (write_block A U n a v s)
  then show ?case using construct_frame [OF write_block.hyps(3)] by (auto intro: pool_reaches.write_block)
next
  case (end_object A U n a s)
  then show ?case using destroy_frame [OF end_object.hyps(3)] by (auto intro: pool_reaches.end_object)
next
  case (give_back A U n a s)
  then have "chunks s = chunks (pool_of A)" by (auto simp: deallocate_def split: option.splits)
  with give_back show ?case by (auto intro: pool_reaches.give_back)
qed

subsection \<open>Properties\<close>

text \<open>
  C34: a pool survives a failure to grow, but may leak.  From any state a client can reach,
  \<open>allocate\<close> throws exactly when every block is in use and growing fails; it then leaves the pool as
  it was, blocks, counters and all, so that the client can go on.  Otherwise it does what it does
  when memory never runs out.  The destructor gives back every chunk but one for each time that
  \<open>chunks_.push_back\<close> was what failed: those are lost.
\<close>

theorem failed_growth_leaks_its_chunk:
  assumes "sizes_fit L (initial_blocks cap)" and "arena_reaches L cap A U n"
  shows "arena_destroy A = n \<and>
    (\<exists>out A'. allocate_full f L A = Some (out, A') \<and>
      (if f \<noteq> Served \<and> card U = length (chunks (pool_of A)) * unat (initial_blocks cap)
       then out = None \<and> pool_of A' = pool_of A \<and> arena_destroy A' = (if f = RecordFails then n + 1 else n)
       else (\<exists>a. out = Some a \<and> allocate L (pool_of A) = Some (a, pool_of A') \<and> arena_destroy A' = n)))"
proof -
  have r: "pool_reaches L cap (pool_of A) U" "obtained A = length (chunks (pool_of A)) + n"
    using arena_reaches_pool [OF assms(2,1)] by auto
  note full = allocate_chunks(1) [OF assms(1) r(1)]
  obtain a s where s: "allocate L (pool_of A) = Some (a, s)"
    "length (chunks s) = length (chunks (pool_of A)) + (if free_list (pool_of A) = None then 1 else 0)"
    using allocate_chunks(2) [OF assms(1) r(1)] by blast
  show ?thesis
  proof (cases "f \<noteq> Served \<and> free_list (pool_of A) = None")
    case True
    with allocate_full_fails [of A f L] r(2) full show ?thesis by (auto simp: arena_destroy_def)
  next
    case False
    with allocate_full_served [of A f L] r(2) full s show ?thesis by (auto simp: arena_destroy_def)
  qed
qed

definition tiny_arena :: "(addr option \<times> nat arena) option" where
  "tiny_arena = do {
     A0 \<leftarrow> slab_new_full Served tiny 1;
     case A0 of Inl A \<Rightarrow> None | Inr A \<Rightarrow> allocate_full Served tiny A
   }"

lemma tiny_arena_reached:
  obtains A :: "nat arena" where "arena_reaches tiny 1 A {Addr 0 0} 0" and "length (chunks (pool_of A)) = 1"
proof -
  have "map_option (\<lambda>(a, A). (a, length (chunks (pool_of A)))) tiny_arena = Some (Some (Addr 0 0), 1)" by code_simp
  then obtain A where A: "tiny_arena = Some (Some (Addr 0 0), A)" "length (chunks (pool_of A)) = 1" by auto
  then obtain A0 where "slab_new_full Served tiny 1 = Some (Inr A0)" "allocate_full Served tiny A0 = Some (Some (Addr 0 0), A)"
    unfolding tiny_arena_def by (auto simp: bind_Some_iff split: sum.splits elim: sum.exhaust) (metis old.sum.exhaust)
  then have "arena_reaches tiny 1 A {Addr 0 0} 0" by (blast intro: arena_reaches.intros)
  from that [OF this A(2)] show ?thesis .
qed

text \<open>A pool of one block, which is in use when recording the second chunk fails.\<close>

theorem failed_growth_leaks_its_chunk_witness:
  "\<exists>(A :: nat arena) A'. arena_reaches tiny 1 A {Addr 0 0} 0 \<and> allocate_full RecordFails tiny A = Some (None, A') \<and>
     pool_of A' = pool_of A \<and> arena_destroy A' = 1"
proof -
  obtain A :: "nat arena" where A: "arena_reaches tiny 1 A {Addr 0 0} 0" "length (chunks (pool_of A)) = 1"
    by (rule tiny_arena_reached)
  have "card {Addr 0 0} = length (chunks (pool_of A)) * unat (initial_blocks 1)" by (simp add: A(2) initial_blocks_def)
  with failed_growth_leaks_its_chunk [OF tiny_fits A(1), of RecordFails] A(1) show ?thesis by auto
qed

end
