(* ===== verification/Price_Scan.thy ===== *)
theory Price_Scan
  imports Market_Types
begin

unbundle bit_operations_syntax

section \<open>The depth scan and its SIMD implementations (price_scan.hpp, price_scan.cpp)\<close>

text \<open>
  The three implementations of the scan over a flat array of levels.  A level out of the array is
  undefined (\<open>None\<close>), as is a signed overflow of a C++ addition.  The vector registers are tuples
  of 64-bit lanes and the NEON and AVX2 intrinsics act on their lanes as the instruction set
  manuals describe: vector additions wrap around, comparisons give all-ones or all-zeros lanes,
  the structure load and the unpack instructions deinterleave prices and quantities.
\<close>

record ScanLevel =
  scan_price :: Price
  scan_quantity :: Quantity

record ScanResult =
  total_quantity :: Quantity
  hit_count :: size_t

definition no_result :: ScanResult where
  "no_result = \<lparr>total_quantity = 0, hit_count = 0\<rparr>"

definition level_at :: "ScanLevel list \<Rightarrow> nat \<Rightarrow> ScanLevel option" where
  "level_at levels i = (if i < length levels then Some (levels ! i) else None)"

subsection \<open>The scalar loops\<close>

definition at_or_better :: "side \<Rightarrow> Price \<Rightarrow> Price \<Rightarrow> bool" where
  "at_or_better sd limit_price price =
     (if sd = Buy then price \<le> limit_price else price \<ge> limit_price)"

text \<open>From index \<open>i\<close> on: the whole scalar scan, and the tail of the vector ones.\<close>

function scan_loop :: "side \<Rightarrow> Price \<Rightarrow> ScanLevel list \<Rightarrow> nat \<Rightarrow> nat \<Rightarrow> ScanResult \<Rightarrow> ScanResult option" where
  "scan_loop sd limit_price levels n i res =
     (if i < n
      then do {
        l \<leftarrow> level_at levels i;
        if at_or_better sd limit_price (scan_price l)
        then do {
          total \<leftarrow> checked_add (total_quantity res) (scan_quantity l);
          scan_loop sd limit_price levels n (i + 1)
            \<lparr>total_quantity = total, hit_count = hit_count res + 1\<rparr>
        }
        else scan_loop sd limit_price levels n (i + 1) res
      }
      else Some res)"
  by pat_completeness auto
termination by (relation "measure (\<lambda>(sd, lim, ls, n, i, res). n - i)") auto

definition scan_quantity_at_or_better_scalar ::
  "ScanLevel list \<Rightarrow> nat \<Rightarrow> Price \<Rightarrow> side \<Rightarrow> ScanResult option" where
  "scan_quantity_at_or_better_scalar levels n limit_price sd =
     scan_loop sd limit_price levels n 0 no_result"

subsection \<open>NEON: two lanes\<close>

type_synonym int64x2 = "int64 \<times> int64"

definition lane_and :: "int64 \<Rightarrow> int64 \<Rightarrow> int64" where
  "lane_and a b = Int64 (raw a AND raw b)"

definition lane_mask :: "bool \<Rightarrow> int64" where
  "lane_mask c = Int64 (if c then NOT 0 else 0)"

fun vaddq_s64 :: "int64x2 \<Rightarrow> int64x2 \<Rightarrow> int64x2" where
  "vaddq_s64 (a0, a1) (b0, b1) = (a0 + b0, a1 + b1)"

fun vandq_s64 :: "int64x2 \<Rightarrow> int64x2 \<Rightarrow> int64x2" where
  "vandq_s64 (a0, a1) (b0, b1) = (lane_and a0 b0, lane_and a1 b1)"

fun vcleq_s64 :: "int64x2 \<Rightarrow> int64x2 \<Rightarrow> int64x2" where
  "vcleq_s64 (a0, a1) (b0, b1) = (lane_mask (a0 \<le> b0), lane_mask (a1 \<le> b1))"

fun vcgeq_s64 :: "int64x2 \<Rightarrow> int64x2 \<Rightarrow> int64x2" where
  "vcgeq_s64 (a0, a1) (b0, b1) = (lane_mask (a0 \<ge> b0), lane_mask (a1 \<ge> b1))"

definition vdupq_n_s64 :: "int64 \<Rightarrow> int64x2" where
  "vdupq_n_s64 x = (x, x)"

text \<open>\<open>vld2q_s64\<close> at \<open>levels + i\<close>: the prices of two levels, and their quantities.\<close>

definition vld2q_s64 :: "ScanLevel list \<Rightarrow> nat \<Rightarrow> (int64x2 \<times> int64x2) option" where
  "vld2q_s64 levels i = do {
     l0 \<leftarrow> level_at levels i;
     l1 \<leftarrow> level_at levels (i + 1);
     Some ((scan_price l0, scan_price l1), (scan_quantity l0, scan_quantity l1))
   }"

function neon_loop ::
  "side \<Rightarrow> int64x2 \<Rightarrow> int64x2 \<Rightarrow> ScanLevel list \<Rightarrow> nat \<Rightarrow> nat \<Rightarrow> int64x2 \<Rightarrow> int64x2 \<Rightarrow> (int64x2 \<times> int64x2) option" where
  "neon_loop sd limit_vec ones_vec levels vec_end i sum_vec count_vec =
     (if i < vec_end
      then do {
        (prices, quantities) \<leftarrow> vld2q_s64 levels i;
        let mask = (if sd = Buy then vcleq_s64 prices limit_vec else vcgeq_s64 prices limit_vec);
        neon_loop sd limit_vec ones_vec levels vec_end (i + 2)
          (vaddq_s64 sum_vec (vandq_s64 mask quantities))
          (vaddq_s64 count_vec (vandq_s64 mask ones_vec))
      }
      else Some (sum_vec, count_vec))"
  by pat_completeness auto
termination by (relation "measure (\<lambda>(sd, lim, ones, ls, e, i, s, c). e - i)") auto

definition scan_quantity_at_or_better_neon ::
  "ScanLevel list \<Rightarrow> nat \<Rightarrow> Price \<Rightarrow> side \<Rightarrow> ScanResult option" where
  "scan_quantity_at_or_better_neon levels n limit_price sd = do {
     let vec_end = n - n mod 2;
     (sum_vec, count_vec) \<leftarrow> neon_loop sd (vdupq_n_s64 limit_price) (vdupq_n_s64 1) levels vec_end 0
       (vdupq_n_s64 0) (vdupq_n_s64 0);
     total \<leftarrow> checked_add (fst sum_vec) (snd sum_vec);
     count \<leftarrow> checked_add (fst count_vec) (snd count_vec);
     scan_loop sd limit_price levels n vec_end \<lparr>total_quantity = total, hit_count = raw count\<rparr>
   }"

subsection \<open>AVX2: four lanes\<close>

type_synonym m256i = "int64 \<times> int64 \<times> int64 \<times> int64"

fun mm256_add_epi64 :: "m256i \<Rightarrow> m256i \<Rightarrow> m256i" where
  "mm256_add_epi64 (a0, a1, a2, a3) (b0, b1, b2, b3) = (a0 + b0, a1 + b1, a2 + b2, a3 + b3)"

fun mm256_and_si256 :: "m256i \<Rightarrow> m256i \<Rightarrow> m256i" where
  "mm256_and_si256 (a0, a1, a2, a3) (b0, b1, b2, b3) =
     (lane_and a0 b0, lane_and a1 b1, lane_and a2 b2, lane_and a3 b3)"

definition lane_xor :: "int64 \<Rightarrow> int64 \<Rightarrow> int64" where
  "lane_xor a b = Int64 (raw a XOR raw b)"

fun mm256_xor_si256 :: "m256i \<Rightarrow> m256i \<Rightarrow> m256i" where
  "mm256_xor_si256 (a0, a1, a2, a3) (b0, b1, b2, b3) =
     (lane_xor a0 b0, lane_xor a1 b1, lane_xor a2 b2, lane_xor a3 b3)"

fun mm256_cmpgt_epi64 :: "m256i \<Rightarrow> m256i \<Rightarrow> m256i" where
  "mm256_cmpgt_epi64 (a0, a1, a2, a3) (b0, b1, b2, b3) =
     (lane_mask (a0 > b0), lane_mask (a1 > b1), lane_mask (a2 > b2), lane_mask (a3 > b3))"

fun mm256_cmpeq_epi64 :: "m256i \<Rightarrow> m256i \<Rightarrow> m256i" where
  "mm256_cmpeq_epi64 (a0, a1, a2, a3) (b0, b1, b2, b3) =
     (lane_mask (a0 = b0), lane_mask (a1 = b1), lane_mask (a2 = b2), lane_mask (a3 = b3))"

definition mm256_set1_epi64x :: "int64 \<Rightarrow> m256i" where
  "mm256_set1_epi64x x = (x, x, x, x)"

fun mm256_unpacklo_epi64 :: "m256i \<Rightarrow> m256i \<Rightarrow> m256i" where
  "mm256_unpacklo_epi64 (a0, a1, a2, a3) (b0, b1, b2, b3) = (a0, b0, a2, b2)"

fun mm256_unpackhi_epi64 :: "m256i \<Rightarrow> m256i \<Rightarrow> m256i" where
  "mm256_unpackhi_epi64 (a0, a1, a2, a3) (b0, b1, b2, b3) = (a1, b1, a3, b3)"

text \<open>\<open>_mm256_loadu_si256\<close> at \<open>levels + i\<close>: two levels, as price, quantity, price, quantity.\<close>

definition mm256_loadu :: "ScanLevel list \<Rightarrow> nat \<Rightarrow> m256i option" where
  "mm256_loadu levels i = do {
     l0 \<leftarrow> level_at levels i;
     l1 \<leftarrow> level_at levels (i + 1);
     Some (scan_price l0, scan_quantity l0, scan_price l1, scan_quantity l1)
   }"

function avx2_loop ::
  "side \<Rightarrow> m256i \<Rightarrow> m256i \<Rightarrow> ScanLevel list \<Rightarrow> nat \<Rightarrow> nat \<Rightarrow> m256i \<Rightarrow> m256i \<Rightarrow> (m256i \<times> m256i) option" where
  "avx2_loop sd limit_vec ones_vec levels vec_end i sum_vec count_vec =
     (if i < vec_end
      then do {
        lo \<leftarrow> mm256_loadu levels i;
        hi \<leftarrow> mm256_loadu levels (i + 2);
        let prices = mm256_unpacklo_epi64 lo hi;
        let quantities = mm256_unpackhi_epi64 lo hi;
        let all_ones = mm256_cmpeq_epi64 prices prices;
        let mask = (if sd = Buy then mm256_xor_si256 (mm256_cmpgt_epi64 prices limit_vec) all_ones
                    else mm256_xor_si256 (mm256_cmpgt_epi64 limit_vec prices) all_ones);
        avx2_loop sd limit_vec ones_vec levels vec_end (i + 4)
          (mm256_add_epi64 sum_vec (mm256_and_si256 mask quantities))
          (mm256_add_epi64 count_vec (mm256_and_si256 mask ones_vec))
      }
      else Some (sum_vec, count_vec))"
  by pat_completeness auto
termination by (relation "measure (\<lambda>(sd, lim, ones, ls, e, i, s, c). e - i)") auto

fun add_lanes :: "m256i \<Rightarrow> int64 option" where
  "add_lanes (a0, a1, a2, a3) = do {
     s1 \<leftarrow> checked_add a0 a1;
     s2 \<leftarrow> checked_add s1 a2;
     checked_add s2 a3
   }"

definition scan_quantity_at_or_better_avx2 ::
  "ScanLevel list \<Rightarrow> nat \<Rightarrow> Price \<Rightarrow> side \<Rightarrow> ScanResult option" where
  "scan_quantity_at_or_better_avx2 levels n limit_price sd = do {
     let vec_end = n - n mod 4;
     (sum_vec, count_vec) \<leftarrow> avx2_loop sd (mm256_set1_epi64x limit_price) (mm256_set1_epi64x 1)
       levels vec_end 0 (mm256_set1_epi64x 0) (mm256_set1_epi64x 0);
     total \<leftarrow> add_lanes sum_vec;
     count \<leftarrow> add_lanes count_vec;
     scan_loop sd limit_price levels n vec_end \<lparr>total_quantity = total, hit_count = raw count\<rparr>
   }"

subsection \<open>The dispatcher\<close>

text \<open>The macros the dispatcher tests: NEON or AArch64, and AVX2.\<close>

record target =
  has_neon :: bool
  has_avx2 :: bool

definition scan_quantity_at_or_better ::
  "target \<Rightarrow> ScanLevel list \<Rightarrow> nat \<Rightarrow> Price \<Rightarrow> side \<Rightarrow> ScanResult option" where
  "scan_quantity_at_or_better t levels n limit_price sd =
     (if has_neon t then scan_quantity_at_or_better_neon levels n limit_price sd
      else if has_avx2 t then scan_quantity_at_or_better_avx2 levels n limit_price sd
      else scan_quantity_at_or_better_scalar levels n limit_price sd)"

declare scan_loop.simps [simp del] neon_loop.simps [simp del] avx2_loop.simps [simp del]

end
