(* ===== verification/Scan_Properties.thy ===== *)
theory Scan_Properties
  imports Price_Scan
begin

unbundle bit_operations_syntax

section \<open>The vector scans compute what the scalar scan computes\<close>

text \<open>
  The reference is a plain sum over the levels that are at or better than the limit, in the ring
  of 64-bit values (\<open>hit_sum\<close>) and as an integer (\<open>hit_total\<close>).  Lane accumulators hold partial
  sums of it in another order; the ring sum does not depend on the order, the definedness of the
  signed additions does.
\<close>

definition hit :: "side \<Rightarrow> Price \<Rightarrow> ScanLevel list \<Rightarrow> nat \<Rightarrow> bool" where
  "hit sd limit_price levels j = at_or_better sd limit_price (scan_price (levels ! j))"

definition hit_quantity :: "side \<Rightarrow> Price \<Rightarrow> ScanLevel list \<Rightarrow> nat \<Rightarrow> int64" where
  "hit_quantity sd limit_price levels j =
     (if hit sd limit_price levels j then scan_quantity (levels ! j) else 0)"

definition hit_one :: "side \<Rightarrow> Price \<Rightarrow> ScanLevel list \<Rightarrow> nat \<Rightarrow> int64" where
  "hit_one sd limit_price levels j = (if hit sd limit_price levels j then 1 else 0)"

definition hit_total :: "side \<Rightarrow> Price \<Rightarrow> ScanLevel list \<Rightarrow> nat \<Rightarrow> int" where
  "hit_total sd limit_price levels n = (\<Sum>j<n. val (hit_quantity sd limit_price levels j))"

definition hits :: "side \<Rightarrow> Price \<Rightarrow> ScanLevel list \<Rightarrow> nat \<Rightarrow> nat" where
  "hits sd limit_price levels n = length (filter (hit sd limit_price levels) [0..<n])"

text \<open>
  The condition for exactness.  Negative quantities are allowed; it is the absolute values of the
  matching quantities whose sum has to fit.
\<close>

definition levels_ok :: "side \<Rightarrow> Price \<Rightarrow> ScanLevel list \<Rightarrow> nat \<Rightarrow> bool" where
  "levels_ok sd limit_price levels n \<longleftrightarrow> n \<le> length levels \<and> n < 2 ^ 63 \<and>
     (\<Sum>j<n. \<bar>val (hit_quantity sd limit_price levels j)\<bar>) < 2 ^ 63"

lemma levels_ok_nonneg:
  assumes "n \<le> length levels" and "n < 2 ^ 63" and "\<forall>j<n. 0 \<le> scan_quantity (levels ! j)"
    and "hit_total sd limit_price levels n < 2 ^ 63"
  shows "levels_ok sd limit_price levels n"
proof -
  have "\<bar>val (hit_quantity sd limit_price levels j)\<bar> = val (hit_quantity sd limit_price levels j)" if "j < n" for j
    using assms(3) that by (simp add: hit_quantity_def less_eq_int64_def)
  with assms show ?thesis by (simp add: levels_ok_def hit_total_def)
qed

subsection \<open>Lanes\<close>

lemma lane_and_mask [simp]: "lane_and (lane_mask c) x = (if c then x else 0)"
  by (simp add: lane_and_def lane_mask_def zero_int64_def)

lemma lane_not [simp]: "lane_xor (lane_mask c) (lane_mask True) = lane_mask (\<not> c)"
  by (simp add: lane_xor_def lane_mask_def)

text \<open>The two-lane loop, \<open>m\<close> rounds from index \<open>i\<close> on.\<close>

lemma neon_loop_lanes:
  assumes "i + 2 * m \<le> length levels"
  shows "neon_loop sd (vdupq_n_s64 lim) (vdupq_n_s64 1) levels (i + 2 * m) i (s0, s1) (c0, c1) =
    Some ((s0 + (\<Sum>k<m. hit_quantity sd lim levels (i + 2 * k)),
           s1 + (\<Sum>k<m. hit_quantity sd lim levels (i + 2 * k + 1))),
          (c0 + (\<Sum>k<m. hit_one sd lim levels (i + 2 * k)),
           c1 + (\<Sum>k<m. hit_one sd lim levels (i + 2 * k + 1))))"
  using assms
proof (induction m arbitrary: i s0 s1 c0 c1)
  case 0
  then show ?case by (simp add: neon_loop.simps)
next
  case (Suc m)
  let ?h = "hit sd lim levels"
  have ld: "vld2q_s64 levels i = Some ((scan_price (levels ! i), scan_price (levels ! (i + 1))),
      (scan_quantity (levels ! i), scan_quantity (levels ! (i + 1))))"
    using Suc.prems by (simp add: vld2q_s64_def level_at_def)
  have step: "neon_loop sd (vdupq_n_s64 lim) (vdupq_n_s64 1) levels (i + 2 * Suc m) i (s0, s1) (c0, c1) =
    neon_loop sd (vdupq_n_s64 lim) (vdupq_n_s64 1) levels (i + 2 + 2 * m) (i + 2)
      (s0 + hit_quantity sd lim levels i, s1 + hit_quantity sd lim levels (i + 1))
      (c0 + hit_one sd lim levels i, c1 + hit_one sd lim levels (i + 1))"
    by (subst neon_loop.simps)
      (cases sd; simp add: ld Let_def vdupq_n_s64_def hit_quantity_def hit_one_def hit_def at_or_better_def)
  have "i + 2 + 2 * m \<le> length levels" using Suc.prems by simp
  from Suc.IH [OF this] show ?case
    unfolding step by (simp add: sum.lessThan_Suc_shift algebra_simps del: sum.lessThan_Suc)
qed

text \<open>The four-lane loop: lanes 0, 2, 1, 3 of each group, by the unpacking.\<close>

lemma avx2_loop_lanes:
  assumes "i + 4 * m \<le> length levels"
  shows "avx2_loop sd (mm256_set1_epi64x lim) (mm256_set1_epi64x 1) levels (i + 4 * m) i
      (s0, s1, s2, s3) (c0, c1, c2, c3) =
    Some ((s0 + (\<Sum>k<m. hit_quantity sd lim levels (i + 4 * k)),
           s1 + (\<Sum>k<m. hit_quantity sd lim levels (i + 4 * k + 2)),
           s2 + (\<Sum>k<m. hit_quantity sd lim levels (i + 4 * k + 1)),
           s3 + (\<Sum>k<m. hit_quantity sd lim levels (i + 4 * k + 3))),
          (c0 + (\<Sum>k<m. hit_one sd lim levels (i + 4 * k)),
           c1 + (\<Sum>k<m. hit_one sd lim levels (i + 4 * k + 2)),
           c2 + (\<Sum>k<m. hit_one sd lim levels (i + 4 * k + 1)),
           c3 + (\<Sum>k<m. hit_one sd lim levels (i + 4 * k + 3))))"
  using assms
proof (induction m arbitrary: i s0 s1 s2 s3 c0 c1 c2 c3)
  case 0
  then show ?case by (simp add: avx2_loop.simps)
next
  case (Suc m)
  have ld: "mm256_loadu levels i = Some (scan_price (levels ! i), scan_quantity (levels ! i),
      scan_price (levels ! (i + 1)), scan_quantity (levels ! (i + 1)))"
    "mm256_loadu levels (i + 2) = Some (scan_price (levels ! (i + 2)), scan_quantity (levels ! (i + 2)),
      scan_price (levels ! (i + 3)), scan_quantity (levels ! (i + 3)))"
    using Suc.prems by (simp_all add: mm256_loadu_def level_at_def numeral_3_eq_3)
  have step: "avx2_loop sd (mm256_set1_epi64x lim) (mm256_set1_epi64x 1) levels (i + 4 * Suc m) i
      (s0, s1, s2, s3) (c0, c1, c2, c3) =
    avx2_loop sd (mm256_set1_epi64x lim) (mm256_set1_epi64x 1) levels (i + (4 + 4 * m)) (i + 4)
      (s0 + hit_quantity sd lim levels i, s1 + hit_quantity sd lim levels (i + 2),
       s2 + hit_quantity sd lim levels (i + 1), s3 + hit_quantity sd lim levels (i + 3))
      (c0 + hit_one sd lim levels i, c1 + hit_one sd lim levels (i + 2),
       c2 + hit_one sd lim levels (i + 1), c3 + hit_one sd lim levels (i + 3))"
    by (subst avx2_loop.simps)
      (cases sd; simp add: ld [simplified] Let_def mm256_set1_epi64x_def hit_quantity_def hit_one_def hit_def
        at_or_better_def not_less not_le)
  have "i + 4 + 4 * m \<le> length levels" using Suc.prems by simp
  from Suc.IH [OF this] show ?case
    unfolding step add.assoc [of i 4, symmetric]
    by (simp add: sum.lessThan_Suc_shift algebra_simps del: sum.lessThan_Suc)
qed

lemma sum_two_lanes:
  fixes f :: "nat \<Rightarrow> 'a::comm_monoid_add"
  shows "(\<Sum>k<m. f (2 * k)) + (\<Sum>k<m. f (2 * k + 1)) = (\<Sum>j<2 * m. f j)"
  by (induction m) (simp_all add: ac_simps)

lemma sum_four_lanes:
  fixes f :: "nat \<Rightarrow> 'a::comm_monoid_add"
  shows "(\<Sum>k<m. f (4 * k)) + (\<Sum>k<m. f (4 * k + 2)) + (\<Sum>k<m. f (4 * k + 1)) + (\<Sum>k<m. f (4 * k + 3))
    = (\<Sum>j<4 * m. f j)"
  by (induction m) (simp_all add: ac_simps numeral_eq_Suc)

subsection \<open>When sums are exact\<close>

lemma in_int64_abs: "\<bar>x\<bar> < 2 ^ 63 \<Longrightarrow> in_int64 x"
  by (auto simp: in_int64_def)

lemma val_sum:
  assumes "finite A" and "(\<Sum>k\<in>A. \<bar>val (f k)\<bar>) < 2 ^ 63"
  shows "val (\<Sum>k\<in>A. f k) = (\<Sum>k\<in>A. val (f k))"
  using assms
proof (induction A rule: finite_induct)
  case (insert a A)
  have v: "val (\<Sum>k\<in>A. f k) = (\<Sum>k\<in>A. val (f k))"
    using insert by simp
  have "\<bar>\<Sum>k\<in>insert a A. val (f k)\<bar> < 2 ^ 63"
    using order.strict_trans1 [OF sum_abs insert.prems] .
  then have "in_int64 (val (f a) + val (\<Sum>k\<in>A. f k))"
    using insert.hyps by (intro in_int64_abs) (simp add: v)
  then show ?case using insert.hyps by (simp add: val_add v)
qed simp

text \<open>Every \<open>s\<close>-th element, from the one at \<open>r\<close> on.\<close>

lemma stride_le:
  fixes g :: "nat \<Rightarrow> int"
  assumes "r < s" and "s * m \<le> n" and "\<forall>j. 0 \<le> g j"
  shows "(\<Sum>k<m. g (s * k + r)) \<le> (\<Sum>j<n. g j)"
proof -
  have "inj_on (\<lambda>k. s * k + r) {..<m}" using assms(1) by (auto simp: inj_on_def)
  then have "(\<Sum>k<m. g (s * k + r)) = (\<Sum>j\<in>(\<lambda>k. s * k + r) ` {..<m}. g j)" by (simp add: sum.reindex)
  also have "\<dots> \<le> (\<Sum>j<n. g j)"
  proof (rule sum_mono2)
    have "s * k + r < n" if "k < m" for k
    proof -
      have "s * k + r < s * Suc k" using assms(1) by simp
      also have "\<dots> \<le> s * m" using that by (intro mult_le_mono2) simp
      finally show ?thesis using assms(2) by simp
    qed
    then show "(\<lambda>k. s * k + r) ` {..<m} \<subseteq> {..<n}" by auto
  qed (use assms(3) in auto)
  finally show ?thesis .
qed

lemma prefix_le:
  fixes g :: "nat \<Rightarrow> int"
  assumes "m \<le> n" and "\<forall>j. 0 \<le> g j"
  shows "(\<Sum>j<m. g j) \<le> (\<Sum>j<n. g j)"
  using assms by (intro sum_mono2) auto

text \<open>Lane accumulators, and adding up two or four of them, where all partial sums fit.\<close>

lemma lane_val:
  fixes f :: "nat \<Rightarrow> int64"
  assumes "(\<Sum>j<n. \<bar>val (f j)\<bar>) < 2 ^ 63" and "r < s" and "s * m \<le> n"
  shows "val (\<Sum>k<m. f (s * k + r)) = (\<Sum>k<m. val (f (s * k + r)))"
  using stride_le [of r s m n "\<lambda>j. \<bar>val (f j)\<bar>"] assms by (intro val_sum) auto

lemma checked_add_fits:
  assumes "in_int64 (val a + val b)"
  shows "checked_add a b = Some (a + b)" and "val (a + b) = val a + val b"
  using assms by (simp_all add: checked_add_def val_add)

lemma add_lanes_fits:
  assumes "in_int64 (val a + val b)" and "in_int64 (val a + val b + val c)"
    and "in_int64 (val a + val b + val c + val d)"
  shows "add_lanes (a, b, c, d) = Some (a + b + c + d)"
  using assms by (simp add: checked_add_fits)

lemma two_lanes:
  fixes f :: "nat \<Rightarrow> int64" and m :: nat
  defines "L \<equiv> \<lambda>r. val (\<Sum>k<m. f (2 * k + r))"
  assumes "(\<Sum>j<n. \<bar>val (f j)\<bar>) < 2 ^ 63" and "2 * m \<le> n"
  shows "in_int64 (L 0 + L 1)"
proof -
  let ?A = "\<lambda>r. \<Sum>k<m. \<bar>val (f (2 * k + r))\<bar>"
  have L: "\<bar>L r\<bar> \<le> ?A r" if "r < 2" for r
    using lane_val [of f n r 2 m] assms(2,3) that sum_abs [of "\<lambda>k. val (f (2 * k + r))" "{..<m}"]
    by (simp add: L_def)
  have "?A 0 + ?A 1 \<le> (\<Sum>j<n. \<bar>val (f j)\<bar>)"
    using sum_two_lanes [of "\<lambda>j. \<bar>val (f j)\<bar>" m] prefix_le [OF assms(3), of "\<lambda>j. \<bar>val (f j)\<bar>"] by simp
  moreover have "\<bar>L 0\<bar> \<le> ?A 0" "\<bar>L 1\<bar> \<le> ?A 1"
    by (rule L; simp)+
  ultimately show ?thesis using assms(2) by (intro in_int64_abs) linarith
qed

lemma four_lanes:
  fixes f :: "nat \<Rightarrow> int64" and m :: nat
  defines "L \<equiv> \<lambda>r. val (\<Sum>k<m. f (4 * k + r))"
  assumes "(\<Sum>j<n. \<bar>val (f j)\<bar>) < 2 ^ 63" and "4 * m \<le> n"
  shows "in_int64 (L 0 + L 2) \<and> in_int64 (L 0 + L 2 + L 1) \<and> in_int64 (L 0 + L 2 + L 1 + L 3)"
proof -
  let ?A = "\<lambda>r. \<Sum>k<m. \<bar>val (f (4 * k + r))\<bar>"
  have L: "\<bar>L r\<bar> \<le> ?A r" if "r < 4" for r
    using lane_val [of f n r 4 m] assms(2,3) that sum_abs [of "\<lambda>k. val (f (4 * k + r))" "{..<m}"]
    by (simp add: L_def)
  have "?A 0 + ?A 2 + ?A 1 + ?A 3 \<le> (\<Sum>j<n. \<bar>val (f j)\<bar>)"
    using sum_four_lanes [of "\<lambda>j. \<bar>val (f j)\<bar>" m] prefix_le [OF assms(3), of "\<lambda>j. \<bar>val (f j)\<bar>"] by simp
  moreover have "\<bar>L 0\<bar> \<le> ?A 0" "\<bar>L 2\<bar> \<le> ?A 2" "\<bar>L 1\<bar> \<le> ?A 1" "\<bar>L 3\<bar> \<le> ?A 3"
    by (rule L; simp)+
  ultimately show ?thesis using assms(2) by (intro conjI in_int64_abs) linarith+
qed

subsection \<open>The loop over single levels\<close>

lemma scan_loop_bits:
  assumes "scan_loop sd lim levels n i res = Some res'" and "i \<le> n" and "n \<le> length levels"
  shows "total_quantity res' = total_quantity res + (\<Sum>j = i..<n. hit_quantity sd lim levels j) \<and>
    hit_count res' = hit_count res + raw (\<Sum>j = i..<n. hit_one sd lim levels j)"
  using assms
proof (induction "n - i" arbitrary: i res)
  case 0
  then show ?case by (simp add: scan_loop.simps)
next
  case (Suc m)
  then have i: "i < n" "level_at levels i = Some (levels ! i)" "m = n - Suc i" "Suc i \<le> n"
    by (simp_all add: level_at_def)
  obtain r where r: "scan_loop sd lim levels n (Suc i) r = Some res'"
    "total_quantity r = total_quantity res + hit_quantity sd lim levels i"
    "hit_count r = hit_count res + raw (hit_one sd lim levels i)"
    using Suc.prems(1) i(1,2) by (subst (asm) scan_loop.simps)
      (auto simp: checked_add_def hit_quantity_def hit_one_def hit_def split: if_splits)
  from Suc.hyps(1) [OF i(3) r(1) i(4) Suc.prems(3)] r(2,3) i(1) show ?case
    by (simp add: sum.atLeast_Suc_lessThan algebra_simps)
qed

lemma totals_step:
  fixes q :: "nat \<Rightarrow> int"
  assumes "i < n" and "in_int64 t"
  shows "(\<forall>k. i \<le> k \<longrightarrow> k \<le> n \<longrightarrow> in_int64 (t + (\<Sum>j = i..<k. q j))) \<longleftrightarrow>
    in_int64 (t + q i) \<and> (\<forall>k. Suc i \<le> k \<longrightarrow> k \<le> n \<longrightarrow> in_int64 (t + q i + (\<Sum>j = Suc i..<k. q j)))"
    (is "?all \<longleftrightarrow> ?fst \<and> ?rest")
proof -
  have split: "(\<Sum>j = i..<k. q j) = q i + (\<Sum>j = Suc i..<k. q j)" if "Suc i \<le> k" for k
    using that by (simp add: sum.atLeast_Suc_lessThan)
  have "?all \<longleftrightarrow> (\<forall>k. Suc i \<le> k \<longrightarrow> k \<le> n \<longrightarrow> in_int64 (t + (\<Sum>j = i..<k. q j)))"
    by (metis Suc_leI add_0_right assms(2) atLeastLessThan_empty le_eq_less_or_eq order_refl Suc_leD sum.empty)
  also have "\<dots> \<longleftrightarrow> ?rest" using split by (simp add: add.assoc)
  also have "\<dots> \<longleftrightarrow> ?fst \<and> ?rest" using assms(1) by auto
  finally show ?thesis .
qed

text \<open>The loop returns exactly when every total on the way fits.\<close>

lemma scan_loop_defined:
  assumes "i \<le> n" and "n \<le> length levels"
  shows "scan_loop sd lim levels n i res \<noteq> None \<longleftrightarrow>
    (\<forall>k. i \<le> k \<longrightarrow> k \<le> n \<longrightarrow>
       in_int64 (val (total_quantity res) + (\<Sum>j = i..<k. val (hit_quantity sd lim levels j))))"
  using assms
proof (induction "n - i" arbitrary: i res)
  case 0
  then show ?case by (simp add: scan_loop.simps)
next
  case (Suc m)
  then have i: "i < n" "level_at levels i = Some (levels ! i)" "m = n - Suc i" "Suc i \<le> n"
    by (simp_all add: level_at_def)
  let ?q = "\<lambda>j. val (hit_quantity sd lim levels j)" and ?t = "val (total_quantity res)"
  note later = totals_step [OF i(1) in_int64_val [of "total_quantity res"], of ?q]
  show ?case
  proof (cases "hit sd lim levels i")
    case True
    then have hq: "hit_quantity sd lim levels i = scan_quantity (levels ! i)" by (simp add: hit_quantity_def)
    let ?r = "\<lparr>total_quantity = total_quantity res + scan_quantity (levels ! i), hit_count = hit_count res + 1\<rparr>"
    show ?thesis
    proof (cases "in_int64 (?t + ?q i)")
      case fits: True
      then have "scan_loop sd lim levels n i res = scan_loop sd lim levels n (Suc i) ?r"
        using True i checked_add_fits(1) [OF fits] unfolding hq by (subst scan_loop.simps) (simp add: hit_def)
      moreover have "val (total_quantity ?r) = ?t + ?q i" using checked_add_fits(2) [OF fits] by (simp add: hq)
      ultimately show ?thesis
        unfolding later using Suc.hyps(1) [OF i(3,4) Suc.prems(2), of ?r] fits by simp
    next
      case False
      then have "scan_loop sd lim levels n i res = None"
        using True i unfolding hq by (subst scan_loop.simps) (simp add: hit_def checked_add_def)
      then show ?thesis using False unfolding later by simp
    qed
  next
    case False
    then have "hit_quantity sd lim levels i = 0" "scan_loop sd lim levels n i res = scan_loop sd lim levels n (Suc i) res"
      using i by (simp add: hit_quantity_def) (subst scan_loop.simps, use False i in \<open>simp add: hit_def\<close>)
    then show ?thesis
      unfolding later using Suc.hyps(1) [OF i(3,4) Suc.prems(2), of res] by simp
  qed
qed

subsection \<open>Each implementation: its bits when it returns, and when it returns\<close>

abbreviation quantity_bits :: "side \<Rightarrow> Price \<Rightarrow> ScanLevel list \<Rightarrow> nat \<Rightarrow> int64" where
  "quantity_bits sd lim levels n \<equiv> \<Sum>j<n. hit_quantity sd lim levels j"

abbreviation count_bits :: "side \<Rightarrow> Price \<Rightarrow> ScanLevel list \<Rightarrow> nat \<Rightarrow> int64" where
  "count_bits sd lim levels n \<equiv> \<Sum>j<n. hit_one sd lim levels j"

definition scan_bits :: "side \<Rightarrow> Price \<Rightarrow> ScanLevel list \<Rightarrow> nat \<Rightarrow> ScanResult" where
  "scan_bits sd lim levels n =
     \<lparr>total_quantity = quantity_bits sd lim levels n, hit_count = raw (count_bits sd lim levels n)\<rparr>"

lemma sum_upto_split:
  fixes f :: "nat \<Rightarrow> 'a::comm_monoid_add"
  assumes "e \<le> n" shows "(\<Sum>j<e. f j) + (\<Sum>j = e..<n. f j) = (\<Sum>j<n. f j)"
  using assms sum.atLeastLessThan_concat [of 0 e n f] by (simp add: lessThan_atLeast0)

text \<open>The scalar tail after a vector part that summed the first \<open>e\<close> levels.\<close>

lemma scan_tail:
  assumes "e \<le> n" and "n \<le> length levels" and "t = quantity_bits sd lim levels e"
    and "c = raw (count_bits sd lim levels e)"
    and "scan_loop sd lim levels n e \<lparr>total_quantity = t, hit_count = c\<rparr> = Some res"
  shows "res = scan_bits sd lim levels n"
proof -
  have "raw (count_bits sd lim levels e) + raw (\<Sum>j = e..<n. hit_one sd lim levels j)
      = raw (count_bits sd lim levels n)"
    unfolding raw_arith(3) [symmetric] sum_upto_split [OF assms(1)] by (rule refl)
  with scan_loop_bits [OF assms(5,1,2)] show ?thesis
    by (cases res) (simp add: scan_bits_def assms(3,4) sum_upto_split [OF assms(1)])
qed

lemma scalar_bits:
  assumes "n \<le> length levels" and "scan_quantity_at_or_better_scalar levels n lim sd = Some res"
  shows "res = scan_bits sd lim levels n"
  using assms scan_tail [of 0 n levels 0 sd lim 0 res]
  by (simp add: scan_quantity_at_or_better_scalar_def no_result_def)

lemma neon_parts:
  assumes "n \<le> length levels" and "m = n div 2"
  shows "scan_quantity_at_or_better_neon levels n lim sd = do {
     total \<leftarrow> checked_add (\<Sum>k<m. hit_quantity sd lim levels (2 * k)) (\<Sum>k<m. hit_quantity sd lim levels (2 * k + 1));
     count \<leftarrow> checked_add (\<Sum>k<m. hit_one sd lim levels (2 * k)) (\<Sum>k<m. hit_one sd lim levels (2 * k + 1));
     scan_loop sd lim levels n (2 * m) \<lparr>total_quantity = total, hit_count = raw count\<rparr>
   }"
proof -
  have e: "n - n mod 2 = 2 * m" using assms(2) by presburger
  have "0 + 2 * m \<le> length levels" using assms by auto
  from neon_loop_lanes [OF this, of sd lim 0 0 0 0] show ?thesis
    unfolding scan_quantity_at_or_better_neon_def e Let_def
    by (simp add: vdupq_n_s64_def cong: option.case_cong)
qed

lemma avx2_parts:
  assumes "n \<le> length levels" and "m = n div 4"
  shows "scan_quantity_at_or_better_avx2 levels n lim sd = do {
     total \<leftarrow> add_lanes (\<Sum>k<m. hit_quantity sd lim levels (4 * k), \<Sum>k<m. hit_quantity sd lim levels (4 * k + 2),
       \<Sum>k<m. hit_quantity sd lim levels (4 * k + 1), \<Sum>k<m. hit_quantity sd lim levels (4 * k + 3));
     count \<leftarrow> add_lanes (\<Sum>k<m. hit_one sd lim levels (4 * k), \<Sum>k<m. hit_one sd lim levels (4 * k + 2),
       \<Sum>k<m. hit_one sd lim levels (4 * k + 1), \<Sum>k<m. hit_one sd lim levels (4 * k + 3));
     scan_loop sd lim levels n (4 * m) \<lparr>total_quantity = total, hit_count = raw count\<rparr>
   }"
proof -
  have e: "n - n mod 4 = 4 * m" using assms(2) by presburger
  have "0 + 4 * m \<le> length levels" using assms by auto
  from avx2_loop_lanes [OF this, of sd lim 0 0 0 0 0 0 0 0] show ?thesis
    unfolding scan_quantity_at_or_better_avx2_def e Let_def
    by (simp add: mm256_set1_epi64x_def)
qed

lemma checked_add_Some: "checked_add a b = Some c \<Longrightarrow> c = a + b"
  by (simp add: checked_add_def split: if_splits)

lemma add_lanes_Some: "add_lanes (a, b, c, d) = Some t \<Longrightarrow> t = a + b + c + d"
  by (auto simp: bind_Some_iff dest!: checked_add_Some)

lemma neon_bits:
  assumes "n \<le> length levels" and "scan_quantity_at_or_better_neon levels n lim sd = Some res"
  shows "res = scan_bits sd lim levels n"
proof -
  define m where "m = n div 2"
  have le: "2 * m \<le> n" by (simp add: m_def)
  obtain total count where t:
    "checked_add (\<Sum>k<m. hit_quantity sd lim levels (2 * k)) (\<Sum>k<m. hit_quantity sd lim levels (2 * k + 1)) = Some total"
    "checked_add (\<Sum>k<m. hit_one sd lim levels (2 * k)) (\<Sum>k<m. hit_one sd lim levels (2 * k + 1)) = Some count"
    "scan_loop sd lim levels n (2 * m) \<lparr>total_quantity = total, hit_count = raw count\<rparr> = Some res"
    using assms(2) unfolding neon_parts [OF assms(1) m_def] by (auto simp: bind_Some_iff)
  have "total = quantity_bits sd lim levels (2 * m)"
    unfolding checked_add_Some [OF t(1)] by (rule sum_two_lanes)
  moreover have "raw count = raw (count_bits sd lim levels (2 * m))"
    unfolding checked_add_Some [OF t(2)] sum_two_lanes by (rule refl)
  ultimately show ?thesis by (rule scan_tail [OF le assms(1) _ _ t(3)])
qed

lemma avx2_bits:
  assumes "n \<le> length levels" and "scan_quantity_at_or_better_avx2 levels n lim sd = Some res"
  shows "res = scan_bits sd lim levels n"
proof -
  define m where "m = n div 4"
  have le: "4 * m \<le> n" by (simp add: m_def)
  obtain total count where t:
    "add_lanes (\<Sum>k<m. hit_quantity sd lim levels (4 * k), \<Sum>k<m. hit_quantity sd lim levels (4 * k + 2),
       \<Sum>k<m. hit_quantity sd lim levels (4 * k + 1), \<Sum>k<m. hit_quantity sd lim levels (4 * k + 3)) = Some total"
    "add_lanes (\<Sum>k<m. hit_one sd lim levels (4 * k), \<Sum>k<m. hit_one sd lim levels (4 * k + 2),
       \<Sum>k<m. hit_one sd lim levels (4 * k + 1), \<Sum>k<m. hit_one sd lim levels (4 * k + 3)) = Some count"
    "scan_loop sd lim levels n (4 * m) \<lparr>total_quantity = total, hit_count = raw count\<rparr> = Some res"
    using assms(2) unfolding avx2_parts [OF assms(1) m_def] by (auto simp: bind_Some_iff)
  have "total = quantity_bits sd lim levels (4 * m)"
    unfolding add_lanes_Some [OF t(1)] by (rule sum_four_lanes)
  moreover have "raw count = raw (count_bits sd lim levels (4 * m))"
    unfolding add_lanes_Some [OF t(2)] sum_four_lanes by (rule refl)
  ultimately show ?thesis by (rule scan_tail [OF le assms(1) _ _ t(3)])
qed

lemma dispatch_cases:
  obtains "scan_quantity_at_or_better t = scan_quantity_at_or_better_neon"
  | "scan_quantity_at_or_better t = scan_quantity_at_or_better_avx2"
  | "scan_quantity_at_or_better t = scan_quantity_at_or_better_scalar"
  by (cases "has_neon t"; cases "has_avx2 t") (simp_all add: scan_quantity_at_or_better_def fun_eq_iff)

lemma dispatch_bits:
  assumes "n \<le> length levels" and "scan_quantity_at_or_better t levels n lim sd = Some res"
  shows "res = scan_bits sd lim levels n"
  using assms neon_bits [OF assms(1)] avx2_bits [OF assms(1)] scalar_bits [OF assms(1)]
  by (cases rule: dispatch_cases [of t]) simp_all

text \<open>The numbers of hits always fit; where the absolute values do, every implementation returns.\<close>

lemma hits_total: "(\<Sum>j<n. val (hit_one sd lim levels j)) = int (hits sd lim levels n)"
  by (induction n) (simp_all add: hits_def hit_one_def)

lemma hits_fit:
  assumes "n < 2 ^ 63"
  shows "(\<Sum>j<n. \<bar>val (hit_one sd lim levels j)\<bar>) < 2 ^ 63"
proof -
  have "(\<Sum>j<n. \<bar>val (hit_one sd lim levels j)\<bar>) \<le> (\<Sum>j<n. 1)"
    by (intro sum_mono) (simp add: hit_one_def)
  with assms show ?thesis by simp
qed

lemma levels_okD:
  assumes "levels_ok sd lim levels n"
  shows "n \<le> length levels" and "n < 2 ^ 63" and "(\<Sum>j<n. \<bar>val (hit_quantity sd lim levels j)\<bar>) < 2 ^ 63"
  using assms by (simp_all add: levels_ok_def)

lemma prefix_fits:
  assumes "levels_ok sd lim levels n" and "k \<le> n"
  shows "in_int64 (hit_total sd lim levels k)" and "val (quantity_bits sd lim levels k) = hit_total sd lim levels k"
proof -
  have le: "(\<Sum>j<k. \<bar>val (hit_quantity sd lim levels j)\<bar>) < 2 ^ 63"
    using levels_okD(3) [OF assms(1)] assms(2)
      prefix_le [OF assms(2), of "\<lambda>j. \<bar>val (hit_quantity sd lim levels j)\<bar>"] by simp
  show "in_int64 (hit_total sd lim levels k)"
    unfolding hit_total_def by (rule in_int64_abs [OF order.strict_trans1 [OF sum_abs le]])
  show "val (quantity_bits sd lim levels k) = hit_total sd lim levels k"
    unfolding hit_total_def using le by (intro val_sum) simp_all
qed

lemma tail_defined:
  assumes "levels_ok sd lim levels n" and "e \<le> n"
  shows "\<exists>res. scan_loop sd lim levels n e \<lparr>total_quantity = quantity_bits sd lim levels e, hit_count = c\<rparr> = Some res"
proof -
  have "hit_total sd lim levels e + (\<Sum>j = e..<k. val (hit_quantity sd lim levels j)) = hit_total sd lim levels k"
    if "e \<le> k" for k
    unfolding hit_total_def by (rule sum_upto_split [OF that])
  then have "scan_loop sd lim levels n e \<lparr>total_quantity = quantity_bits sd lim levels e, hit_count = c\<rparr> \<noteq> None"
    using prefix_fits [OF assms(1)] assms(2)
    unfolding scan_loop_defined [OF assms(2) levels_okD(1) [OF assms(1)]] by simp
  then show ?thesis by blast
qed

text \<open>What the lanes hold, wrapped to 64 bits, read as integers.\<close>

definition lane_total :: "side \<Rightarrow> Price \<Rightarrow> ScanLevel list \<Rightarrow> nat \<Rightarrow> nat \<Rightarrow> nat \<Rightarrow> int" where
  "lane_total sd limit_price levels s m r = val (\<Sum>k<m. hit_quantity sd limit_price levels (s * k + r))"

definition tail_fits :: "side \<Rightarrow> Price \<Rightarrow> ScanLevel list \<Rightarrow> nat \<Rightarrow> nat \<Rightarrow> int \<Rightarrow> bool" where
  "tail_fits sd limit_price levels n e acc \<longleftrightarrow>
     (\<forall>k \<in> {e..n}. in_int64 (acc + (\<Sum>j = e..<k. val (hit_quantity sd limit_price levels j))))"

lemma tail_fits_iff:
  assumes "e \<le> n" and "n \<le> length levels" and "val t = acc"
  shows "scan_loop sd lim levels n e \<lparr>total_quantity = t, hit_count = c\<rparr> \<noteq> None \<longleftrightarrow> tail_fits sd lim levels n e acc"
  unfolding scan_loop_defined [OF assms(1,2)] by (auto simp: tail_fits_def assms(3))

lemma neon_defined:
  assumes "n \<le> length levels" and "n < 2 ^ 63"
  shows "scan_quantity_at_or_better_neon levels n lim sd \<noteq> None \<longleftrightarrow>
    (let L = lane_total sd lim levels 2 (n div 2) in
     in_int64 (L 0 + L 1) \<and> tail_fits sd lim levels n (2 * (n div 2)) (L 0 + L 1))"
proof -
  let ?m = "n div 2" and ?f = "hit_quantity sd lim levels" and ?g = "hit_one sd lim levels"
  let ?L = "lane_total sd lim levels 2 ?m"
  have L: "?L 0 = val (\<Sum>k<?m. ?f (2 * k))" "?L 1 = val (\<Sum>k<?m. ?f (2 * k + 1))"
    by (simp_all add: lane_total_def)
  have le: "2 * ?m \<le> n" by simp
  note count = checked_add_fits(1) [OF two_lanes [OF hits_fit [OF assms(2), of sd lim levels] le, unfolded add_0_right]]
  show ?thesis
  proof (cases "in_int64 (?L 0 + ?L 1)")
    case True
    note fits = checked_add_fits [OF True [unfolded L]]
    show ?thesis
      unfolding neon_parts [OF assms(1) refl] fits(1) count Let_def
      using tail_fits_iff [OF le assms(1) fits(2), folded L] True by simp
  next
    case False
    then have "checked_add (\<Sum>k<?m. ?f (2 * k)) (\<Sum>k<?m. ?f (2 * k + 1)) = None"
      unfolding checked_add_def L by simp
    then show ?thesis unfolding neon_parts [OF assms(1) refl] using False by simp
  qed
qed

lemma add_lanes_iff:
  "add_lanes (a, b, c, d) = (if in_int64 (val a + val b) \<and> in_int64 (val a + val b + val c) \<and>
     in_int64 (val a + val b + val c + val d) then Some (a + b + c + d) else None)"
  by (cases "in_int64 (val a + val b)"; cases "in_int64 (val a + val b + val c)")
    (auto simp: checked_add_def val_add)

lemma avx2_defined:
  assumes "n \<le> length levels" and "n < 2 ^ 63"
  shows "scan_quantity_at_or_better_avx2 levels n lim sd \<noteq> None \<longleftrightarrow>
    (let L = lane_total sd lim levels 4 (n div 4) in
     in_int64 (L 0 + L 2) \<and> in_int64 (L 0 + L 2 + L 1) \<and> in_int64 (L 0 + L 2 + L 1 + L 3) \<and>
     tail_fits sd lim levels n (4 * (n div 4)) (L 0 + L 2 + L 1 + L 3))"
proof -
  let ?m = "n div 4" and ?f = "hit_quantity sd lim levels" and ?g = "hit_one sd lim levels"
  let ?L = "lane_total sd lim levels 4 ?m"
  let ?a = "\<Sum>k<?m. ?f (4 * k)" and ?b = "\<Sum>k<?m. ?f (4 * k + 2)" and ?c = "\<Sum>k<?m. ?f (4 * k + 1)"
    and ?d = "\<Sum>k<?m. ?f (4 * k + 3)"
  have L: "?L 0 = val ?a" "?L 2 = val ?b" "?L 1 = val ?c" "?L 3 = val ?d"
    by (simp_all add: lane_total_def)
  have le: "4 * ?m \<le> n" by simp
  obtain t where count: "add_lanes (\<Sum>k<?m. ?g (4 * k), \<Sum>k<?m. ?g (4 * k + 2), \<Sum>k<?m. ?g (4 * k + 1), \<Sum>k<?m. ?g (4 * k + 3)) = Some t"
    using four_lanes [OF hits_fit [OF assms(2), of sd lim levels] le] add_lanes_fits by simp
  show ?thesis
  proof (cases "in_int64 (?L 0 + ?L 2) \<and> in_int64 (?L 0 + ?L 2 + ?L 1) \<and> in_int64 (?L 0 + ?L 2 + ?L 1 + ?L 3)")
    case True
    then have v: "val (?a + ?b + ?c + ?d) = ?L 0 + ?L 2 + ?L 1 + ?L 3"
      unfolding L by (simp add: val_add)
    have add: "add_lanes (?a, ?b, ?c, ?d) = Some (?a + ?b + ?c + ?d)"
      unfolding add_lanes_iff using True [unfolded L] by simp
    show ?thesis
      unfolding avx2_parts [OF assms(1) refl] add count Let_def Option.bind.simps tail_fits_iff [OF le assms(1) v]
      using True by simp
  next
    case False
    then have "add_lanes (?a, ?b, ?c, ?d) = None" unfolding add_lanes_iff L by simp
    then show ?thesis unfolding avx2_parts [OF assms(1) refl] Let_def using False by (auto simp del: add_lanes.simps)
  qed
qed

lemma scalar_defined:
  assumes "n \<le> length levels"
  shows "scan_quantity_at_or_better_scalar levels n lim sd \<noteq> None \<longleftrightarrow>
    (\<forall>k \<in> {0..n}. in_int64 (hit_total sd lim levels k))"
  unfolding scan_quantity_at_or_better_scalar_def no_result_def
  using tail_fits_iff [of 0 n levels 0 0 sd lim 0] assms
  by (simp add: tail_fits_def hit_total_def lessThan_atLeast0)

lemma dispatch_defined:
  assumes "levels_ok sd lim levels n"
  shows "\<exists>res. scan_quantity_at_or_better t levels n lim sd = Some res"
proof (cases rule: dispatch_cases [of t])
  case 1
  note ok = levels_okD [OF assms]
  have le: "2 * (n div 2) \<le> n" by simp
  note fits = two_lanes [OF ok(3) le, unfolded add_0_right]
    two_lanes [OF hits_fit [OF ok(2), of sd lim levels] le, unfolded add_0_right]
  show ?thesis
    unfolding 1 neon_parts [OF ok(1) refl] checked_add_fits(1) [OF fits(1)] checked_add_fits(1) [OF fits(2)] sum_two_lanes
    using tail_defined [OF assms le] by simp
next
  case 2
  note ok = levels_okD [OF assms]
  have le: "4 * (n div 4) \<le> n" by simp
  have sums: "add_lanes (\<Sum>k<n div 4. f (4 * k), \<Sum>k<n div 4. f (4 * k + 2), \<Sum>k<n div 4. f (4 * k + 1), \<Sum>k<n div 4. f (4 * k + 3))
      = Some (\<Sum>j<4 * (n div 4). f j)" if "(\<Sum>j<n. \<bar>val (f j)\<bar>) < 2 ^ 63" for f
    using four_lanes [OF that le] unfolding add_lanes_iff sum_four_lanes [of f, symmetric] by simp
  show ?thesis
    unfolding 2 avx2_parts [OF ok(1) refl] sums [OF ok(3)] sums [OF hits_fit [OF ok(2)]]
    using tail_defined [OF assms le] by simp
next
  case 3
  from tail_defined [OF assms, of 0] show ?thesis
    by (simp add: 3 scan_quantity_at_or_better_scalar_def no_result_def)
qed

lemma scan_bits_exact:
  assumes "levels_ok sd lim levels n"
  shows "val (total_quantity (scan_bits sd lim levels n)) = hit_total sd lim levels n"
    and "hit_count (scan_bits sd lim levels n) = of_nat (hits sd lim levels n)"
proof -
  show "val (total_quantity (scan_bits sd lim levels n)) = hit_total sd lim levels n"
    using prefix_fits(2) [OF assms order.refl] by (simp add: scan_bits_def)
  have "val (count_bits sd lim levels n) = int (hits sd lim levels n)"
    using val_sum [OF _ hits_fit [OF levels_okD(2) [OF assms]]] by (simp add: hits_total)
  then have s: "sint (raw (count_bits sd lim levels n)) = int (hits sd lim levels n)" by (simp add: val_def)
  have "raw (count_bits sd lim levels n) = of_int (sint (raw (count_bits sd lim levels n)))"
    by simp
  also have "\<dots> = of_nat (hits sd lim levels n)" by (simp only: s of_int_of_nat_eq)
  finally show "hit_count (scan_bits sd lim levels n) = of_nat (hits sd lim levels n)"
    by (simp add: scan_bits_def)
qed

subsection \<open>Properties\<close>

text \<open>
  C10: on every target the dispatcher returns the exact answer.  For an array whose matching
  quantities, negative ones included, have absolute values that add up to less than \<open>2 ^ 63\<close>, the scan
  returns the sum of the quantities of the levels at or better than the limit, and their number,
  whichever of the scalar, NEON and AVX2 implementations was compiled in.
\<close>

theorem scan_is_exact:
  assumes "levels_ok sd limit_price levels n"
  shows "\<exists>res. scan_quantity_at_or_better t levels n limit_price sd = Some res \<and>
    val (total_quantity res) = hit_total sd limit_price levels n \<and>
    hit_count res = of_nat (hits sd limit_price levels n)"
proof -
  obtain res where res: "scan_quantity_at_or_better t levels n limit_price sd = Some res"
    using dispatch_defined [OF assms] by blast
  with dispatch_bits [OF levels_okD(1) [OF assms] res] scan_bits_exact [OF assms] show ?thesis by simp
qed

definition five_asks :: "ScanLevel list" where
  "five_asks = map (\<lambda>(p, q). \<lparr>scan_price = p, scan_quantity = q\<rparr>)
     [(100, 7), (101, 2), (103, 5), (104, 1), (90, 4)]"

lemma five_asks_ok: "levels_ok Buy 101 five_asks 5"
proof -
  have "length five_asks = 5" "\<forall>j \<in> set [0..<5]. 0 \<le> scan_quantity (five_asks ! j)"
    "hit_total Buy 101 five_asks 5 = 13"
    by code_simp+
  then show ?thesis by (intro levels_ok_nonneg) simp_all
qed

text \<open>The levels of \<open>test_negative_prices_and_quantities\<close>.\<close>

definition negative_levels :: "ScanLevel list" where
  "negative_levels = map (\<lambda>(p, q). \<lparr>scan_price = p, scan_quantity = q\<rparr>)
     [(- 50, 100), (- 10, - 5), (0, 3), (10, 4), (50, - 1)]"

lemma negative_levels_ok: "levels_ok Sell (- 10) negative_levels 5"
proof -
  have "length negative_levels = 5" by code_simp
  moreover have "(\<Sum>j<5. \<bar>val (hit_quantity Sell (- 10) negative_levels j)\<bar>) = 13" by code_simp
  ultimately show ?thesis by (simp add: levels_ok_def)
qed

theorem scan_is_exact_witness:
  "\<exists>res. scan_quantity_at_or_better \<lparr>has_neon = False, has_avx2 = True\<rparr> negative_levels 5 (- 10) Sell = Some res \<and>
     val (total_quantity res) = 1 \<and> hit_count res = 4"
proof -
  have "hit_total Sell (- 10) negative_levels 5 = 1" "hits Sell (- 10) negative_levels 5 = 4" by code_simp+
  with scan_is_exact [OF negative_levels_ok, of "\<lparr>has_neon = False, has_avx2 = True\<rparr>"] show ?thesis by simp
qed

text \<open>
  The three implementations agree bit for bit wherever they are defined: for any levels,
  negative quantities included, two targets that both return, return the same total and count.
\<close>

theorem targets_agree:
  assumes "n \<le> length levels"
    and "scan_quantity_at_or_better t levels n limit_price sd = Some res"
    and "scan_quantity_at_or_better t' levels n limit_price sd = Some res'"
  shows "res = res'"
  using dispatch_bits [OF assms(1,2)] dispatch_bits [OF assms(1,3)] by simp

theorem targets_agree_witness:
  "\<exists>res res'. scan_quantity_at_or_better \<lparr>has_neon = True, has_avx2 = False\<rparr> five_asks 5 101 Buy = Some res \<and>
     scan_quantity_at_or_better \<lparr>has_neon = False, has_avx2 = False\<rparr> five_asks 5 101 Buy = Some res' \<and> res = res'"
proof -
  let ?r = "\<lparr>total_quantity = 13, hit_count = 3\<rparr>"
  have r: "scan_quantity_at_or_better \<lparr>has_neon = True, has_avx2 = False\<rparr> five_asks 5 101 Buy = Some ?r"
    "scan_quantity_at_or_better \<lparr>has_neon = False, has_avx2 = False\<rparr> five_asks 5 101 Buy = Some ?r"
    "5 \<le> length five_asks"
    by code_simp+
  from targets_agree [OF r(3,1,2)] r(1,2) show ?thesis by blast
qed

text \<open>
  C39: when the signed additions overflow.  For an array of fewer than \<open>2 ^ 63\<close> levels, the scalar scan
  returns exactly when the totals of all its prefixes fit a signed 64-bit value.  The vector versions
  add into lanes, which wrap, and return exactly when adding the lanes, one after the other, and then
  the levels that are left over stays in range at every step.
\<close>

theorem scans_defined_iff:
  assumes "n \<le> length levels" and "n < 2 ^ 63"
  shows "(scan_quantity_at_or_better_scalar levels n limit_price sd \<noteq> None \<longleftrightarrow>
      (\<forall>k \<in> {0..n}. in_int64 (hit_total sd limit_price levels k))) \<and>
    (scan_quantity_at_or_better_neon levels n limit_price sd \<noteq> None \<longleftrightarrow>
      (let L = lane_total sd limit_price levels 2 (n div 2) in
       in_int64 (L 0 + L 1) \<and> tail_fits sd limit_price levels n (2 * (n div 2)) (L 0 + L 1))) \<and>
    (scan_quantity_at_or_better_avx2 levels n limit_price sd \<noteq> None \<longleftrightarrow>
      (let L = lane_total sd limit_price levels 4 (n div 4) in
       in_int64 (L 0 + L 2) \<and> in_int64 (L 0 + L 2 + L 1) \<and> in_int64 (L 0 + L 2 + L 1 + L 3) \<and>
       tail_fits sd limit_price levels n (4 * (n div 4)) (L 0 + L 2 + L 1 + L 3)))"
  by (intro conjI scalar_defined neon_defined avx2_defined assms)

text \<open>
  They are not defined on the same inputs: on these four levels the scalar scan adds up to
  \<open>2 ^ 63 - 1\<close> without an overflow, but the sum of the two NEON lanes does not fit.
\<close>

definition lane_trap :: "ScanLevel list" where
  "lane_trap = map (\<lambda>q. \<lparr>scan_price = 1, scan_quantity = q\<rparr>)
     [Int64 (push_bit 62 1), Int64 (NOT 0), Int64 (push_bit 62 1), 0]"

theorem scans_defined_iff_witness:
  "scan_quantity_at_or_better_scalar lane_trap 4 1 Buy \<noteq> None \<and>
   scan_quantity_at_or_better_neon lane_trap 4 1 Buy = None"
proof -
  have "4 \<le> length lane_trap" by code_simp
  moreover have "\<forall>k \<in> {0..4}. in_int64 (hit_total Buy 1 lane_trap k)" by code_simp
  moreover have "\<not> in_int64 (lane_total Buy 1 lane_trap 2 2 0 + lane_total Buy 1 lane_trap 2 2 1)" by code_simp
  ultimately show ?thesis using scans_defined_iff [of 4 lane_trap 1 Buy] by (simp add: Let_def)
qed

end
