(* ===== verification/Ring_Buffer.thy ===== *)
theory Ring_Buffer
  imports Prelude
begin

unbundle bit_operations_syntax

section \<open>The single-producer single-consumer ring buffer (ring_buffer.hpp)\<close>

text \<open>
  \<open>SpscRingBuffer<T, Capacity>\<close> called from one thread at a time: its two lines of indices, 64-bit
  counters that only ever grow and wrap around, and the array of slots.  A slot index out of the
  array is \<open>None\<close>.  Moving an element out of a slot leaves a moved-from value there, which the
  parameter \<open>moved\<close> gives.  The interface of a bounded queue is the locale \<open>bounded_queue\<close>; the
  ring is an instance for every capacity the class accepts.  Ring_Concurrent runs the same
  statements interleaved.
\<close>

record ProducerLine =
  tail :: size_t
  head_cached :: size_t

record ConsumerLine =
  head :: size_t
  tail_cached :: size_t

record 'a ring =
  producer :: ProducerLine
  consumer :: ConsumerLine
  buffer :: "'a list"

text \<open>The static assertion on \<open>Capacity\<close>, and the slot of a counter.\<close>

definition capacity_ok :: "size_t \<Rightarrow> bool" where
  "capacity_ok cap \<longleftrightarrow> cap > 0 \<and> cap AND (cap - 1) = 0"

definition kMask :: "size_t \<Rightarrow> size_t" where
  "kMask cap = cap - 1"

definition slot :: "size_t \<Rightarrow> size_t \<Rightarrow> nat" where
  "slot cap i = unat (i AND kMask cap)"

definition ring_new :: "size_t \<Rightarrow> 'a \<Rightarrow> 'a ring" where
  "ring_new cap x = \<lparr>producer = \<lparr>tail = 0, head_cached = 0\<rparr>, consumer = \<lparr>head = 0, tail_cached = 0\<rparr>,
     buffer = replicate (unat cap) x\<rparr>"

subsection \<open>Push and pop\<close>

definition write_slot :: "nat \<Rightarrow> 'a \<Rightarrow> 'a list \<Rightarrow> 'a list option" where
  "write_slot i x b = (if i < length b then Some (b[i := x]) else None)"

definition read_slot :: "nat \<Rightarrow> 'a list \<Rightarrow> 'a option" where
  "read_slot i b = (if i < length b then Some (b ! i) else None)"

definition emplace_impl :: "size_t \<Rightarrow> 'a \<Rightarrow> 'a ring \<Rightarrow> (bool \<times> 'a ring) option" where
  "emplace_impl cap item r = do {
     let t = tail (producer r);
     let full = (t - head_cached (producer r) = cap);
     let r1 = (if full then r\<lparr>producer := (producer r)\<lparr>head_cached := head (consumer r)\<rparr>\<rparr> else r);
     if full \<and> t - head_cached (producer r1) = cap
     then Some (False, r1)
     else do {
       b \<leftarrow> write_slot (slot cap t) item (buffer r1);
       Some (True, r1\<lparr>buffer := b, producer := (producer r1)\<lparr>tail := t + 1\<rparr>\<rparr>)
     }
   }"

definition try_push :: "size_t \<Rightarrow> 'a \<Rightarrow> 'a ring \<Rightarrow> (bool \<times> 'a ring) option" where
  "try_push cap item r = emplace_impl cap item r"

text \<open>\<open>try_pop(T& out)\<close> answers whether it popped and leaves the element in \<open>out\<close>.\<close>

definition try_pop_ref :: "size_t \<Rightarrow> ('a \<Rightarrow> 'a) \<Rightarrow> 'a \<Rightarrow> 'a ring \<Rightarrow> (bool \<times> 'a \<times> 'a ring) option" where
  "try_pop_ref cap moved out r = do {
     let h = head (consumer r);
     let empty = (h = tail_cached (consumer r));
     let r1 = (if empty then r\<lparr>consumer := (consumer r)\<lparr>tail_cached := tail (producer r)\<rparr>\<rparr> else r);
     if empty \<and> h = tail_cached (consumer r1)
     then Some (False, out, r1)
     else do {
       x \<leftarrow> read_slot (slot cap h) (buffer r1);
       b \<leftarrow> write_slot (slot cap h) (moved x) (buffer r1);
       Some (True, x, r1\<lparr>buffer := b, consumer := (consumer r1)\<lparr>head := h + 1\<rparr>\<rparr>)
     }
   }"

text \<open>The wrapper that returns an optional; \<open>T()\<close> is the default-constructed element.\<close>

definition try_pop :: "size_t \<Rightarrow> ('a \<Rightarrow> 'a) \<Rightarrow> 'a \<Rightarrow> 'a ring \<Rightarrow> ('a option \<times> 'a ring) option" where
  "try_pop cap moved T0 r = do {
     (popped, out, r1) \<leftarrow> try_pop_ref cap moved T0 r;
     Some (if popped then Some out else None, r1)
   }"

definition ring_capacity :: "size_t \<Rightarrow> size_t" where
  "ring_capacity cap = cap"

definition empty_approx :: "'a ring \<Rightarrow> bool" where
  "empty_approx r \<longleftrightarrow> tail (producer r) = head (consumer r)"

definition size_approx :: "'a ring \<Rightarrow> size_t" where
  "size_approx r = tail (producer r) - head (consumer r)"

subsection \<open>Capacities are powers of two\<close>

lemma nat_power_of_two:
  fixes n :: nat
  assumes "0 < n" and "n AND (n - 1) = 0"
  shows "\<exists>k. n = 2 ^ k"
  using assms
proof (induction n rule: less_induct)
  case (less n)
  show ?case
  proof (cases "even n")
    case True
    then obtain m where m: "n = 2 * m" "0 < m" using less.prems(1) by auto
    have "n - 1 = 2 * (m - 1) + 1" using m by simp
    then have "(n - 1) div 2 = m - 1" by simp
    moreover have "n AND (n - 1) = of_bool (odd n \<and> odd (n - 1)) + 2 * ((n div 2) AND ((n - 1) div 2))"
      by (rule and_rec)
    ultimately have "m AND (m - 1) = 0" using less.prems(2) True m(1) by simp
    then obtain k where "m = 2 ^ k" using less.IH [of m] m by auto
    then have "n = 2 ^ Suc k" using m(1) by simp
    then show ?thesis by blast
  next
    case False
    then obtain m where m: "n = 2 * m + 1" by (rule oddE)
    have "n AND (n - 1) = of_bool (odd n \<and> odd (n - 1)) + 2 * ((n div 2) AND ((n - 1) div 2))"
      by (rule and_rec)
    then have "m = 0" using less.prems(2) m by simp
    then have "n = 2 ^ 0" using m by simp
    then show ?thesis by blast
  qed
qed

lemma capacity_power:
  assumes "capacity_ok cap"
  obtains k where "cap = 2 ^ k" and "unat cap = 2 ^ k" and "k < 64"
proof -
  have pos: "0 < unat cap" and and0: "cap AND (cap - 1) = 0"
    using assms by (auto simp: capacity_ok_def unat_gt_0 word_gt_0)
  have "unat (cap - 1) = unat cap - 1" using pos by (simp add: unat_sub word_le_nat_alt)
  moreover have "unat (cap AND (cap - 1)) = unat cap AND unat (cap - 1)" by (rule unsigned_and_eq)
  ultimately have "unat cap AND (unat cap - 1) = 0" using and0 by simp
  then obtain k where k: "unat cap = 2 ^ k" using nat_power_of_two pos by blast
  then have "(2::nat) ^ k < 2 ^ 64" using unat64_less [of cap] by metis
  then have "k < 64" by (rule power_less_imp_less_exp [rotated]) simp
  moreover have "cap = of_nat (unat cap)" by simp
  then have "cap = 2 ^ k" unfolding k by simp
  ultimately show ?thesis using that k by blast
qed

lemma slot_mod:
  assumes "capacity_ok cap"
  shows "slot cap (of_nat n) = n mod unat cap"
proof -
  obtain k where k: "cap = 2 ^ k" "unat cap = 2 ^ k" "k < 64" using capacity_power [OF assms] .
  have "of_nat n AND kMask cap = (take_bit k (of_nat n) :: 64 word)"
    by (simp add: kMask_def k(1) take_bit_eq_mask mask_eq_exp_minus_1)
  then have "slot cap (of_nat n) = take_bit k (unat (of_nat n :: 64 word))"
    by (simp add: slot_def unsigned_take_bit_eq)
  also have "\<dots> = n mod 2 ^ k"
  proof -
    have "(2::nat) ^ k dvd 2 ^ 64" using k(3) by (intro le_imp_power_dvd) simp
    then have "n mod 2 ^ 64 mod 2 ^ k = n mod 2 ^ k" by (rule mod_mod_cancel)
    then show ?thesis by (simp add: unat_of_nat take_bit_eq_mod)
  qed
  finally show ?thesis by (simp add: k(2))
qed

lemma capacity_bounds:
  assumes "capacity_ok cap"
  shows "0 < unat cap" and "unat cap < 2 ^ 64"
proof -
  obtain k where "unat cap = 2 ^ k" using capacity_power [OF assms] .
  then show "0 < unat cap" by simp
  show "unat cap < 2 ^ 64" by (rule unat64_less)
qed

subsection \<open>Wrapping counters that stay close\<close>

lemma of_nat_diff_eq:
  assumes "a \<le> b" and "b - a < 2 ^ 64" and "c < 2 ^ 64"
  shows "(of_nat b - of_nat a = (of_nat c :: 64 word)) \<longleftrightarrow> b - a = c"
proof -
  have "of_nat b - of_nat a = (of_nat (b - a) :: 64 word)" using assms(1) by (simp add: of_nat_diff)
  then show ?thesis using of_nat_word_eq_iff [OF assms(2,3)] by simp
qed

lemma of_nat_close_eq:
  assumes "a \<le> b" and "b - a < 2 ^ 64"
  shows "(of_nat a = (of_nat b :: 64 word)) \<longleftrightarrow> a = b"
  using of_nat_diff_eq [OF assms, of 0] assms by auto

text \<open>Two counters at most a capacity apart, of the same slot, are equal or a capacity apart.\<close>

lemma same_slot:
  fixes a b c :: nat
  assumes "a mod c = b mod c" and "a < b"
  shows "a + c \<le> b"
proof -
  have "c dvd b - a" using assms by (metis less_imp_le mod_eq_dvd_iff_nat)
  with assms(2) have "c \<le> b - a" by (auto dest: dvd_imp_le)
  with assms(2) show ?thesis by simp
qed

subsection \<open>The interface of a bounded queue\<close>

text \<open>
  A queue that holds at most \<open>room\<close> elements: pushing succeeds exactly when there is room and
  adds at the end, popping succeeds exactly when there is an element and takes the first.
\<close>

datatype 'a queue_op = Push 'a | Pop

datatype 'a queue_answer = Pushed bool | Popped "'a option"

fun list_queue_op :: "nat \<Rightarrow> 'a queue_op \<Rightarrow> 'a list \<Rightarrow> 'a queue_answer \<times> 'a list" where
  "list_queue_op room (Push x) xs =
     (if length xs < room then (Pushed True, xs @ [x]) else (Pushed False, xs))"
| "list_queue_op room Pop xs =
     (case xs of [] \<Rightarrow> (Popped None, []) | y # ys \<Rightarrow> (Popped (Some y), ys))"

fun list_queue_run :: "nat \<Rightarrow> 'a queue_op list \<Rightarrow> 'a list \<Rightarrow> 'a queue_answer list \<times> 'a list" where
  "list_queue_run room [] xs = ([], xs)"
| "list_queue_run room (c # cs) xs =
     (case list_queue_op room c xs of (a, ys) \<Rightarrow>
        (case list_queue_run room cs ys of (as, zs) \<Rightarrow> (a # as, zs)))"

fun do_queue_op :: "('a \<Rightarrow> 'q \<Rightarrow> (bool \<times> 'q) option) \<Rightarrow> ('q \<Rightarrow> ('a option \<times> 'q) option) \<Rightarrow>
    'a queue_op \<Rightarrow> 'q \<Rightarrow> ('a queue_answer \<times> 'q) option" where
  "do_queue_op push pop (Push x) q = do { (ok, q1) \<leftarrow> push x q; Some (Pushed ok, q1) }"
| "do_queue_op push pop Pop q = do { (x, q1) \<leftarrow> pop q; Some (Popped x, q1) }"

fun queue_run :: "('a \<Rightarrow> 'q \<Rightarrow> (bool \<times> 'q) option) \<Rightarrow> ('q \<Rightarrow> ('a option \<times> 'q) option) \<Rightarrow>
    'a queue_op list \<Rightarrow> 'q \<Rightarrow> ('a queue_answer list \<times> 'q) option" where
  "queue_run push pop [] q = Some ([], q)"
| "queue_run push pop (c # cs) q = do {
     (a, q1) \<leftarrow> do_queue_op push pop c q;
     (as, q2) \<leftarrow> queue_run push pop cs q1;
     Some (a # as, q2)
   }"

locale bounded_queue =
  fixes push :: "'a \<Rightarrow> 'q \<Rightarrow> (bool \<times> 'q) option"
    and pop :: "'q \<Rightarrow> ('a option \<times> 'q) option"
    and holds :: "'q \<Rightarrow> 'a list \<Rightarrow> bool"
    and room :: nat
  assumes push_law: "holds q xs \<Longrightarrow> \<exists>q'. push x q = Some (length xs < room, q') \<and>
      holds q' (if length xs < room then xs @ [x] else xs)"
    and pop_empty: "holds q [] \<Longrightarrow> \<exists>q'. pop q = Some (None, q') \<and> holds q' []"
    and pop_first: "holds q (x # xs) \<Longrightarrow> \<exists>q'. pop q = Some (Some x, q') \<and> holds q' xs"
begin

lemma op_refines:
  assumes "holds q xs"
  shows "\<exists>q'. do_queue_op push pop c q = Some (fst (list_queue_op room c xs), q') \<and>
    holds q' (snd (list_queue_op room c xs))"
proof (cases c)
  case (Push x)
  with push_law [OF assms, of x] show ?thesis by auto
next
  case Pop
  with pop_empty pop_first assms show ?thesis by (cases xs) fastforce+
qed

lemma run_refines_list:
  assumes "holds q xs"
  shows "\<exists>q'. queue_run push pop cs q = Some (fst (list_queue_run room cs xs), q') \<and>
    holds q' (snd (list_queue_run room cs xs))"
  using assms
proof (induction cs arbitrary: q xs)
  case (Cons c cs)
  obtain q1 where q1: "do_queue_op push pop c q = Some (fst (list_queue_op room c xs), q1)"
    "holds q1 (snd (list_queue_op room c xs))"
    using op_refines [OF Cons.prems] by blast
  from Cons.IH [OF q1(2)] q1(1) show ?case
    by (cases "list_queue_op room c xs"; cases "list_queue_run room cs (snd (list_queue_op room c xs))") auto
qed simp

text \<open>Filling an empty queue with as many elements as fit and draining it gives them back in order.\<close>

lemma list_fill: "length xs + length ys \<le> room \<Longrightarrow>
    list_queue_run room (map Push ys) xs = (replicate (length ys) (Pushed True), xs @ ys)"
  by (induction ys arbitrary: xs) auto

lemma list_drain: "list_queue_run room (replicate (length ys) Pop) ys = (map (\<lambda>y. Popped (Some y)) ys, [])"
  by (induction ys) auto

end

subsection \<open>The ring is a bounded queue\<close>

definition ring_rep :: "size_t \<Rightarrow> 'a ring \<Rightarrow> 'a list \<Rightarrow> bool" where
  "ring_rep cap r xs \<longleftrightarrow> capacity_ok cap \<and> length (buffer r) = unat cap \<and>
     (\<exists>H T p c. tail (producer r) = of_nat T \<and> head (consumer r) = of_nat H \<and>
        head_cached (producer r) = of_nat p \<and> tail_cached (consumer r) = of_nat c \<and>
        p \<le> H \<and> H \<le> c \<and> c \<le> T \<and> T \<le> p + unat cap \<and>
        xs = map (\<lambda>k. buffer r ! (k mod unat cap)) [H..<T])"

lemma ring_repI:
  assumes "capacity_ok cap" and "length b = unat cap" and "p \<le> H" and "H \<le> c" and "c \<le> T"
    and "T \<le> p + unat cap" and "xs = map (\<lambda>k. b ! (k mod unat cap)) [H..<T]"
  shows "ring_rep cap \<lparr>producer = \<lparr>tail = of_nat T, head_cached = of_nat p\<rparr>,
    consumer = \<lparr>head = of_nat H, tail_cached = of_nat c\<rparr>, buffer = b\<rparr> xs"
  unfolding ring_rep_def using assms by (intro conjI exI [of _ H] exI [of _ T] exI [of _ p] exI [of _ c]) simp_all

lemma ring_repE:
  assumes "ring_rep cap r xs"
  obtains H T p c b where "r = \<lparr>producer = \<lparr>tail = of_nat T, head_cached = of_nat p\<rparr>,
      consumer = \<lparr>head = of_nat H, tail_cached = of_nat c\<rparr>, buffer = b\<rparr>"
    and "capacity_ok cap" and "length b = unat cap" and "p \<le> H" and "H \<le> c" and "c \<le> T"
    and "T \<le> p + unat cap" and "xs = map (\<lambda>k. b ! (k mod unat cap)) [H..<T]"
proof -
  obtain H T p c where "tail (producer r) = of_nat T" "head (consumer r) = of_nat H"
    "head_cached (producer r) = of_nat p" "tail_cached (consumer r) = of_nat c"
    "capacity_ok cap" "length (buffer r) = unat cap" "p \<le> H" "H \<le> c" "c \<le> T"
    "T \<le> p + unat cap" "xs = map (\<lambda>k. buffer r ! (k mod unat cap)) [H..<T]"
    using assms unfolding ring_rep_def by blast
  then show ?thesis
    by (intro that [of T p H c "buffer r"]) (cases r; cases "producer r"; cases "consumer r"; simp)+
qed

lemma contents_write:
  assumes "0 < C" and "length b = C" and "T < H + C"
  shows "map (\<lambda>k. b[T mod C := x] ! (k mod C)) [H..<T] = map (\<lambda>k. b ! (k mod C)) [H..<T]"
proof (rule map_cong [OF refl])
  fix k assume "k \<in> set [H..<T]"
  then have "k mod C \<noteq> T mod C" using same_slot [of k C T] assms(3) by auto
  then show "b[T mod C := x] ! (k mod C) = b ! (k mod C)" by (metis nth_list_update_neq)
qed

lemma contents_read:
  assumes "0 < C" and "length b = C" and "T \<le> H + C"
  shows "map (\<lambda>k. b[H mod C := x] ! (k mod C)) [Suc H..<T] = map (\<lambda>k. b ! (k mod C)) [Suc H..<T]"
proof (rule map_cong [OF refl])
  fix k assume "k \<in> set [Suc H..<T]"
  then have "H mod C \<noteq> k mod C" using same_slot [of H C k] assms(3) by auto
  then show "b[H mod C := x] ! (k mod C) = b ! (k mod C)" by (metis nth_list_update_neq)
qed

text \<open>The ring after the slot at the tail is written and published, after the one at the head is taken.\<close>

lemma ring_rep_pushed:
  assumes "capacity_ok cap" and "length b = unat cap" and "p \<le> H" and "H \<le> c" and "c \<le> T" and "Suc T \<le> p + unat cap"
    and "xs = map (\<lambda>k. b ! (k mod unat cap)) [H..<T]"
  shows "ring_rep cap \<lparr>producer = \<lparr>tail = of_nat (Suc T), head_cached = of_nat p\<rparr>,
    consumer = \<lparr>head = of_nat H, tail_cached = of_nat c\<rparr>, buffer = b[T mod unat cap := x]\<rparr> (xs @ [x])"
proof (rule ring_repI [OF assms(1) _ assms(3,4) _ assms(6)])
  have "T < H + unat cap" using assms(3,6) by simp
  then show "xs @ [x] = map (\<lambda>k. b[T mod unat cap := x] ! (k mod unat cap)) [H..<Suc T]"
    using contents_write [OF _ assms(2)] capacity_bounds(1) [OF assms(1)] assms(2,4,5) by (simp add: assms(7))
qed (use assms in simp_all)

lemma ring_rep_popped:
  assumes "capacity_ok cap" and "length b = unat cap" and "p \<le> H" and "H < c" and "c \<le> T" and "T \<le> p + unat cap"
    and "xs = map (\<lambda>k. b ! (k mod unat cap)) [H..<T]"
  shows "xs = b ! (H mod unat cap) # tl xs" and "ring_rep cap \<lparr>producer = \<lparr>tail = of_nat T, head_cached = of_nat p\<rparr>,
    consumer = \<lparr>head = of_nat (Suc H), tail_cached = of_nat c\<rparr>, buffer = b[H mod unat cap := y]\<rparr> (tl xs)"
proof -
  have up: "[H..<T] = H # [Suc H..<T]" using assms(4,5) by (simp add: upt_conv_Cons)
  then show "xs = b ! (H mod unat cap) # tl xs" by (simp add: assms(7))
  show "ring_rep cap \<lparr>producer = \<lparr>tail = of_nat T, head_cached = of_nat p\<rparr>,
    consumer = \<lparr>head = of_nat (Suc H), tail_cached = of_nat c\<rparr>, buffer = b[H mod unat cap := y]\<rparr> (tl xs)"
  proof (rule ring_repI [OF assms(1) _ _ _ assms(5,6)])
    show "tl xs = map (\<lambda>k. b[H mod unat cap := y] ! (k mod unat cap)) [Suc H..<T]"
      using contents_read [OF capacity_bounds(1) [OF assms(1)] assms(2), of T H] assms(3,6) up by (simp add: assms(7))
  qed (use assms in simp_all)
qed

lemma ring_push:
  assumes "ring_rep cap r xs"
  shows "\<exists>r'. try_push cap x r = Some (length xs < unat cap, r') \<and>
    ring_rep cap r' (if length xs < unat cap then xs @ [x] else xs)"
proof -
  let ?C = "unat cap"
  obtain H T p c b where r: "r = \<lparr>producer = \<lparr>tail = of_nat T, head_cached = of_nat p\<rparr>,
      consumer = \<lparr>head = of_nat H, tail_cached = of_nat c\<rparr>, buffer = b\<rparr>"
    and ok: "capacity_ok cap" and len: "length b = ?C" and le: "p \<le> H" "H \<le> c" "c \<le> T"
      "T \<le> p + ?C" and xs: "xs = map (\<lambda>k. b ! (k mod ?C)) [H..<T]"
    using assms by (rule ring_repE)
  note C = capacity_bounds [OF ok]
  have full: "(of_nat T - of_nat q = cap) = (T - q = ?C)" if "q \<le> T" "T - q \<le> ?C" for q
    using of_nat_diff_eq [OF that(1), of ?C] that(2) C(2) by simp
  have fp: "(of_nat T - of_nat p = cap) = (T - p = ?C)" "(of_nat T - of_nat H = cap) = (T - H = ?C)"
    using le by (auto intro!: full)
  let ?b = "b[T mod ?C := x]"
  have store: "write_slot (slot cap (of_nat T)) x b = Some ?b"
    using C(1) by (simp add: write_slot_def slot_mod [OF ok] len)
  note pushed = ring_rep_pushed [OF ok len _ le(2,3) _ xs, of _ x]
  have suc: "of_nat T + 1 = (of_nat (Suc T) :: 64 word)" by simp
  consider "T - p \<noteq> ?C" | "T - p = ?C" "T - H \<noteq> ?C" | "T - H = ?C" "p = H"
    using le by linarith
  then show ?thesis
  proof cases
    case 1
    then have "length xs < ?C" "Suc T \<le> p + ?C" using le by (auto simp: xs)
    with 1 pushed [of p] le(1) show ?thesis
      unfolding try_push_def emplace_impl_def Let_def r by (simp add: fp store suc del: of_nat_Suc)
  next
    case 2
    then have "length xs < ?C" "Suc T \<le> H + ?C" using le by (auto simp: xs)
    with 2 pushed [of H] show ?thesis
      unfolding try_push_def emplace_impl_def Let_def r by (simp add: fp store suc del: of_nat_Suc)
  next
    case 3
    then have "\<not> length xs < ?C" by (simp add: xs)
    moreover have "ring_rep cap r xs" by (rule assms)
    ultimately show ?thesis using 3
      unfolding try_push_def emplace_impl_def Let_def r by (simp add: fp)
  qed
qed

lemma ring_pop:
  assumes "ring_rep cap r xs"
  shows "\<exists>r'. try_pop cap moved T0 r = Some (if xs = [] then None else Some (hd xs), r') \<and>
    ring_rep cap r' (tl xs)"
proof -
  let ?C = "unat cap"
  obtain H T p c b where r: "r = \<lparr>producer = \<lparr>tail = of_nat T, head_cached = of_nat p\<rparr>,
      consumer = \<lparr>head = of_nat H, tail_cached = of_nat c\<rparr>, buffer = b\<rparr>"
    and ok: "capacity_ok cap" and len: "length b = ?C" and le: "p \<le> H" "H \<le> c" "c \<le> T"
      "T \<le> p + ?C" and xs: "xs = map (\<lambda>k. b ! (k mod ?C)) [H..<T]"
    using assms by (rule ring_repE)
  note C = capacity_bounds [OF ok]
  have eq: "((of_nat H :: 64 word) = of_nat c) = (H = c)" "((of_nat H :: 64 word) = of_nat T) = (H = T)"
    using le C(2) by (auto intro!: of_nat_close_eq)
  let ?x = "b ! (H mod ?C)" and ?b = "b[H mod ?C := moved (b ! (H mod ?C))]"
  have slots: "read_slot (slot cap (of_nat H)) b = Some ?x"
    "write_slot (slot cap (of_nat H)) (moved ?x) b = Some ?b"
    using C(1) by (simp_all add: write_slot_def read_slot_def slot_mod [OF ok] len)
  have suc: "of_nat H + 1 = (of_nat (Suc H) :: 64 word)" by simp
  note popped = ring_rep_popped [OF ok len le(1) _ _ le(4) xs]
  consider "H < c" | "H = c" "H < T" | "H = c" "H = T" using le by linarith
  then show ?thesis
  proof cases
    case 1
    then have "try_pop cap moved T0 r = Some (Some ?x, \<lparr>producer = \<lparr>tail = of_nat T, head_cached = of_nat p\<rparr>,
      consumer = \<lparr>head = of_nat (Suc H), tail_cached = of_nat c\<rparr>, buffer = ?b\<rparr>)"
      unfolding try_pop_def try_pop_ref_def Let_def r by (simp add: eq slots suc del: of_nat_Suc)
    with popped [OF 1 le(3)] show ?thesis by (cases xs) simp_all
  next
    case 2
    from 2(2) have "try_pop cap moved T0 r = Some (Some ?x, \<lparr>producer = \<lparr>tail = of_nat T, head_cached = of_nat p\<rparr>,
      consumer = \<lparr>head = of_nat (Suc H), tail_cached = of_nat T\<rparr>, buffer = ?b\<rparr>)"
      unfolding try_pop_def try_pop_ref_def Let_def r 2(1) [symmetric] by (simp add: eq slots suc del: of_nat_Suc)
    with popped [OF 2(2) order.refl] show ?thesis by (cases xs) simp_all
  next
    case 3
    then have "xs = []" by (simp add: xs)
    moreover have "ring_rep cap r xs" by (rule assms)
    ultimately show ?thesis using 3 unfolding try_pop_def try_pop_ref_def Let_def r by (simp add: eq)
  qed
qed

lemma ring_new_rep: "capacity_ok cap \<Longrightarrow> ring_rep cap (ring_new cap x) []"
  using ring_repI [of cap "replicate (unat cap) x" 0 0 0 0 "[]"] by (simp add: ring_new_def)

interpretation ring_queue: bounded_queue "try_push cap" "try_pop cap moved T0" "ring_rep cap" "unat cap"
  for cap and moved :: "'a \<Rightarrow> 'a" and T0
proof (unfold_locales, goal_cases)
  case (1 q xs x)
  then show ?case by (rule ring_push)
next
  case (2 q)
  then show ?case using ring_pop [of cap q "[]" moved] by simp
next
  case (3 q x xs)
  then show ?case using ring_pop [of cap q "x # xs" moved] by simp
qed

lemma ring_approx:
  assumes "ring_rep cap r xs"
  shows "size_approx r = of_nat (length xs)" and "empty_approx r \<longleftrightarrow> xs = []" and "length xs \<le> unat cap"
proof -
  obtain H T p c b where r: "r = \<lparr>producer = \<lparr>tail = of_nat T, head_cached = of_nat p\<rparr>,
      consumer = \<lparr>head = of_nat H, tail_cached = of_nat c\<rparr>, buffer = b\<rparr>"
    and ok: "capacity_ok cap" and le: "p \<le> H" "H \<le> c" "c \<le> T" "T \<le> p + unat cap"
    and xs: "xs = map (\<lambda>k. b ! (k mod unat cap)) [H..<T]"
    using assms by (rule ring_repE)
  show "size_approx r = of_nat (length xs)"
    using le by (simp add: size_approx_def r xs of_nat_diff)
  show "length xs \<le> unat cap" using le by (simp add: xs)
  have "((of_nat H :: 64 word) = of_nat T) = (H = T)"
    using le capacity_bounds(2) [OF ok] by (intro of_nat_close_eq) simp_all
  then show "empty_approx r \<longleftrightarrow> xs = []"
    using le by (auto simp: empty_approx_def r xs)
qed

subsection \<open>Properties\<close>

definition ring_run :: "size_t \<Rightarrow> ('a \<Rightarrow> 'a) \<Rightarrow> 'a \<Rightarrow> 'a queue_op list \<Rightarrow> ('a queue_answer list \<times> 'a ring) option" where
  "ring_run cap moved T0 cs = queue_run (try_push cap) (try_pop cap moved T0) cs (ring_new cap T0)"

text \<open>
  C7: the ring buffer is a bounded FIFO queue.  For every capacity the static assertion accepts and
  every sequence of \<open>try_push\<close> and \<open>try_pop\<close> calls on a new buffer, no slot outside the array is
  touched and every call answers what a plain list of at most \<open>Capacity\<close> elements would: a push
  fails exactly when \<open>Capacity\<close> elements are in the queue, a pop returns the oldest one; this
  includes runs so long that the 64-bit counters wrap around.
\<close>

theorem ring_is_bounded_fifo:
  assumes "capacity_ok cap"
  shows "\<exists>r. ring_run cap moved T0 cs = Some (fst (list_queue_run (unat cap) cs []), r) \<and>
    ring_rep cap r (snd (list_queue_run (unat cap) cs []))"
  using ring_queue.run_refines_list [OF ring_new_rep [OF assms]] by (simp add: ring_run_def)

lemma capacity_ok_4: "capacity_ok 4"
  by (simp add: capacity_ok_def)

theorem ring_is_bounded_fifo_witness:
  "\<exists>r. ring_run 4 id (0::nat) [Push 1, Push 2, Pop, Push 3, Push 4, Push 5, Push 6, Pop]
      = Some ([Pushed True, Pushed True, Popped (Some 1), Pushed True, Pushed True, Pushed True, Pushed False,
          Popped (Some 2)], r) \<and> ring_rep 4 r [3, 4, 5]"
proof -
  let ?cs = "[Push 1, Push 2, Pop, Push 3, Push 4, Push 5, Push 6, Pop] :: nat queue_op list"
  have "list_queue_run (unat (4 :: size_t)) ?cs [] = ([Pushed True, Pushed True, Popped (Some 1), Pushed True, Pushed True,
      Pushed True, Pushed False, Popped (Some 2)], [3, 4, 5])"
    by simp
  with ring_is_bounded_fifo [OF capacity_ok_4, of id 0 ?cs] show ?thesis by simp
qed

definition ring_at :: "size_t \<Rightarrow> size_t \<Rightarrow> 'a \<Rightarrow> 'a ring" where
  "ring_at cap i x = \<lparr>producer = \<lparr>tail = i, head_cached = i\<rparr>, consumer = \<lparr>head = i, tail_cached = i\<rparr>,
     buffer = replicate (unat cap) x\<rparr>"

lemma ring_at_rep: "capacity_ok cap \<Longrightarrow> ring_rep cap (ring_at cap i x) []"
  using ring_repI [of cap "replicate (unat cap) x" "unat i" "unat i" "unat i" "unat i" "[]"]
  by (simp add: ring_at_def)

lemma queue_run_append:
  "queue_run push pop (cs @ ds) q = do {
     (as, q1) \<leftarrow> queue_run push pop cs q;
     (bs, q2) \<leftarrow> queue_run push pop ds q1;
     Some (as @ bs, q2)
   }"
  by (induction cs arbitrary: q) (auto split: prod.splits Option.bind_splits)

text \<open>
  Wrap-around.  A ring whose counters stand just below \<open>2 ^ 64\<close> behaves like a new one: pushing
  up to \<open>Capacity\<close> elements and popping them again gives them back in order across the wrap, with
  the counters ending past zero.
\<close>

theorem ring_survives_wrap:
  assumes "capacity_ok cap" and "length xs \<le> unat cap"
  shows "\<exists>r. queue_run (try_push cap) (try_pop cap moved T0) (map Push xs @ replicate (length xs) Pop) (ring_at cap i T0)
      = Some (replicate (length xs) (Pushed True) @ map (\<lambda>x. Popped (Some x)) xs, r) \<and> ring_rep cap r []"
proof -
  let ?push = "try_push cap" and ?pop = "try_pop cap moved T0"
  obtain r1 where r1: "queue_run ?push ?pop (map Push xs) (ring_at cap i T0) = Some (replicate (length xs) (Pushed True), r1)"
    "ring_rep cap r1 xs"
    using ring_queue.run_refines_list [OF ring_at_rep [OF assms(1), of i T0], of moved T0 "map Push xs"]
      ring_queue.list_fill [of "[]" xs cap] assms(2) by auto
  obtain r2 where r2: "queue_run ?push ?pop (replicate (length xs) Pop) r1 = Some (map (\<lambda>x. Popped (Some x)) xs, r2)"
    "ring_rep cap r2 []"
    using ring_queue.run_refines_list [OF r1(2), of moved T0 "replicate (length xs) Pop"]
      ring_queue.list_drain [of cap xs] by auto
  with r1(1) show ?thesis by (simp add: queue_run_append)
qed

theorem ring_survives_wrap_witness:
  "\<exists>r. queue_run (try_push 4) (try_pop 4 id (0::nat)) [Push 5, Push 6, Push 7, Pop, Pop, Pop] (ring_at 4 (- 2) 0)
      = Some ([Pushed True, Pushed True, Pushed True, Popped (Some 5), Popped (Some 6), Popped (Some 7)], r)"
proof -
  have "length [5, 6, 7 :: nat] \<le> unat (4 :: size_t)" by simp
  from ring_survives_wrap [OF capacity_ok_4 this, of id 0 "- 2"] show ?thesis
    by (auto simp: numeral_3_eq_3)
qed

text \<open>
  The diagnostics.  When no call is in progress \<open>size_approx\<close> is the number of queued elements,
  which is at most the capacity, and \<open>empty_approx\<close> says whether it is zero.
\<close>

theorem size_approx_exact_when_quiet:
  assumes "capacity_ok cap" and "ring_run cap moved T0 cs = Some (as, r)"
  shows "size_approx r = of_nat (length (snd (list_queue_run (unat cap) cs []))) \<and>
    length (snd (list_queue_run (unat cap) cs [])) \<le> unat (ring_capacity cap) \<and>
    (empty_approx r \<longleftrightarrow> snd (list_queue_run (unat cap) cs []) = [])"
proof -
  have "ring_rep cap r (snd (list_queue_run (unat cap) cs []))"
    using ring_queue.run_refines_list [OF ring_new_rep [OF assms(1)], of moved T0 cs T0] assms(2)
    by (auto simp: ring_run_def)
  from ring_approx [OF this] show ?thesis by (simp add: ring_capacity_def)
qed

theorem size_approx_exact_when_quiet_witness:
  "\<exists>as r. ring_run 4 id (0::nat) [Push 1, Push 2, Pop] = Some (as, r) \<and> size_approx r = 1 \<and> \<not> empty_approx r"
proof -
  let ?cs = "[Push 1, Push 2, Pop] :: nat queue_op list"
  obtain as r where r: "ring_run 4 id 0 ?cs = Some (as, r)"
    using ring_queue.run_refines_list [OF ring_new_rep [OF capacity_ok_4], of id 0 ?cs 0] by (auto simp: ring_run_def)
  have "snd (list_queue_run (unat (4 :: size_t)) ?cs []) = [2]" by simp
  with size_approx_exact_when_quiet [OF capacity_ok_4 r] r show ?thesis by auto
qed

end
