(* ===== verification/Ring_Throwing.thy ===== *)
theory Ring_Throwing
  imports Ring_Buffer
begin

section \<open>Elements whose assignment throws\<close>

text \<open>
  The class accepts every \<open>T\<close> that can be copied, also one whose copy or move assignment throws.
  Ring_Buffer takes the assignments to succeed; here the one that a call makes does not.  Neither
  function has a handler, so the exception leaves it before the counter is stored.  What the failed
  assignment has left in its target and in its source is a parameter.
\<close>

datatype 'r ending = Returned 'r | Threw

text \<open>\<open>buffer_[tail & kMask] = item\<close> throws and leaves \<open>broken\<close> in the slot.\<close>

definition emplace_impl_throwing :: "size_t \<Rightarrow> 'a \<Rightarrow> 'a ring \<Rightarrow> (bool ending \<times> 'a ring) option" where
  "emplace_impl_throwing cap broken r = do {
     let t = tail (producer r);
     let full = (t - head_cached (producer r) = cap);
     let r1 = (if full then r\<lparr>producer := (producer r)\<lparr>head_cached := head (consumer r)\<rparr>\<rparr> else r);
     if full \<and> t - head_cached (producer r1) = cap
     then Some (Returned False, r1)
     else do {
       b \<leftarrow> write_slot (slot cap t) broken (buffer r1);
       Some (Threw, r1\<lparr>buffer := b\<rparr>)
     }
   }"

text \<open>\<open>out = std::move(buffer_[head & kMask])\<close> throws and leaves \<open>broken\<close> in the slot.\<close>

definition try_pop_throwing :: "size_t \<Rightarrow> 'a \<Rightarrow> 'a ring \<Rightarrow> (bool ending \<times> 'a ring) option" where
  "try_pop_throwing cap broken r = do {
     let h = head (consumer r);
     let empty = (h = tail_cached (consumer r));
     let r1 = (if empty then r\<lparr>consumer := (consumer r)\<lparr>tail_cached := tail (producer r)\<rparr>\<rparr> else r);
     if empty \<and> h = tail_cached (consumer r1)
     then Some (Returned False, r1)
     else do {
       b \<leftarrow> write_slot (slot cap h) broken (buffer r1);
       Some (Threw, r1\<lparr>buffer := b\<rparr>)
     }
   }"

subsection \<open>What the refreshes and the slots do to the queue\<close>

lemma refresh_head_cached:
  assumes "ring_rep cap r xs"
  shows "ring_rep cap (r\<lparr>producer := (producer r)\<lparr>head_cached := head (consumer r)\<rparr>\<rparr>) xs"
proof -
  obtain H T p c b where r: "r = \<lparr>producer = \<lparr>tail = of_nat T, head_cached = of_nat p\<rparr>,
      consumer = \<lparr>head = of_nat H, tail_cached = of_nat c\<rparr>, buffer = b\<rparr>"
    and "capacity_ok cap" "length b = unat cap" "p \<le> H" "H \<le> c" "c \<le> T" "T \<le> p + unat cap"
      "xs = map (\<lambda>k. b ! (k mod unat cap)) [H..<T]"
    using assms by (rule ring_repE)
  then show ?thesis unfolding r by (simp add: ring_repI)
qed

lemma refresh_tail_cached:
  assumes "ring_rep cap r xs"
  shows "ring_rep cap (r\<lparr>consumer := (consumer r)\<lparr>tail_cached := tail (producer r)\<rparr>\<rparr>) xs"
proof -
  obtain H T p c b where r: "r = \<lparr>producer = \<lparr>tail = of_nat T, head_cached = of_nat p\<rparr>,
      consumer = \<lparr>head = of_nat H, tail_cached = of_nat c\<rparr>, buffer = b\<rparr>"
    and "capacity_ok cap" "length b = unat cap" "p \<le> H" "H \<le> c" "c \<le> T" "T \<le> p + unat cap"
      "xs = map (\<lambda>k. b ! (k mod unat cap)) [H..<T]"
    using assms by (rule ring_repE)
  then show ?thesis unfolding r by (simp add: ring_repI)
qed

lemma overwrite_free_slot:
  assumes "ring_rep cap r xs" and "length xs < unat cap"
  shows "\<exists>b. write_slot (slot cap (tail (producer r))) y (buffer r) = Some b \<and> ring_rep cap (r\<lparr>buffer := b\<rparr>) xs"
proof -
  obtain H T p c b where r: "r = \<lparr>producer = \<lparr>tail = of_nat T, head_cached = of_nat p\<rparr>,
      consumer = \<lparr>head = of_nat H, tail_cached = of_nat c\<rparr>, buffer = b\<rparr>"
    and ok: "capacity_ok cap" and len: "length b = unat cap" and le: "p \<le> H" "H \<le> c" "c \<le> T"
      "T \<le> p + unat cap" and xs: "xs = map (\<lambda>k. b ! (k mod unat cap)) [H..<T]"
    using assms(1) by (rule ring_repE)
  note C = capacity_bounds(1) [OF ok]
  have "T < H + unat cap" using assms(2) le by (simp add: xs)
  note keep = contents_write [OF C len this]
  then have "ring_rep cap \<lparr>producer = \<lparr>tail = of_nat T, head_cached = of_nat p\<rparr>,
      consumer = \<lparr>head = of_nat H, tail_cached = of_nat c\<rparr>, buffer = b[T mod unat cap := y]\<rparr> xs"
    by (intro ring_repI [OF ok _ le]) (simp_all add: len xs)
  then show ?thesis unfolding r by (simp add: write_slot_def slot_mod [OF ok] len C)
qed

lemma overwrite_front:
  assumes "ring_rep cap r (x # xs)"
  shows "\<exists>b. write_slot (slot cap (head (consumer r))) y (buffer r) = Some b \<and> ring_rep cap (r\<lparr>buffer := b\<rparr>) (y # xs)"
proof -
  obtain H T p c b where r: "r = \<lparr>producer = \<lparr>tail = of_nat T, head_cached = of_nat p\<rparr>,
      consumer = \<lparr>head = of_nat H, tail_cached = of_nat c\<rparr>, buffer = b\<rparr>"
    and ok: "capacity_ok cap" and len: "length b = unat cap" and le: "p \<le> H" "H \<le> c" "c \<le> T"
      "T \<le> p + unat cap" and xs: "x # xs = map (\<lambda>k. b ! (k mod unat cap)) [H..<T]"
    using assms by (rule ring_repE)
  note C = capacity_bounds(1) [OF ok]
  have "H < T" using xs by (cases "H < T") auto
  then have up: "[H..<T] = H # [Suc H..<T]" by (simp add: upt_conv_Cons)
  have "y # xs = map (\<lambda>k. b[H mod unat cap := y] ! (k mod unat cap)) [H..<T]"
    using contents_read [OF C len, of T H y] le xs C unfolding up by (simp add: len)
  then have "ring_rep cap \<lparr>producer = \<lparr>tail = of_nat T, head_cached = of_nat p\<rparr>,
      consumer = \<lparr>head = of_nat H, tail_cached = of_nat c\<rparr>, buffer = b[H mod unat cap := y]\<rparr> (y # xs)"
    by (intro ring_repI [OF ok _ le]) (simp_all add: len)
  then show ?thesis unfolding r by (simp add: write_slot_def slot_mod [OF ok] len C)
qed

subsection \<open>Properties\<close>

lemma push_throws:
  assumes "ring_rep cap r xs"
  shows "\<exists>r'. emplace_impl_throwing cap broken r =
      Some (if length xs < unat cap then Threw else Returned False, r') \<and> ring_rep cap r' xs"
proof -
  let ?t = "tail (producer r)" and ?full = "tail (producer r) - head_cached (producer r) = cap"
  define r1 where "r1 = (if ?full then r\<lparr>producer := (producer r)\<lparr>head_cached := head (consumer r)\<rparr>\<rparr> else r)"
  have rep: "ring_rep cap r1 xs" using refresh_head_cached [OF assms] assms by (simp add: r1_def)
  have same: "tail (producer r1) = ?t" by (simp add: r1_def)
  obtain r' where "try_push cap broken r = Some (length xs < unat cap, r')"
    using ring_push [OF assms] by blast
  then have refuse: "(?full \<and> ?t - head_cached (producer r1) = cap) \<longleftrightarrow> \<not> length xs < unat cap"
    by (auto simp: try_push_def emplace_impl_def Let_def r1_def bind_Some_iff split: if_splits)
  show ?thesis
  proof (cases "length xs < unat cap")
    case True
    obtain b where "write_slot (slot cap ?t) broken (buffer r1) = Some b" "ring_rep cap (r1\<lparr>buffer := b\<rparr>) xs"
      using overwrite_free_slot [OF rep True, of broken] same by auto
    with True refuse show ?thesis unfolding emplace_impl_throwing_def Let_def r1_def by auto
  next
    case False
    with rep refuse show ?thesis unfolding emplace_impl_throwing_def Let_def r1_def by auto
  qed
qed

lemma pop_throws:
  assumes "ring_rep cap r xs"
  shows "\<exists>r'. try_pop_throwing cap broken r = Some (if xs = [] then Returned False else Threw, r') \<and>
    ring_rep cap r' (if xs = [] then [] else broken # tl xs)"
proof -
  let ?h = "head (consumer r)" and ?empty = "head (consumer r) = tail_cached (consumer r)"
  define r1 where "r1 = (if ?empty then r\<lparr>consumer := (consumer r)\<lparr>tail_cached := tail (producer r)\<rparr>\<rparr> else r)"
  have rep: "ring_rep cap r1 xs" using refresh_tail_cached [OF assms] assms by (simp add: r1_def)
  have same: "head (consumer r1) = ?h" by (simp add: r1_def)
  obtain r' where "try_pop cap id broken r = Some (if xs = [] then None else Some (hd xs), r')"
    using ring_pop [OF assms] by blast
  then have refuse: "(?empty \<and> ?h = tail_cached (consumer r1)) \<longleftrightarrow> xs = []"
    by (auto simp: try_pop_def try_pop_ref_def Let_def r1_def bind_Some_iff split: if_splits)
  show ?thesis
  proof (cases xs)
    case (Cons x ys)
    obtain b where "write_slot (slot cap ?h) broken (buffer r1) = Some b" "ring_rep cap (r1\<lparr>buffer := b\<rparr>) (broken # ys)"
      using overwrite_front [OF rep [unfolded Cons], of broken] same by auto
    with Cons refuse show ?thesis unfolding try_pop_throwing_def Let_def r1_def by auto
  next
    case Nil
    with rep refuse show ?thesis unfolding try_pop_throwing_def Let_def r1_def by auto
  qed
qed

text \<open>
  C37: an element whose assignment throws.  A push that throws leaves the queue as it was.  A pop that
  throws removes nothing, but the element at the front is now whatever the failed move has left of
  it: the next pop hands that out.  A full or empty ring refuses without assigning anything.
\<close>

theorem throwing_elements:
  assumes "ring_rep cap r xs"
  shows "(\<exists>r'. emplace_impl_throwing cap broken r =
      Some (if length xs < unat cap then Threw else Returned False, r') \<and> ring_rep cap r' xs) \<and>
    (\<exists>r'. try_pop_throwing cap broken r = Some (if xs = [] then Returned False else Threw, r') \<and>
      ring_rep cap r' (if xs = [] then [] else broken # tl xs))"
  using push_throws [OF assms] pop_throws [OF assms] by blast

theorem throwing_elements_witness:
  "\<exists>r. ring_rep 4 (ring_new 4 (0::nat)) [] \<and> emplace_impl_throwing 4 9 (ring_new 4 (0::nat)) = Some (Threw, r) \<and> ring_rep 4 r []"
proof -
  have new: "ring_rep 4 (ring_new 4 (0::nat)) []" by (rule ring_new_rep [OF capacity_ok_4])
  from throwing_elements [OF new, of 9] new show ?thesis by auto
qed

end
