(* ===== verification/Ring_Concurrent.thy ===== *)
theory Ring_Concurrent
  imports Ring_Buffer
begin

section \<open>The ring buffer with its two threads interleaved\<close>

text \<open>
  The same statements as in Ring_Buffer, one memory access per step, in any interleaving of the
  producer and the consumer, under the C++ memory model for the accesses the class makes.  An
  atomic counter is its modification order, the list of all values stored so far: the thread that
  writes it reads its own last value (relaxed), the other thread's acquire load may return any
  value that is not older than the last one it read, so it may be stale.  \<open>p_view\<close> and \<open>c_view\<close>
  are the positions those loads have reached: reading position \<open>j\<close> of the tail synchronizes with
  the release store that wrote it, which makes every slot write before that store visible.

  \<open>written\<close> records, for each slot, the position of the tail store that will publish its last
  write, \<open>read_done\<close> the position of the head store that will publish its last read.  An access
  to a slot is a data race when the other thread's last access to it is not published by a store
  the accessing thread has synchronized with; \<open>racy\<close> says that such an access is about to happen.
  \<open>pushed\<close> and \<open>popped\<close> are the elements whose calls have succeeded, in order.
\<close>

datatype 'a producer_pc = PIdle | PLoad 'a | PRefresh 'a size_t | PWrite 'a size_t | PPublish 'a size_t

datatype 'a consumer_pc = CIdle | CLoad | CRefresh size_t | CRead size_t | CPublish 'a size_t

record 'a world =
  tail_hist :: "size_t list"
  head_hist :: "size_t list"
  p_view :: nat
  c_view :: nat
  p_cached :: size_t
  c_cached :: size_t
  slots :: "'a list"
  written :: "nat list"
  read_done :: "nat list"
  p_pc :: "'a producer_pc"
  c_pc :: "'a consumer_pc"
  pushed :: "'a list"
  popped :: "'a list"

definition world_new :: "size_t \<Rightarrow> 'a \<Rightarrow> 'a world" where
  "world_new cap x = \<lparr>tail_hist = [0], head_hist = [0], p_view = 0, c_view = 0, p_cached = 0, c_cached = 0,
     slots = replicate (unat cap) x, written = replicate (unat cap) 0, read_done = replicate (unat cap) 0,
     p_pc = PIdle, c_pc = CIdle, pushed = [], popped = []\<rparr>"

inductive step :: "size_t \<Rightarrow> ('a \<Rightarrow> 'a) \<Rightarrow> 'a world \<Rightarrow> 'a world \<Rightarrow> bool" for cap moved where
  p_call: "p_pc w = PIdle \<Longrightarrow> step cap moved w (w\<lparr>p_pc := PLoad x\<rparr>)"
| p_load: "p_pc w = PLoad x \<Longrightarrow> t = last (tail_hist w) \<Longrightarrow>
    step cap moved w (w\<lparr>p_pc := (if t - p_cached w = cap then PRefresh x t else PWrite x t)\<rparr>)"
| p_refresh: "p_pc w = PRefresh x t \<Longrightarrow> p_view w \<le> j \<Longrightarrow> j < length (head_hist w) \<Longrightarrow>
    step cap moved w (w\<lparr>p_cached := head_hist w ! j, p_view := j,
      p_pc := (if t - head_hist w ! j = cap then PIdle else PWrite x t)\<rparr>)"
| p_write: "p_pc w = PWrite x t \<Longrightarrow> slot cap t < length (slots w) \<Longrightarrow>
    step cap moved w (w\<lparr>slots := (slots w)[slot cap t := x],
      written := (written w)[slot cap t := length (tail_hist w)], p_pc := PPublish x t\<rparr>)"
| p_publish: "p_pc w = PPublish x t \<Longrightarrow>
    step cap moved w (w\<lparr>tail_hist := tail_hist w @ [t + 1], pushed := pushed w @ [x], p_pc := PIdle\<rparr>)"
| c_call: "c_pc w = CIdle \<Longrightarrow> step cap moved w (w\<lparr>c_pc := CLoad\<rparr>)"
| c_load: "c_pc w = CLoad \<Longrightarrow> h = last (head_hist w) \<Longrightarrow>
    step cap moved w (w\<lparr>c_pc := (if h = c_cached w then CRefresh h else CRead h)\<rparr>)"
| c_refresh: "c_pc w = CRefresh h \<Longrightarrow> c_view w \<le> j \<Longrightarrow> j < length (tail_hist w) \<Longrightarrow>
    step cap moved w (w\<lparr>c_cached := tail_hist w ! j, c_view := j,
      c_pc := (if h = tail_hist w ! j then CIdle else CRead h)\<rparr>)"
| c_read: "c_pc w = CRead h \<Longrightarrow> slot cap h < length (slots w) \<Longrightarrow> y = slots w ! slot cap h \<Longrightarrow>
    step cap moved w (w\<lparr>slots := (slots w)[slot cap h := moved y],
      read_done := (read_done w)[slot cap h := length (head_hist w)], c_pc := CPublish y h\<rparr>)"
| c_publish: "c_pc w = CPublish y h \<Longrightarrow>
    step cap moved w (w\<lparr>head_hist := head_hist w @ [h + 1], popped := popped w @ [y], c_pc := CIdle\<rparr>)"

inductive_cases stepE: "step cap moved w w'"

inductive reachable :: "size_t \<Rightarrow> ('a \<Rightarrow> 'a) \<Rightarrow> 'a \<Rightarrow> 'a world \<Rightarrow> bool" for cap moved T0 where
  init: "reachable cap moved T0 (world_new cap T0)"
| more: "reachable cap moved T0 w \<Longrightarrow> step cap moved w w' \<Longrightarrow> reachable cap moved T0 w'"

definition racy :: "size_t \<Rightarrow> 'a world \<Rightarrow> bool" where
  "racy cap w \<longleftrightarrow>
     (case p_pc w of
        PWrite x t \<Rightarrow> slot cap t \<ge> length (slots w) \<or> read_done w ! slot cap t > p_view w
      | _ \<Rightarrow> False) \<or>
     (case c_pc w of
        CRead h \<Rightarrow> slot cap h \<ge> length (slots w) \<or> written w ! slot cap h > c_view w
      | _ \<Rightarrow> False)"

subsection \<open>The invariant\<close>

text \<open>
  \<open>T\<close> elements have been published and \<open>H\<close> taken; \<open>taken\<close> also counts an element the consumer has
  moved out but not yet released.
\<close>

fun taken :: "'a consumer_pc \<Rightarrow> nat \<Rightarrow> nat" where
  "taken (CPublish y h) H = Suc H"
| "taken pc H = H"

fun producer_ok :: "nat \<Rightarrow> nat \<Rightarrow> nat \<Rightarrow> 'a list \<Rightarrow> nat list \<Rightarrow> 'a producer_pc \<Rightarrow> bool" where
  "producer_ok C T view ss ws (PRefresh x t) \<longleftrightarrow> t = of_nat T"
| "producer_ok C T view ss ws (PWrite x t) \<longleftrightarrow> t = of_nat T \<and> T < view + C"
| "producer_ok C T view ss ws (PPublish x t) \<longleftrightarrow>
     t = of_nat T \<and> T < view + C \<and> ss ! (T mod C) = x \<and> ws ! (T mod C) = Suc T"
| "producer_ok C T view ss ws pc \<longleftrightarrow> True"

fun consumer_ok :: "nat \<Rightarrow> nat \<Rightarrow> 'a list \<Rightarrow> 'a consumer_pc \<Rightarrow> bool" where
  "consumer_ok H view ps (CRefresh h) \<longleftrightarrow> h = of_nat H"
| "consumer_ok H view ps (CRead h) \<longleftrightarrow> h = of_nat H \<and> H < view"
| "consumer_ok H view ps (CPublish y h) \<longleftrightarrow> h = of_nat H \<and> H < view \<and> y = ps ! H"
| "consumer_ok H view ps pc \<longleftrightarrow> True"

definition counters_ok :: "nat \<Rightarrow> nat \<Rightarrow> nat \<Rightarrow> 'a world \<Rightarrow> bool" where
  "counters_ok C T H w \<longleftrightarrow>
     tail_hist w = map of_nat [0..<Suc T] \<and> head_hist w = map of_nat [0..<Suc H] \<and>
     p_cached w = of_nat (p_view w) \<and> c_cached w = of_nat (c_view w) \<and>
     p_view w \<le> H \<and> H \<le> c_view w \<and> c_view w \<le> T \<and> T \<le> p_view w + C"

text \<open>
  Every published element not yet taken is in its slot, written by the push of its number; every
  slot was last read for some element already taken, or never.
\<close>

definition contents_ok :: "nat \<Rightarrow> nat \<Rightarrow> nat \<Rightarrow> 'a list \<Rightarrow> nat list \<Rightarrow> 'a list \<Rightarrow> bool" where
  "contents_ok C T K ss ws ps \<longleftrightarrow> length ss = C \<and> length ws = C \<and>
     (\<forall>k. K \<le> k \<longrightarrow> k < T \<longrightarrow> ss ! (k mod C) = ps ! k \<and> ws ! (k mod C) = Suc k)"

definition reads_ok :: "nat \<Rightarrow> nat \<Rightarrow> nat list \<Rightarrow> bool" where
  "reads_ok C K rs \<longleftrightarrow> length rs = C \<and>
     (\<forall>s<C. rs ! s = 0 \<or> (\<exists>k<K. k mod C = s \<and> rs ! s = Suc k))"

definition world_inv :: "nat \<Rightarrow> nat \<Rightarrow> nat \<Rightarrow> 'a world \<Rightarrow> bool" where
  "world_inv C T H w \<longleftrightarrow> counters_ok C T H w \<and> length (pushed w) = T \<and> popped w = take H (pushed w) \<and>
     contents_ok C T (taken (c_pc w) H) (slots w) (written w) (pushed w) \<and>
     reads_ok C (taken (c_pc w) H) (read_done w) \<and>
     producer_ok C T (p_view w) (slots w) (written w) (p_pc w) \<and>
     consumer_ok H (c_view w) (pushed w) (c_pc w)"

lemma taken_bounds: "H \<le> taken pc H" "taken pc H \<le> Suc H"
  by (cases pc; simp)+

lemma taken_le: "consumer_ok H view ps pc \<Longrightarrow> H \<le> view \<Longrightarrow> view \<le> T \<Longrightarrow> taken pc H \<le> T"
  by (cases pc) simp_all

lemma consumer_ok_push: "consumer_ok H view ps pc \<Longrightarrow> view \<le> length ps \<Longrightarrow> consumer_ok H view (ps @ [x]) pc"
  by (cases pc) (simp_all add: nth_append)

lemma producer_ok_read:
  "producer_ok C T view ss ws pc \<Longrightarrow> (T < view + C \<Longrightarrow> ss' ! (T mod C) = ss ! (T mod C)) \<Longrightarrow>
   producer_ok C T view ss' ws pc"
  by (cases pc) simp_all

lemma world_inv_new: "capacity_ok cap \<Longrightarrow> world_inv (unat cap) 0 0 (world_new cap x)"
  by (simp add: world_inv_def counters_ok_def contents_ok_def reads_ok_def world_new_def)

lemma counters_last:
  assumes "counters_ok C T H w"
  shows "last (tail_hist w) = of_nat T" and "last (head_hist w) = of_nat H"
    and "j \<le> H \<Longrightarrow> head_hist w ! j = of_nat j" and "j \<le> T \<Longrightarrow> tail_hist w ! j = of_nat j"
    and "length (tail_hist w) = Suc T" and "length (head_hist w) = Suc H"
proof -
  have h: "tail_hist w = map of_nat [0..<Suc T]" "head_hist w = map of_nat [0..<Suc H]"
    using assms by (simp_all add: counters_ok_def)
  show "last (tail_hist w) = of_nat T" "last (head_hist w) = of_nat H" by (simp_all add: h)
  show "length (tail_hist w) = Suc T" "length (head_hist w) = Suc H" by (simp_all add: h)
  have "map of_nat [0..<Suc n] ! j = (of_nat j :: 64 word)" if "j \<le> n" for n
    using that by (simp add: nth_map del: upt_Suc)
  then show "j \<le> H \<Longrightarrow> head_hist w ! j = of_nat j" "j \<le> T \<Longrightarrow> tail_hist w ! j = of_nat j"
    by (simp_all add: h del: upt_Suc)
qed

lemma full_iff:
  assumes "capacity_ok cap" and "q \<le> T" and "T \<le> q + unat cap"
  shows "(of_nat T - of_nat q = cap) \<longleftrightarrow> T = q + unat cap"
proof -
  have "T - q < 2 ^ 64" using assms(3) capacity_bounds(2) [OF assms(1)] by linarith
  from of_nat_diff_eq [OF assms(2) this capacity_bounds(2) [OF assms(1)]] assms(2) show ?thesis by auto
qed

lemma empty_iff:
  assumes "capacity_ok cap" and "H \<le> q" and "q \<le> H + unat cap"
  shows "(of_nat H = (of_nat q :: 64 word)) \<longleftrightarrow> H = q"
proof -
  have "q - H < 2 ^ 64" using assms(3) capacity_bounds(2) [OF assms(1)] by linarith
  from of_nat_close_eq [OF assms(2) this] show ?thesis .
qed

lemma contents_write_ok:
  assumes "contents_ok C T K ss ws ps" and "0 < C" and "T < K + C"
  shows "contents_ok C T K (ss[T mod C := x]) (ws[T mod C := n]) ps"
proof -
  have "T mod C \<noteq> k mod C" if "K \<le> k" "k < T" for k
    using same_slot [of k C T] that assms(3) by auto
  with assms(1) show ?thesis by (auto simp: contents_ok_def)
qed

lemma contents_publish:
  assumes "contents_ok C T K ss ws ps" and "ss ! (T mod C) = x" and "ws ! (T mod C) = Suc T" and "length ps = T"
  shows "contents_ok C (Suc T) K ss ws (ps @ [x])"
  using assms by (auto simp: contents_ok_def nth_append less_Suc_eq)

lemma contents_read_ok:
  assumes "contents_ok C T H ss ws ps" and "T \<le> H + C"
  shows "contents_ok C T (Suc H) (ss[H mod C := x]) ws ps"
proof -
  have "H mod C \<noteq> k mod C" if "Suc H \<le> k" "k < T" for k
    using same_slot [of H C k] that assms(2) by auto
  with assms(1) show ?thesis by (auto simp: contents_ok_def)
qed

lemma reads_read: "reads_ok C H rs \<Longrightarrow> 0 < C \<Longrightarrow> reads_ok C (Suc H) (rs[H mod C := Suc H])"
  by (auto simp: reads_ok_def nth_list_update less_Suc_eq)

text \<open>The parts of the invariant, and one lemma per access that changes more than a program counter.\<close>

lemma world_invD:
  assumes "world_inv C T H w"
  shows "counters_ok C T H w" and "length (pushed w) = T" and "popped w = take H (pushed w)"
    and "contents_ok C T (taken (c_pc w) H) (slots w) (written w) (pushed w)"
    and "reads_ok C (taken (c_pc w) H) (read_done w)"
    and "producer_ok C T (p_view w) (slots w) (written w) (p_pc w)"
    and "consumer_ok H (c_view w) (pushed w) (c_pc w)"
    and "p_view w \<le> H" and "H \<le> c_view w" and "c_view w \<le> T" and "T \<le> p_view w + C"
    and "p_cached w = of_nat (p_view w)" and "c_cached w = of_nat (c_view w)"
  using assms by (simp_all add: world_inv_def counters_ok_def)

lemmas world_inv_order = world_invD(8-11)

lemma world_inv_idle:
  assumes "world_inv C T H w"
  shows "world_inv C T H (w\<lparr>p_pc := PIdle\<rparr>)" and "world_inv C T H (w\<lparr>p_pc := PLoad x\<rparr>)"
    and "c_pc w = CIdle \<Longrightarrow> world_inv C T H (w\<lparr>c_pc := CLoad\<rparr>)"
  using assms by (simp_all add: world_inv_def counters_ok_def)

lemma p_load_inv:
  assumes ok: "capacity_ok cap" and inv: "world_inv (unat cap) T H w" and t: "t = last (tail_hist w)"
  shows "world_inv (unat cap) T H (w\<lparr>p_pc := (if t - p_cached w = cap then PRefresh x t else PWrite x t)\<rparr>)"
proof -
  note le = world_inv_order [OF inv]
  have t: "t = of_nat T" using t counters_last(1) [OF world_invD(1) [OF inv]] by simp
  have "(t - p_cached w = cap) \<longleftrightarrow> T = p_view w + unat cap"
    using full_iff [OF ok _ le(4)] le by (simp add: t world_invD(12) [OF inv])
  with inv t le show ?thesis by (auto simp: world_inv_def counters_ok_def)
qed

lemma p_refresh_inv:
  assumes ok: "capacity_ok cap" and inv: "world_inv (unat cap) T H w" and pc: "p_pc w = PRefresh x t"
    and j: "p_view w \<le> j" "j < length (head_hist w)"
  shows "world_inv (unat cap) T H (w\<lparr>p_cached := head_hist w ! j, p_view := j,
    p_pc := (if t - head_hist w ! j = cap then PIdle else PWrite x t)\<rparr>)"
proof -
  note le = world_inv_order [OF inv] and hist = counters_last [OF world_invD(1) [OF inv]]
  have j': "j \<le> H" "head_hist w ! j = of_nat j" "t = of_nat T"
    using j(2) hist(3,6) world_invD(6) [OF inv] pc by auto
  have "(t - head_hist w ! j = cap) \<longleftrightarrow> T = j + unat cap"
    using full_iff [OF ok, of j T] le j(1) j' by simp
  with inv j(1) j' le show ?thesis by (auto simp: world_inv_def counters_ok_def)
qed

lemma p_write_inv:
  assumes ok: "capacity_ok cap" and inv: "world_inv (unat cap) T H w" and pc: "p_pc w = PWrite x t"
  shows "world_inv (unat cap) T H (w\<lparr>slots := (slots w)[slot cap t := x],
    written := (written w)[slot cap t := length (tail_hist w)], p_pc := PPublish x t\<rparr>)"
proof -
  note C = capacity_bounds [OF ok] and D = world_invD [OF inv]
  have t: "slot cap t = T mod unat cap" "t = of_nat T" "T < p_view w + unat cap"
    using D(6) pc by (simp_all add: slot_mod [OF ok])
  have "T < taken (c_pc w) H + unat cap" using t(3) D(8) taken_bounds(1) [of H "c_pc w"] by linarith
  from contents_write_ok [OF D(4) C(1) this, of x "Suc T"] show ?thesis
    using D t counters_last(5) [OF D(1)] C(1)
    by (simp add: world_inv_def counters_ok_def contents_ok_def)
qed

lemma p_publish_inv:
  assumes inv: "world_inv C T H w" and pc: "p_pc w = PPublish x t"
  shows "world_inv C (Suc T) H (w\<lparr>tail_hist := tail_hist w @ [t + 1], pushed := pushed w @ [x], p_pc := PIdle\<rparr>)"
proof -
  note D = world_invD [OF inv]
  have t: "t = of_nat T" "T < p_view w + C" "slots w ! (T mod C) = x" "written w ! (T mod C) = Suc T"
    using D(6) pc by simp_all
  have "of_nat T + 1 = (of_nat (Suc T) :: 64 word)" by simp
  then show ?thesis
    using contents_publish [OF D(4) t(3,4) D(2)] consumer_ok_push [OF D(7)] D t
    by (simp add: world_inv_def counters_ok_def)
qed

lemma c_load_inv:
  assumes ok: "capacity_ok cap" and inv: "world_inv (unat cap) T H w" and pc: "c_pc w = CLoad" and h: "h = last (head_hist w)"
  shows "world_inv (unat cap) T H (w\<lparr>c_pc := (if h = c_cached w then CRefresh h else CRead h)\<rparr>)"
proof -
  note le = world_inv_order [OF inv]
  have h: "h = of_nat H" using h counters_last(2) [OF world_invD(1) [OF inv]] by simp
  have "(h = c_cached w) \<longleftrightarrow> H = c_view w"
    using empty_iff [OF ok, of H "c_view w"] le by (simp add: h world_invD(13) [OF inv])
  with inv h pc le show ?thesis by (auto simp: world_inv_def counters_ok_def)
qed

lemma c_refresh_inv:
  assumes ok: "capacity_ok cap" and inv: "world_inv (unat cap) T H w" and pc: "c_pc w = CRefresh h"
    and j: "c_view w \<le> j" "j < length (tail_hist w)"
  shows "world_inv (unat cap) T H (w\<lparr>c_cached := tail_hist w ! j, c_view := j,
    c_pc := (if h = tail_hist w ! j then CIdle else CRead h)\<rparr>)"
proof -
  note le = world_inv_order [OF inv] and hist = counters_last [OF world_invD(1) [OF inv]]
  have j': "j \<le> T" "tail_hist w ! j = of_nat j" "h = of_nat H"
    using j(2) hist(4,5) world_invD(7) [OF inv] pc by auto
  have "(h = tail_hist w ! j) \<longleftrightarrow> H = j"
    using empty_iff [OF ok, of H j] le j(1) j' by simp
  with inv j(1) j' pc le show ?thesis by (auto simp: world_inv_def counters_ok_def)
qed

lemma c_read_inv:
  assumes ok: "capacity_ok cap" and inv: "world_inv (unat cap) T H w" and pc: "c_pc w = CRead h"
    and y: "y = slots w ! slot cap h"
  shows "world_inv (unat cap) T H (w\<lparr>slots := (slots w)[slot cap h := moved y],
    read_done := (read_done w)[slot cap h := length (head_hist w)], c_pc := CPublish y h\<rparr>)"
proof -
  let ?C = "unat cap"
  note C = capacity_bounds [OF ok] and D = world_invD [OF inv]
  have h: "slot cap h = H mod ?C" "h = of_nat H" "H < c_view w" "taken (c_pc w) H = H"
    using D(7) pc by (simp_all add: slot_mod [OF ok])
  have y': "y = pushed w ! H" using D(4) h D(10) by (simp add: y contents_ok_def)
  have "T \<le> H + ?C" using D(8,11) by linarith
  note con = contents_read_ok [OF D(4) [unfolded h(4)] this, of "moved y"]
  have "T mod ?C \<noteq> H mod ?C" if "T < p_view w + ?C"
    using same_slot [of H ?C T] that D(8,10) h(3) by auto
  then have "producer_ok ?C T (p_view w) ((slots w)[H mod ?C := moved y]) (written w) (p_pc w)"
    by (intro producer_ok_read [OF D(6)]) (metis nth_list_update_neq)
  with con reads_read [OF D(5) [unfolded h(4)] C(1)] show ?thesis
    using D(1-3) h y' counters_last(6) [OF D(1)] by (simp add: world_inv_def counters_ok_def)
qed

lemma c_publish_inv:
  assumes inv: "world_inv C T H w" and pc: "c_pc w = CPublish y h"
  shows "world_inv C T (Suc H) (w\<lparr>head_hist := head_hist w @ [h + 1], popped := popped w @ [y], c_pc := CIdle\<rparr>)"
proof -
  note D = world_invD [OF inv]
  have h: "h = of_nat H" "H < c_view w" "y = pushed w ! H" "taken (c_pc w) H = Suc H"
    using D(7) pc by simp_all
  have "of_nat H + 1 = (of_nat (Suc H) :: 64 word)" by simp
  then show ?thesis
    using D h by (simp add: world_inv_def counters_ok_def take_Suc_conv_app_nth)
qed

lemma step_inv:
  assumes ok: "capacity_ok cap" and inv: "world_inv (unat cap) T H w" and st: "step cap moved w w'"
  shows "\<exists>T' H'. world_inv (unat cap) T' H' w'"
  using st
  by (cases; hypsubst; blast intro: world_inv_idle [OF inv] p_load_inv [OF ok inv] p_refresh_inv [OF ok inv] p_write_inv [OF ok inv]
      p_publish_inv [OF inv] c_load_inv [OF ok inv] c_refresh_inv [OF ok inv] c_read_inv [OF ok inv] c_publish_inv [OF inv])

lemma reachable_inv:
  assumes "capacity_ok cap" and "reachable cap moved T0 w"
  shows "\<exists>T H. world_inv (unat cap) T H w"
  using assms(2)
proof (induction rule: reachable.induct)
  case init
  show ?case by (intro exI) (rule world_inv_new [OF assms(1)])
next
  case (more w w')
  then show ?case using step_inv [OF assms(1)] by blast
qed

subsection \<open>Properties\<close>

lemma inv_not_racy:
  assumes ok: "capacity_ok cap" and inv: "world_inv (unat cap) T H w"
  shows "\<not> racy cap w"
proof -
  let ?C = "unat cap"
  note C = capacity_bounds [OF ok] and sl = slot_mod [OF ok]
  have ctr: "counters_ok ?C T H w" and con: "contents_ok ?C T (taken (c_pc w) H) (slots w) (written w) (pushed w)"
    and rds: "reads_ok ?C (taken (c_pc w) H) (read_done w)"
    and pok: "producer_ok ?C T (p_view w) (slots w) (written w) (p_pc w)"
    and cok: "consumer_ok H (c_view w) (pushed w) (c_pc w)"
    using inv by (simp_all add: world_inv_def)
  have le: "p_view w \<le> H" "H \<le> c_view w" "c_view w \<le> T" "T \<le> p_view w + ?C"
    using ctr by (simp_all add: counters_ok_def)
  have lens: "length (slots w) = ?C" using con by (simp add: contents_ok_def)
  have "slot cap t < ?C \<and> read_done w ! slot cap t \<le> p_view w" if "p_pc w = PWrite x t" for x t
  proof -
    have t: "slot cap t = T mod ?C" "T < p_view w + ?C" using pok that by (simp_all add: sl)
    have "T mod ?C < ?C" using C(1) by simp
    then consider "read_done w ! (T mod ?C) = 0"
      | k where "k < taken (c_pc w) H" "k mod ?C = T mod ?C" "read_done w ! (T mod ?C) = Suc k"
      using rds by (auto simp: reads_ok_def)
    then show ?thesis
    proof cases
      case (2 k)
      have "k < T" using 2(1) taken_le [OF cok le(2,3)] by simp
      from same_slot [OF 2(2) this] t(2) 2(3) C(1) show ?thesis by (simp add: t(1))
    qed (simp add: t(1) C(1))
  qed
  moreover have "slot cap h < ?C \<and> written w ! slot cap h \<le> c_view w" if "c_pc w = CRead h" for h
  proof -
    have h: "slot cap h = H mod ?C" "H < c_view w" "taken (c_pc w) H = H" using cok that by (simp_all add: sl)
    with con le have "written w ! (H mod ?C) = Suc H" by (simp add: contents_ok_def)
    with h C(1) show ?thesis by simp
  qed
  ultimately show ?thesis
    by (auto simp: racy_def lens not_le split: producer_pc.splits consumer_pc.splits)
qed

text \<open>
  C2: no data race, no lost or duplicated element.  In every interleaving of one producer and one
  consumer, with loads that may be stale, no slot access is unsynchronized or out of the array;
  the elements popped are the first ones pushed, in order; and at most \<open>Capacity\<close> elements are in
  between.
\<close>

theorem spsc_race_free_fifo:
  assumes "capacity_ok cap" and "reachable cap moved T0 w"
  shows "\<not> racy cap w \<and> popped w = take (length (popped w)) (pushed w) \<and>
    length (popped w) \<le> length (pushed w) \<and> length (pushed w) \<le> length (popped w) + unat cap"
proof -
  obtain T H where inv: "world_inv (unat cap) T H w" using reachable_inv [OF assms] by blast
  then have "length (pushed w) = T" "popped w = take H (pushed w)" "H \<le> T" "T \<le> H + unat cap"
    by (auto simp: world_inv_def counters_ok_def)
  with inv_not_racy [OF assms(1) inv] show ?thesis by simp
qed

text \<open>
  C24: no spurious refusal.  When a step of a reachable state makes a push refuse, that step loads
  the head counter, and reads one, at least as new as the one it had, with which the pushed elements
  fill the capacity: the ring was full when that many elements had been popped.  When it makes a pop
  refuse, it loads the tail counter, which says that as many elements had been pushed as have been
  popped.  Conversely a push that reads a head counter with which there is room goes on to write, and
  a pop that reads a tail counter ahead of it goes on to read.
\<close>

theorem no_spurious_refusal:
  assumes "capacity_ok cap" and "reachable cap moved T0 w" and "step cap moved w w'"
  shows "(p_pc w \<noteq> PIdle \<and> p_pc w' = PIdle \<and> pushed w' = pushed w \<longrightarrow>
      (\<exists>y u. p_pc w = PRefresh y u) \<and> p_view w \<le> p_view w' \<and> p_view w' \<le> length (popped w) \<and>
      length (pushed w) = p_view w' + unat cap) \<and>
    (p_pc w = PRefresh x t \<and> p_pc w' \<noteq> p_pc w \<and> length (pushed w) < p_view w' + unat cap \<longrightarrow> p_pc w' = PWrite x t) \<and>
    (c_pc w \<noteq> CIdle \<and> c_pc w' = CIdle \<and> popped w' = popped w \<longrightarrow>
      (\<exists>g. c_pc w = CRefresh g) \<and> c_view w \<le> c_view w' \<and> c_view w' \<le> length (pushed w) \<and>
      length (popped w) = c_view w') \<and>
    (c_pc w = CRefresh h \<and> c_pc w' \<noteq> c_pc w \<and> length (popped w) < c_view w' \<longrightarrow> c_pc w' = CRead h)"
proof -
  let ?C = "unat cap"
  obtain T H where inv: "world_inv ?C T H w" using reachable_inv [OF assms(1,2)] by blast
  then have ctr: "counters_ok ?C T H w" and len: "length (pushed w) = T" "length (popped w) = H"
    and pok: "producer_ok ?C T (p_view w) (slots w) (written w) (p_pc w)"
    and cok: "consumer_ok H (c_view w) (pushed w) (c_pc w)"
    by (auto simp: world_inv_def counters_ok_def)
  have le: "p_view w \<le> H" "H \<le> c_view w" "c_view w \<le> T" "T \<le> p_view w + ?C"
    using ctr by (simp_all add: counters_ok_def)
  note hist = counters_last [OF ctr]
  have full: "(of_nat T - head_hist w ! j = cap) = (T = j + ?C)" if "p_view w \<le> j" "j < length (head_hist w)" for j
    using full_iff [OF assms(1), of j T] le that hist(3,6) by simp
  have empty: "((of_nat H :: 64 word) = tail_hist w ! j) = (H = j)" if "c_view w \<le> j" "j < length (tail_hist w)" for j
    using empty_iff [OF assms(1), of H j] le that hist(4,5) by simp
  from assms(3) show ?thesis
  proof (cases rule: step.cases)
    case (p_refresh y u j)
    then have "u = of_nat T" "j \<le> H" using pok hist(6) by simp_all
    then show ?thesis using p_refresh full [of j] len by auto
  next
    case (c_refresh g j)
    then have "g = of_nat H" "j \<le> T" using cok hist(5) by simp_all
    then show ?thesis using c_refresh empty [of j] len by auto
  qed auto
qed

subsection \<open>A concrete run\<close>

abbreviation steps :: "size_t \<Rightarrow> ('a \<Rightarrow> 'a) \<Rightarrow> 'a world \<Rightarrow> 'a world \<Rightarrow> bool" where
  "steps cap moved \<equiv> (step cap moved)\<^sup>*\<^sup>*"

lemma steps_reachable:
  assumes "steps cap moved w w'" and "reachable cap moved T0 w"
  shows "reachable cap moved T0 w'"
  using assms by (induction rule: rtranclp_induct) (auto intro: reachable.more)

lemma push_steps:
  assumes "p_pc w = PIdle" and "last (tail_hist w) - p_cached w \<noteq> cap"
    and "slot cap (last (tail_hist w)) < length (slots w)"
  shows "\<exists>w'. steps cap moved w w' \<and> pushed w' = pushed w @ [x] \<and>
    slots w' = (slots w)[slot cap (last (tail_hist w)) := x] \<and>
    tail_hist w' = tail_hist w @ [last (tail_hist w) + 1] \<and> head_hist w' = head_hist w \<and>
    c_pc w' = c_pc w \<and> c_cached w' = c_cached w \<and> c_view w' = c_view w \<and> popped w' = popped w"
proof -
  let ?t = "last (tail_hist w)"
  let ?w1 = "w\<lparr>p_pc := PLoad x\<rparr>" and ?w2 = "w\<lparr>p_pc := PWrite x ?t\<rparr>"
  let ?w3 = "w\<lparr>slots := (slots w)[slot cap ?t := x],
    written := (written w)[slot cap ?t := length (tail_hist w)], p_pc := PPublish x ?t\<rparr>"
  let ?w4 = "?w3\<lparr>tail_hist := tail_hist w @ [?t + 1], pushed := pushed w @ [x], p_pc := PIdle\<rparr>"
  have "step cap moved w ?w1" using assms(1) by (rule step.p_call)
  moreover have "step cap moved ?w1 ?w2"
    using step.p_load [of ?w1 x ?t cap moved] assms(2) by simp
  moreover have "step cap moved ?w2 ?w3"
    using step.p_write [of ?w2 x ?t cap moved] assms(3) by simp
  moreover have "step cap moved ?w3 ?w4"
    using step.p_publish [of ?w3 x ?t cap moved] by simp
  ultimately have "steps cap moved w ?w4" by (meson r_into_rtranclp rtranclp_trans)
  then show ?thesis by (intro exI [of _ ?w4]) simp
qed

lemma pop_steps:
  assumes "c_pc w = CIdle" and "last (head_hist w) = c_cached w" and "c_view w < length (tail_hist w)"
    and "last (head_hist w) \<noteq> last (tail_hist w)" and "slot cap (last (head_hist w)) < length (slots w)"
  shows "\<exists>w'. steps cap moved w w' \<and> popped w' = popped w @ [slots w ! slot cap (last (head_hist w))] \<and>
    head_hist w' = head_hist w @ [last (head_hist w) + 1] \<and> tail_hist w' = tail_hist w \<and>
    pushed w' = pushed w \<and> c_pc w' = CIdle \<and> c_cached w' = last (tail_hist w)"
proof -
  let ?h = "last (head_hist w)" and ?j = "length (tail_hist w) - 1"
  have ne: "tail_hist w \<noteq> []" using assms(3) by auto
  then have lt: "tail_hist w ! ?j = last (tail_hist w)" by (simp add: last_conv_nth)
  let ?y = "slots w ! slot cap ?h"
  let ?w1 = "w\<lparr>c_pc := CLoad\<rparr>" and ?w2 = "w\<lparr>c_pc := CRefresh ?h\<rparr>"
  let ?w3 = "w\<lparr>c_cached := last (tail_hist w), c_view := ?j, c_pc := CRead ?h\<rparr>"
  let ?w4 = "?w3\<lparr>slots := (slots w)[slot cap ?h := moved ?y],
    read_done := (read_done w)[slot cap ?h := length (head_hist w)], c_pc := CPublish ?y ?h\<rparr>"
  let ?w5 = "?w4\<lparr>head_hist := head_hist w @ [?h + 1], popped := popped w @ [?y], c_pc := CIdle\<rparr>"
  have "step cap moved w ?w1" using assms(1) by (rule step.c_call)
  moreover have "step cap moved ?w1 ?w2"
    using step.c_load [of ?w1 ?h cap moved] assms(2) by simp
  moreover have "step cap moved ?w2 ?w3"
    using step.c_refresh [of ?w2 ?h ?j cap moved] assms(3,4) ne lt by simp
  moreover have "step cap moved ?w3 ?w4"
    using step.c_read [of ?w3 ?h cap ?y moved] assms(5) by simp
  moreover have "step cap moved ?w4 ?w5"
    using step.c_publish [of ?w4 ?y ?h cap moved] by simp
  ultimately have "steps cap moved w ?w5" by (meson r_into_rtranclp rtranclp_trans)
  then show ?thesis by (intro exI [of _ ?w5]) simp
qed

text \<open>One push of 7 and one pop of it, on a ring of capacity 4.\<close>

lemma one_round:
  obtains w where "steps 4 id (world_new 4 0) w" and "reachable 4 id (0::nat) w"
    and "pushed w = [7]" and "popped w = [7]" and "tail_hist w = [0, 1]" and "head_hist w = [0, 1]"
    and "c_pc w = CIdle" and "c_cached w = 1"
proof -
  let ?w0 = "world_new 4 0 :: nat world"
  have sl: "slot 4 0 = 0" by (simp add: slot_def)
  have "replicate 4 (0::nat) = [0, 0, 0, 0]" by (simp add: numeral_eq_Suc)
  then have w0: "tail_hist ?w0 = [0]" "head_hist ?w0 = [0]" "p_cached ?w0 = 0" "c_cached ?w0 = 0" "c_view ?w0 = 0"
    "slots ?w0 = [0, 0, 0, 0]" "p_pc ?w0 = PIdle" "c_pc ?w0 = CIdle" "pushed ?w0 = []" "popped ?w0 = []"
    by (simp_all add: world_new_def)
  have "\<exists>w'. steps 4 id ?w0 w' \<and> pushed w' = pushed ?w0 @ [7] \<and>
    slots w' = (slots ?w0)[slot 4 (last (tail_hist ?w0)) := 7] \<and>
    tail_hist w' = tail_hist ?w0 @ [last (tail_hist ?w0) + 1] \<and> head_hist w' = head_hist ?w0 \<and>
    c_pc w' = c_pc ?w0 \<and> c_cached w' = c_cached ?w0 \<and> c_view w' = c_view ?w0 \<and> popped w' = popped ?w0"
    by (rule push_steps) (simp_all add: w0 sl)
  then obtain w1 where w1: "steps 4 id ?w0 w1" "pushed w1 = [7]" "slots w1 = [7, 0, 0, 0]"
    "tail_hist w1 = [0, 1]" "head_hist w1 = [0]" "c_pc w1 = CIdle" "c_cached w1 = 0" "c_view w1 = 0" "popped w1 = []"
    unfolding w0 by (auto simp: sl)
  have "\<exists>w'. steps 4 id w1 w' \<and> popped w' = popped w1 @ [slots w1 ! slot 4 (last (head_hist w1))] \<and>
    head_hist w' = head_hist w1 @ [last (head_hist w1) + 1] \<and> tail_hist w' = tail_hist w1 \<and>
    pushed w' = pushed w1 \<and> c_pc w' = CIdle \<and> c_cached w' = last (tail_hist w1)"
    by (rule pop_steps) (simp_all add: w1 sl)
  then obtain w where w: "steps 4 id w1 w" "popped w = [7]" "head_hist w = [0, 1]" "tail_hist w = [0, 1]"
    "pushed w = [7]" "c_pc w = CIdle" "c_cached w = 1"
    by (auto simp: w1 sl)
  have s: "steps 4 id ?w0 w" using w1(1) w(1) by (rule rtranclp_trans)
  then have "reachable 4 id 0 w" by (rule steps_reachable) (rule reachable.init)
  with s w show ?thesis by (intro that)
qed

theorem spsc_race_free_fifo_witness:
  "\<exists>w. reachable 4 id (0::nat) w \<and> pushed w = [7] \<and> \<not> racy 4 w \<and> popped w = take (length (popped w)) [7]"
proof -
  obtain w where w: "reachable 4 id (0::nat) w" "pushed w = [7]" using one_round by metis
  from spsc_race_free_fifo [OF capacity_ok_4 w(1)] w show ?thesis by auto
qed

theorem no_spurious_refusal_witness:
  "\<exists>w w' :: nat world. reachable 4 id 0 w \<and> step 4 id w w' \<and> c_pc w = CRefresh 0 \<and> c_pc w' = CIdle \<and>
     length (popped w) = c_view w'"
proof -
  let ?w0 = "world_new 4 0 :: nat world"
  let ?w1 = "?w0\<lparr>c_pc := CLoad\<rparr>" and ?w2 = "?w0\<lparr>c_pc := CRefresh 0\<rparr>"
  have w0: "tail_hist ?w0 = [0]" "head_hist ?w0 = [0]" "c_cached ?w0 = 0" "c_view ?w0 = 0" "c_pc ?w0 = CIdle"
    by (simp_all add: world_new_def)
  have "step 4 id ?w0 ?w1" using w0(5) by (rule step.c_call)
  moreover have "step 4 id ?w1 ?w2" using step.c_load [of ?w1 0 4 id] w0(2,3) by simp
  ultimately have r: "reachable 4 id 0 ?w2" by (blast intro: reachable.init reachable.more)
  have s: "step 4 id ?w2 (?w2\<lparr>c_cached := 0, c_view := 0, c_pc := CIdle\<rparr>)"
    using step.c_refresh [of ?w2 0 0 4 id] w0 by simp
  from no_spurious_refusal [OF capacity_ok_4 r s] have "length (popped ?w2) = 0" by simp
  with r s show ?thesis
    by (intro exI [of _ ?w2] exI [of _ "?w2\<lparr>c_cached := 0, c_view := 0, c_pc := CIdle\<rparr>"]) simp
qed

text \<open>
  C++ leaves the order of the two loads in \<open>size_approx\<close> open; this is what the call sees where the
  tail is loaded in the state \<open>w\<close> and then the head in \<open>w'\<close>.
\<close>

definition size_observed :: "'a world \<Rightarrow> 'a world \<Rightarrow> size_t" where
  "size_observed w w' = last (tail_hist w) - last (head_hist w')"

text \<open>
  C40: \<open>size_approx\<close> from a third thread can report a size the queue never had.  It loads the tail and
  then the head; if one element is pushed and popped in between, the difference wraps around to
  \<open>2 ^ 64 - 1\<close>, far above the capacity.
\<close>

theorem size_approx_can_wrap:
  "\<exists>w w'. reachable 4 id (0::nat) w \<and> steps 4 id w w' \<and> length (pushed w) = 0 \<and> length (pushed w') = 1 \<and>
     unat (size_observed w w') = 2 ^ 64 - 1"
proof -
  obtain w where w: "steps 4 id (world_new 4 (0::nat)) w" "pushed w = [7]" "head_hist w = [0, 1]"
    using one_round by metis
  moreover have "size_observed (world_new 4 (0::nat)) w = - 1"
    by (simp add: size_observed_def w(3) world_new_def)
  moreover have "unat (- 1 :: 64 word) = 2 ^ 64 - 1" by (simp add: unsigned_minus_1_eq_mask mask_eq_exp_minus_1)
  moreover have "pushed (world_new 4 (0::nat)) = []" by (simp add: world_new_def)
  ultimately show ?thesis using reachable.init [of 4 id "0::nat"] by (metis length_0_conv length_Cons One_nat_def)
qed

end
