(* ===== verification/Ring_Refinement.thy ===== *)
theory Ring_Refinement
  imports Ring_Concurrent
begin

section \<open>The interleaved ring as an atomic queue, and as the sequential one\<close>

text \<open>
  Two simulations.  Every step of the interleaved ring is a step of an abstract queue, on which an
  element appears or disappears at once: the stores that publish the counters are the points where
  a push or a pop takes effect, all other accesses leave the queue alone.  And a call that runs
  with no step of the other thread in between, and reads the current value of the other counter,
  does what the function of Ring_Buffer does.
\<close>

subsection \<open>The abstract queue\<close>

datatype 'a queue_event = Internal | Enqueue 'a | Dequeue 'a

inductive queue_step :: "nat \<Rightarrow> 'a list \<Rightarrow> 'a queue_event \<Rightarrow> 'a list \<Rightarrow> bool" for room where
  internal: "queue_step room q Internal q"
| enqueue: "length q < room \<Longrightarrow> queue_step room q (Enqueue x) (q @ [x])"
| dequeue: "queue_step room (x # q) (Dequeue x) q"

inductive_simps queue_step_simps [simp]:
  "queue_step room q Internal q'" "queue_step room q (Enqueue x) q'" "queue_step room q (Dequeue x) q'"

fun enqueued :: "'a queue_event \<Rightarrow> 'a list" where
  "enqueued (Enqueue x) = [x]"
| "enqueued e = []"

fun dequeued :: "'a queue_event \<Rightarrow> 'a list" where
  "dequeued (Dequeue x) = [x]"
| "dequeued e = []"

text \<open>The elements in the ring.\<close>

definition in_ring :: "'a world \<Rightarrow> 'a list" where
  "in_ring w = drop (length (popped w)) (pushed w)"

lemma step_simulates:
  assumes ok: "capacity_ok cap" and inv: "world_inv (unat cap) T H w" and st: "step cap moved w w'"
  shows "\<exists>e. queue_step (unat cap) (in_ring w) e (in_ring w') \<and>
    pushed w' = pushed w @ enqueued e \<and> popped w' = popped w @ dequeued e"
proof -
  have len: "length (pushed w) = T" "length (popped w) = H" "popped w = take H (pushed w)"
    and le: "p_view w \<le> H" "H \<le> T"
    and pok: "producer_ok (unat cap) T (p_view w) (slots w) (written w) (p_pc w)"
    and cok: "consumer_ok H (c_view w) (pushed w) (c_pc w)" and view: "c_view w \<le> T"
    using inv by (auto simp: world_inv_def counters_ok_def)
  have keep: ?thesis if "pushed w' = pushed w" "popped w' = popped w"
    using that by (intro exI [of _ Internal]) (simp add: in_ring_def)
  show ?thesis
    using st
  proof cases
    case (p_publish x t)
    have "T < p_view w + unat cap" using p_publish(2) pok by simp
    then have "length (in_ring w) < unat cap" using le len by (simp add: in_ring_def)
    then show ?thesis
      using len le by (intro exI [of _ "Enqueue x"]) (simp add: p_publish(1) in_ring_def)
  next
    case (c_publish y h)
    have y: "y = pushed w ! H" "H < T" using c_publish(2) cok view by simp_all
    then have "in_ring w = y # in_ring w'"
      using len by (simp add: c_publish(1) in_ring_def Cons_nth_drop_Suc)
    then show ?thesis by (intro exI [of _ "Dequeue y"]) (simp add: c_publish(1))
  qed (rule keep; simp)+
qed

text \<open>
  C9: the interleaved ring refines an atomic bounded queue.  In any reachable state the elements
  pushed and not yet popped form a queue; every step of either thread leaves it alone, appends
  the element whose push returns, with room for it, or removes its first element, which is the one
  the pop returns.
\<close>

theorem ring_refines_atomic_queue:
  assumes "capacity_ok cap" and "reachable cap moved T0 w" and "step cap moved w w'"
  shows "\<exists>e. queue_step (unat cap) (in_ring w) e (in_ring w') \<and>
    pushed w' = pushed w @ enqueued e \<and> popped w' = popped w @ dequeued e"
  using reachable_inv [OF assms(1,2)] step_simulates [OF assms(1) _ assms(3)] by blast

text \<open>The first push of a ring of capacity 4, before the store that publishes it.\<close>

theorem ring_refines_atomic_queue_witness:
  "\<exists>w w' e. reachable 4 id (0::nat) w \<and> step 4 id w w' \<and> pushed w = [] \<and> pushed w' = [7] \<and>
     in_ring w = [] \<and> queue_step 4 (in_ring w) e [7] \<and> enqueued e = [7]"
proof -
  let ?w0 = "world_new 4 (0::nat)"
  let ?w1 = "?w0\<lparr>p_pc := PLoad 7\<rparr>" and ?w2 = "?w0\<lparr>p_pc := PWrite 7 0\<rparr>"
  let ?w3 = "?w0\<lparr>slots := (slots ?w0)[0 := 7], written := (written ?w0)[0 := 1], p_pc := PPublish 7 0\<rparr>"
  let ?w4 = "?w3\<lparr>tail_hist := [0, 1], pushed := [7], p_pc := PIdle\<rparr>"
  have w0: "p_pc ?w0 = PIdle" "tail_hist ?w0 = [0]" "p_cached ?w0 = 0" "length (slots ?w0) = 4" "pushed ?w0 = []" "popped ?w0 = []"
    by (simp_all add: world_new_def)
  have sl: "slot 4 0 = 0" by (simp add: slot_def)
  have "step 4 id ?w0 ?w1" using w0(1) by (rule step.p_call)
  moreover have "step 4 id ?w1 ?w2" using step.p_load [of ?w1 7 0 4 id] w0 by simp
  moreover have "step 4 id ?w2 ?w3" using step.p_write [of ?w2 7 0 4 id] w0 sl by simp
  ultimately have r: "reachable 4 id 0 ?w3" by (meson reachable.init reachable.more)
  have st: "step 4 id ?w3 ?w4" using step.p_publish [of ?w3 7 0 4 id] w0 by simp
  have "unat (4 :: size_t) = 4" by simp
  with ring_refines_atomic_queue [OF capacity_ok_4 r st] obtain e where
    "queue_step 4 (in_ring ?w3) e (in_ring ?w4)" "pushed ?w4 = pushed ?w3 @ enqueued e" by auto
  then have e: "queue_step 4 [] e [7]" "enqueued e = [7]" using w0(5,6) by (simp_all add: in_ring_def)
  have "pushed ?w3 = []" "pushed ?w4 = [7]" "in_ring ?w3 = []" using w0(5,6) by (simp_all add: in_ring_def)
  with r st e show ?thesis by metis
qed

subsection \<open>A call on its own\<close>

definition ring_of :: "'a world \<Rightarrow> 'a ring" where
  "ring_of w = \<lparr>producer = \<lparr>tail = last (tail_hist w), head_cached = p_cached w\<rparr>,
     consumer = \<lparr>head = last (head_hist w), tail_cached = c_cached w\<rparr>, buffer = slots w\<rparr>"

lemma ring_of_simps [simp]:
  "tail (producer (ring_of w)) = last (tail_hist w)" "head_cached (producer (ring_of w)) = p_cached w"
  "head (consumer (ring_of w)) = last (head_hist w)" "tail_cached (consumer (ring_of w)) = c_cached w"
  "buffer (ring_of w) = slots w"
  by (simp_all add: ring_of_def)

lemma then_step: "steps cap moved w w1 \<Longrightarrow> step cap moved w1 w2 \<Longrightarrow> steps cap moved w w2"
  by (rule rtranclp.rtrancl_into_rtrancl)

text \<open>From the slot access on.\<close>

definition pushed_world :: "size_t \<Rightarrow> 'a \<Rightarrow> 'a world \<Rightarrow> 'a world" where
  "pushed_world cap x w = w\<lparr>slots := (slots w)[slot cap (last (tail_hist w)) := x],
     written := (written w)[slot cap (last (tail_hist w)) := length (tail_hist w)],
     tail_hist := tail_hist w @ [last (tail_hist w) + 1], pushed := pushed w @ [x], p_pc := PIdle\<rparr>"

lemma write_and_publish:
  assumes "steps cap moved w0 w" and "p_pc w = PWrite x (last (tail_hist w))"
    and "slot cap (last (tail_hist w)) < length (slots w)"
  shows "steps cap moved w0 (pushed_world cap x w)"
proof -
  note w1 = then_step [OF assms(1) step.p_write [OF assms(2,3)]]
  from then_step [OF w1 step.p_publish] show ?thesis by (simp add: pushed_world_def)
qed

definition popped_world :: "size_t \<Rightarrow> ('a \<Rightarrow> 'a) \<Rightarrow> 'a world \<Rightarrow> 'a world" where
  "popped_world cap moved w = (let h = last (head_hist w); y = slots w ! slot cap h in
     w\<lparr>slots := (slots w)[slot cap h := moved y], read_done := (read_done w)[slot cap h := length (head_hist w)],
       head_hist := head_hist w @ [h + 1], popped := popped w @ [y], c_pc := CIdle\<rparr>)"

lemma read_and_publish:
  assumes "steps cap moved w0 w" and "c_pc w = CRead (last (head_hist w))"
    and "slot cap (last (head_hist w)) < length (slots w)"
  shows "steps cap moved w0 (popped_world cap moved w)"
proof -
  note w1 = then_step [OF assms(1) step.c_read [OF assms(2,3) refl]]
  from then_step [OF w1 step.c_publish] show ?thesis by (simp add: popped_world_def Let_def)
qed

definition producer_returns :: "size_t \<Rightarrow> ('a \<Rightarrow> 'a) \<Rightarrow> 'a \<Rightarrow> 'a world \<Rightarrow> bool \<Rightarrow> 'a world \<Rightarrow> bool" where
  "producer_returns cap moved x w answer w' \<longleftrightarrow> steps cap moved w w' \<and> p_pc w' = PIdle \<and> c_pc w' = c_pc w \<and>
     pushed w' = pushed w @ (if answer then [x] else []) \<and> popped w' = popped w"

definition consumer_returns :: "size_t \<Rightarrow> ('a \<Rightarrow> 'a) \<Rightarrow> 'a \<Rightarrow> 'a world \<Rightarrow> bool \<Rightarrow> 'a world \<Rightarrow> bool" where
  "consumer_returns cap moved y w answer w' \<longleftrightarrow> steps cap moved w w' \<and> c_pc w' = CIdle \<and> p_pc w' = p_pc w \<and>
     popped w' = popped w @ (if answer then [y] else []) \<and> pushed w' = pushed w"

lemma solo_push:
  assumes ok: "capacity_ok cap" and inv: "world_inv (unat cap) T H w" and idle: "p_pc w = PIdle"
  shows "\<exists>answer w'. emplace_impl cap x (ring_of w) = Some (answer, ring_of w') \<and> producer_returns cap moved x w answer w'"
proof -
  let ?t = "last (tail_hist w)" and ?h = "last (head_hist w)" and ?j = "length (head_hist w) - 1"
  have lens: "length (slots w) = unat cap" "p_view w \<le> ?j" "?j < length (head_hist w)" "head_hist w ! ?j = ?h"
    using inv counters_last [of "unat cap" T H w] by (auto simp: world_inv_def counters_ok_def contents_ok_def last_conv_nth)
  have sl: "slot cap ?t < length (slots w)" using slot_mod [OF ok, of "unat ?t"] capacity_bounds(1) [OF ok] lens(1) by simp
  let ?w1 = "w\<lparr>p_pc := PLoad x\<rparr>"
  have s1: "steps cap moved w ?w1" using step.p_call [OF idle] by (rule r_into_rtranclp)
  show ?thesis
  proof (cases "?t - p_cached w = cap")
    case False
    let ?w2 = "w\<lparr>p_pc := PWrite x ?t\<rparr>"
    have s2: "steps cap moved w ?w2" using then_step [OF s1 step.p_load [of ?w1 x ?t]] False by simp
    have "steps cap moved w (pushed_world cap x ?w2)" by (rule write_and_publish [OF s2]) (use sl in simp_all)
    then show ?thesis using False sl
      by (intro exI [of _ True] exI [of _ "pushed_world cap x ?w2"])
        (simp add: producer_returns_def pushed_world_def Let_def emplace_impl_def write_slot_def ring_of_def)
  next
    case True
    let ?w2 = "w\<lparr>p_pc := PRefresh x ?t\<rparr>"
    have s2: "steps cap moved w ?w2" using then_step [OF s1 step.p_load [of ?w1 x ?t]] True by simp
    let ?w3 = "w\<lparr>p_cached := ?h, p_view := ?j, p_pc := (if ?t - ?h = cap then PIdle else PWrite x ?t)\<rparr>"
    have s3: "steps cap moved w ?w3"
      using then_step [OF s2 step.p_refresh [of ?w2 x ?t ?j]] lens(2-4) by simp
    show ?thesis
    proof (cases "?t - ?h = cap")
      case full: True
      then show ?thesis using True s3
        by (intro exI [of _ False] exI [of _ ?w3]) (simp add: producer_returns_def Let_def emplace_impl_def ring_of_def)
    next
      case room: False
      have "steps cap moved w (pushed_world cap x ?w3)"
        by (rule write_and_publish [OF s3]) (use sl room in simp_all)
      then show ?thesis using True room sl
        by (intro exI [of _ True] exI [of _ "pushed_world cap x ?w3"])
          (simp add: producer_returns_def pushed_world_def Let_def emplace_impl_def write_slot_def ring_of_def)
    qed
  qed
qed

lemma solo_pop:
  assumes ok: "capacity_ok cap" and inv: "world_inv (unat cap) T H w" and idle: "c_pc w = CIdle"
  shows "\<exists>answer y w'. try_pop_ref cap moved out (ring_of w) = Some (answer, y, ring_of w') \<and> consumer_returns cap moved y w answer w'"
proof -
  let ?t = "last (tail_hist w)" and ?h = "last (head_hist w)" and ?j = "length (tail_hist w) - 1"
  have lens: "length (slots w) = unat cap" "c_view w \<le> ?j" "?j < length (tail_hist w)" "tail_hist w ! ?j = ?t"
    using inv counters_last [of "unat cap" T H w] by (auto simp: world_inv_def counters_ok_def contents_ok_def last_conv_nth)
  have sl: "slot cap ?h < length (slots w)" using slot_mod [OF ok, of "unat ?h"] capacity_bounds(1) [OF ok] lens(1) by simp
  let ?w1 = "w\<lparr>c_pc := CLoad\<rparr>"
  have s1: "steps cap moved w ?w1" using step.c_call [OF idle] by (rule r_into_rtranclp)
  let ?y = "slots w ! slot cap ?h"
  show ?thesis
  proof (cases "?h = c_cached w")
    case False
    let ?w2 = "w\<lparr>c_pc := CRead ?h\<rparr>"
    have s2: "steps cap moved w ?w2" using then_step [OF s1 step.c_load [of ?w1 ?h]] False by simp
    have "steps cap moved w (popped_world cap moved ?w2)" by (rule read_and_publish [OF s2]) (use sl in simp_all)
    then show ?thesis using False sl
      by (intro exI [of _ True] exI [of _ ?y] exI [of _ "popped_world cap moved ?w2"])
        (simp add: consumer_returns_def popped_world_def Let_def try_pop_ref_def write_slot_def read_slot_def ring_of_def)
  next
    case True
    let ?w2 = "w\<lparr>c_pc := CRefresh ?h\<rparr>"
    have s2: "steps cap moved w ?w2" using then_step [OF s1 step.c_load [of ?w1 ?h]] True by simp
    let ?w3 = "w\<lparr>c_cached := ?t, c_view := ?j, c_pc := (if ?h = ?t then CIdle else CRead ?h)\<rparr>"
    have s3: "steps cap moved w ?w3"
      using then_step [OF s2 step.c_refresh [of ?w2 ?h ?j]] lens(2-4) by simp
    show ?thesis
    proof (cases "?h = ?t")
      case empty: True
      then show ?thesis using True s3
        by (intro exI [of _ False] exI [of _ out] exI [of _ ?w3])
          (simp add: consumer_returns_def Let_def try_pop_ref_def ring_of_def)
    next
      case some: False
      have "steps cap moved w (popped_world cap moved ?w3)"
        by (rule read_and_publish [OF s3]) (use sl some in simp_all)
      then show ?thesis using True some sl
        by (intro exI [of _ True] exI [of _ ?y] exI [of _ "popped_world cap moved ?w3"])
          (simp add: consumer_returns_def popped_world_def Let_def try_pop_ref_def write_slot_def read_slot_def ring_of_def)
    qed
  qed
qed

text \<open>
  The two models of the ring agree.  From any reachable state of the two threads, a push by an
  idle producer and a pop by an idle consumer, run without a step of the other thread in between
  and with the current value of the other counter, end in the answer and in the counters, cached
  indices and slots that \<open>try_push\<close> and \<open>try_pop\<close> compute.
\<close>

theorem solo_calls_agree:
  assumes "capacity_ok cap" and "reachable cap moved T0 w"
  shows "(p_pc w = PIdle \<longrightarrow> (\<exists>answer w'. try_push cap x (ring_of w) = Some (answer, ring_of w') \<and>
      producer_returns cap moved x w answer w')) \<and>
    (c_pc w = CIdle \<longrightarrow> (\<exists>answer y w'. try_pop_ref cap moved out (ring_of w) = Some (answer, y, ring_of w') \<and>
      consumer_returns cap moved y w answer w'))"
proof -
  obtain T H where inv: "world_inv (unat cap) T H w" using reachable_inv [OF assms] by blast
  show ?thesis
    unfolding try_push_def using solo_push [OF assms(1) inv] solo_pop [OF assms(1) inv] by (intro conjI impI)
qed

theorem solo_calls_agree_witness:
  "\<exists>w answer w'. reachable 4 id (0::nat) w \<and> pushed w = [7] \<and> popped w = [7] \<and>
     try_pop_ref 4 id 5 (ring_of w) = Some (False, 5, ring_of w') \<and> consumer_returns 4 id 5 w answer w'"
proof -
  obtain w where w: "reachable 4 id (0::nat) w" "pushed w = [7]" "popped w = [7]" "tail_hist w = [0, 1]"
    "head_hist w = [0, 1]" "c_pc w = CIdle" "c_cached w = 1"
    using one_round by metis
  obtain answer y w' where r: "try_pop_ref 4 id 5 (ring_of w) = Some (answer, y, ring_of w')" "consumer_returns 4 id y w answer w'"
    using solo_calls_agree [OF capacity_ok_4 w(1)] w(6) by blast
  moreover have "\<not> answer \<and> y = 5" using r(1) w(4,5,7) by (simp add: try_pop_ref_def)
  ultimately show ?thesis using w by auto
qed

end
