(* ===== verification/Ring_Layout.thy ===== *)
theory Ring_Layout
  imports Main
begin

section \<open>Where the members of the ring buffer lie (cache_line.hpp, ring_buffer.hpp)\<close>

text \<open>
  The alignment specifiers of \<open>SpscRingBuffer\<close> and the offsets they give its members under the
  layout rules of the platforms' C++ ABIs: a member starts at the next multiple of its alignment,
  and a class is as large as its members, rounded up to its own alignment.
\<close>

text \<open>\<open>std::hardware_destructive_interference_size\<close>, where the standard library defines it, else 64.\<close>

definition kCacheLineSize :: "nat option \<Rightarrow> nat" where
  "kCacheLineSize interference = (case interference of Some n \<Rightarrow> n | None \<Rightarrow> 64)"

definition round_up :: "nat \<Rightarrow> nat \<Rightarrow> nat" where
  "round_up n align = (n + (align - 1)) div align * align"

text \<open>A line holds two 8-byte counters; \<open>alignas\<close> makes it start at a cache line.\<close>

definition line_align :: "nat \<Rightarrow> nat" where
  "line_align line = max 8 line"

definition line_size :: "nat \<Rightarrow> nat" where
  "line_size line = round_up (8 + 8) (line_align line)"

definition producer_offset :: nat where
  "producer_offset = 0"

definition consumer_offset :: "nat \<Rightarrow> nat" where
  "consumer_offset line = round_up (producer_offset + line_size line) (line_align line)"

text \<open>\<open>alignas(kCacheLineSize) std::array<T, Capacity>\<close>, for a \<open>T\<close> of alignment \<open>align\<close>.\<close>

definition buffer_offset :: "nat \<Rightarrow> nat \<Rightarrow> nat" where
  "buffer_offset line align = round_up (consumer_offset line + line_size line) (max align line)"

lemma round_up_ge: "0 < align \<Longrightarrow> n \<le> round_up n align"
proof -
  assume "0 < align"
  then have "n + (align - 1) = round_up n align + (n + (align - 1)) mod align"
    "(n + (align - 1)) mod align \<le> align - 1"
    by (simp_all add: round_up_def Suc_leI [THEN Nat.le_diff_conv2 [THEN iffD2]] less_Suc_eq_le [symmetric])
  then show ?thesis by linarith
qed

lemma round_up_dvd: "align dvd round_up n align"
  by (simp add: round_up_def)

text \<open>Bytes on the two sides of a line boundary are on different lines.\<close>

lemma across_boundary:
  fixes a :: nat
  assumes "0 < line" and "line dvd m" and "a < m" and "m \<le> b"
  shows "a div line < b div line"
proof -
  obtain k where m: "m = line * k" using assms(2) by blast
  then have "a div line < k" using assms(1,3) by (simp add: div_less_iff_less_mult mult.commute)
  moreover have "k \<le> b div line" using assms(1,4) m by (simp add: less_eq_div_iff_mult_less_eq mult.commute)
  ultimately show ?thesis by simp
qed

text \<open>
  No false sharing.  In a ring buffer at an address the language allows (a multiple of the
  cache line size), no byte of the producer's counters is on a cache line with a byte of the
  consumer's counters, and neither is on one with a byte of the slots.
\<close>

theorem lines_not_shared:
  assumes "line = kCacheLineSize interference" and "8 dvd line" and "0 < line"
    and "line dvd address" and "align dvd line \<or> line dvd align" and "0 < align"
    and "p \<in> {producer_offset..<producer_offset + 16}"
    and "c \<in> {consumer_offset line..<consumer_offset line + 16}" and "buffer_offset line align \<le> s"
  shows "(address + p) div line < (address + c) div line \<and> (address + c) div line < (address + s) div line"
proof -
  have align: "line_align line = line" using assms(2,3) by (auto simp: line_align_def max_def dest: dvd_imp_le)
  have size: "16 \<le> line_size line" using round_up_ge [of line 16] assms(3) by (simp add: line_size_def align)
  have cons: "line dvd consumer_offset line" "16 \<le> consumer_offset line"
    using round_up_dvd [of line] round_up_ge [OF assms(3), of "producer_offset + line_size line"] size
    by (simp_all add: consumer_offset_def align producer_offset_def)
  have "line dvd max align line" using assms(5,6,3) by (auto simp: max_def dest: dvd_imp_le intro: dvd_antisym)
  moreover have "consumer_offset line + line_size line \<le> buffer_offset line align"
    using assms(3) unfolding buffer_offset_def by (intro round_up_ge) simp
  ultimately have buf: "line dvd buffer_offset line align" "consumer_offset line + 16 \<le> buffer_offset line align"
    using dvd_trans [OF _ round_up_dvd] size by (auto simp: buffer_offset_def)
  have "(address + p) div line < (address + c) div line"
    using across_boundary [of line "address + consumer_offset line" "address + p" "address + c"]
      assms(3,4,7,8) cons by (simp add: producer_offset_def)
  moreover have "(address + c) div line < (address + s) div line"
    using across_boundary [of line "address + buffer_offset line align" "address + c" "address + s"]
      assms(3,4,8,9) buf by simp
  ultimately show ?thesis by blast
qed

theorem lines_not_shared_witness:
  "consumer_offset 64 = 64 \<and> buffer_offset 64 8 = 128 \<and> (128 + 15) div 64 < (128 + 64 :: nat) div 64 \<and>
   (128 + 79 :: nat) div 64 < (128 + 128) div 64"
proof -
  have "consumer_offset 64 = 64" "buffer_offset 64 8 = 128"
    by (simp_all add: consumer_offset_def buffer_offset_def producer_offset_def line_size_def line_align_def round_up_def)
  moreover from this have "(128 + 15) div 64 < (128 + 79 :: nat) div 64 \<and> (128 + 79 :: nat) div 64 < (128 + 128) div 64"
    using lines_not_shared [of 64 None 128 8 15 79 128] by (simp add: kCacheLineSize_def producer_offset_def)
  ultimately show ?thesis by simp
qed

end
