(* ===== verification/Ring_Progress.thy ===== *)
theory Ring_Progress
  imports Ring_Concurrent
begin

section \<open>Progress of the two threads\<close>

text \<open>
  The ring buffer has no locks and no retry loops.  \<open>p_work\<close> and \<open>c_work\<close> bound the number of
  memory accesses a call of the producer or the consumer has still to make; every step of a
  thread lowers its own bound, no step of the other thread raises it, and the next access is
  always possible, whatever the other thread does.
\<close>

fun p_work :: "'a producer_pc \<Rightarrow> nat" where
  "p_work PIdle = 0"
| "p_work (PPublish x t) = 1"
| "p_work (PWrite x t) = 2"
| "p_work (PRefresh x t) = 3"
| "p_work (PLoad x) = 4"

fun c_work :: "'a consumer_pc \<Rightarrow> nat" where
  "c_work CIdle = 0"
| "c_work (CPublish y h) = 1"
| "c_work (CRead h) = 2"
| "c_work (CRefresh h) = 3"
| "c_work CLoad = 4"

lemma work_bounds: "p_work p \<le> 4" "c_work c \<le> 4"
  by (cases p; simp) (cases c; simp)

lemma step_lowers_work:
  assumes "step cap moved w w'"
  shows "p_pc w' = p_pc w \<or> p_pc w = PIdle \<or> p_work (p_pc w') < p_work (p_pc w)"
    and "c_pc w' = c_pc w \<or> c_pc w = CIdle \<or> c_work (c_pc w') < c_work (c_pc w)"
  using assms by (cases rule: step.cases; simp)+

lemma producer_can_step:
  assumes "world_inv C T H w" and "\<not> racy cap w" and "p_pc w \<noteq> PIdle"
  shows "\<exists>w'. step cap moved w w' \<and> p_work (p_pc w') < p_work (p_pc w) \<and> c_pc w' = c_pc w"
proof (cases "p_pc w")
  case (PLoad x)
  show ?thesis by (intro exI conjI, rule step.p_load [OF PLoad refl]) (simp_all add: PLoad)
next
  case (PRefresh x t)
  have "p_view w < length (head_hist w)"
    using assms(1) by (auto simp: world_inv_def counters_ok_def)
  then show ?thesis
    by (intro exI conjI, rule step.p_refresh [OF PRefresh order.refl]) (simp_all add: PRefresh)
next
  case (PWrite x t)
  then have "slot cap t < length (slots w)" using assms(2) by (simp add: racy_def)
  then show ?thesis by (intro exI conjI, rule step.p_write [OF PWrite]) (simp_all add: PWrite)
next
  case (PPublish x t)
  show ?thesis by (intro exI conjI, rule step.p_publish [OF PPublish]) (simp_all add: PPublish)
qed (use assms(3) in simp)

lemma consumer_can_step:
  assumes "world_inv C T H w" and "\<not> racy cap w" and "c_pc w \<noteq> CIdle"
  shows "\<exists>w'. step cap moved w w' \<and> c_work (c_pc w') < c_work (c_pc w) \<and> p_pc w' = p_pc w"
proof (cases "c_pc w")
  case CLoad
  show ?thesis by (intro exI conjI, rule step.c_load [OF CLoad refl]) (simp_all add: CLoad)
next
  case (CRefresh h)
  have "c_view w < length (tail_hist w)"
    using assms(1) by (auto simp: world_inv_def counters_ok_def)
  then show ?thesis
    by (intro exI conjI, rule step.c_refresh [OF CRefresh order.refl]) (simp_all add: CRefresh)
next
  case (CRead h)
  then have "slot cap h < length (slots w)" using assms(2) by (simp add: racy_def)
  then show ?thesis by (intro exI conjI, rule step.c_read [OF CRead _ refl]) (simp_all add: CRead)
next
  case (CPublish y h)
  show ?thesis by (intro exI conjI, rule step.c_publish [OF CPublish]) (simp_all add: CPublish)
qed (use assms(3) in simp)

text \<open>
  C22: the operations are wait-free.  At any point of any interleaving a thread that is inside
  \<open>try_push\<close> or \<open>try_pop\<close> can make its next memory access, whatever the other thread does or fails
  to do; each of its accesses brings it closer to its return, no access of the other thread takes
  it back, and no call makes more than four (reading the index, refreshing the cached one, the
  slot, publishing).
\<close>

theorem operations_wait_free:
  assumes "capacity_ok cap" and "reachable cap moved T0 w"
  shows "(p_pc w \<noteq> PIdle \<longrightarrow> (\<exists>w'. step cap moved w w' \<and> p_work (p_pc w') < p_work (p_pc w) \<and> c_pc w' = c_pc w)) \<and>
    (c_pc w \<noteq> CIdle \<longrightarrow> (\<exists>w'. step cap moved w w' \<and> c_work (c_pc w') < c_work (c_pc w) \<and> p_pc w' = p_pc w)) \<and>
    (\<forall>w'. step cap moved w w' \<longrightarrow>
      (p_pc w' = p_pc w \<or> p_pc w = PIdle \<or> p_work (p_pc w') < p_work (p_pc w)) \<and>
      (c_pc w' = c_pc w \<or> c_pc w = CIdle \<or> c_work (c_pc w') < c_work (c_pc w))) \<and>
    p_work (p_pc w) \<le> 4 \<and> c_work (c_pc w) \<le> 4"
proof -
  obtain T H where inv: "world_inv (unat cap) T H w" using reachable_inv [OF assms] by blast
  note race = inv_not_racy [OF assms(1) inv]
  show ?thesis
    using producer_can_step [OF inv race] consumer_can_step [OF inv race] step_lowers_work work_bounds
    by blast
qed

theorem operations_wait_free_witness:
  "\<exists>w w'. reachable 4 id (0::nat) w \<and> p_pc w = PLoad 7 \<and> step 4 id w w' \<and> p_work (p_pc w') < 4"
proof -
  let ?w = "(world_new 4 (0::nat))\<lparr>p_pc := PLoad 7\<rparr>"
  have "step 4 id (world_new 4 0) ?w" by (rule step.p_call) (simp add: world_new_def)
  then have r: "reachable 4 id 0 ?w" by (rule reachable.more [OF reachable.init])
  from operations_wait_free [OF capacity_ok_4 r] obtain w' where
    "step 4 id ?w w'" "p_work (p_pc w') < p_work (p_pc ?w)" by auto
  with r show ?thesis by (intro exI [of _ ?w] exI [of _ w']) simp
qed

end
