(* ===== verification/Matching_Pipeline.thy ===== *)
theory Matching_Pipeline
  imports Book_Properties Ring_Progress
begin

section \<open>The ring buffer feeding the matching engine\<close>

text \<open>
  The use the opening comments of \<open>ring_buffer.hpp\<close> and \<open>order_book.hpp\<close> describe: one thread
  decodes inbound order commands and pushes them, the matching-engine thread pops them and applies
  them to its \<open>OrderBook\<close>, which no other thread touches.  The steps are those of the interleaved
  ring (Ring_Concurrent), every single memory access in any order, and the execution of the next
  popped command by \<open>exec\<close> (Order_Book).  When the producer pushes what, when the engine
  calls \<open>try_pop\<close>, and how long either pauses is left open; the one thing the engine thread keeps
  to, being one thread, is that it makes no access to the ring between a successful \<open>try_pop\<close> and
  the end of the command.
\<close>

record pipeline =
  inbound :: "command world"
  engine_book :: order_book
  replies :: "reply list"

definition outstanding :: "pipeline \<Rightarrow> bool" where
  "outstanding P \<longleftrightarrow> length (replies P) < length (popped (inbound P))"

inductive pipeline_step :: "size_t \<Rightarrow> (command \<Rightarrow> command) \<Rightarrow> pipeline \<Rightarrow> pipeline \<Rightarrow> bool" for cap moved where
  producer_access: "step cap moved (inbound P) w \<Longrightarrow> c_pc w = c_pc (inbound P) \<Longrightarrow>
    pipeline_step cap moved P (P\<lparr>inbound := w\<rparr>)"
| engine_access: "step cap moved (inbound P) w \<Longrightarrow> p_pc w = p_pc (inbound P) \<Longrightarrow> \<not> outstanding P \<Longrightarrow>
    pipeline_step cap moved P (P\<lparr>inbound := w\<rparr>)"
| execute: "outstanding P \<Longrightarrow> exec (popped (inbound P) ! length (replies P)) (engine_book P) = Some (r, b) \<Longrightarrow>
    pipeline_step cap moved P (P\<lparr>engine_book := b, replies := replies P @ [r]\<rparr>)"

inductive pipeline_reachable :: "size_t \<Rightarrow> (command \<Rightarrow> command) \<Rightarrow> command \<Rightarrow> pipeline \<Rightarrow> bool" for cap moved T0 where
  start: "book_new = Some b \<Longrightarrow>
    pipeline_reachable cap moved T0 \<lparr>inbound = world_new cap T0, engine_book = b, replies = []\<rparr>"
| onward: "pipeline_reachable cap moved T0 P \<Longrightarrow> pipeline_step cap moved P P' \<Longrightarrow> pipeline_reachable cap moved T0 P'"

subsection \<open>What the steps of one thread leave alone\<close>

lemma step_frame:
  assumes "step cap moved w w'"
  shows "c_pc w' = c_pc w \<Longrightarrow> popped w' = popped w" and "p_pc w' = p_pc w \<Longrightarrow> pushed w' = pushed w"
    and "\<exists>cs. pushed w' = pushed w @ cs"
    and "\<exists>cs. popped w' = popped w @ cs \<and> length cs \<le> 1"
  using assms by (cases rule: step.cases; auto split: if_splits)+

lemma step_reply:
  assumes "book_after cs = Some (rs, b)" and "exec c b = Some (r, b')"
  shows "book_after (cs @ [c]) = Some (rs @ [r], b')"
proof -
  obtain b0 where b0: "book_new = Some b0" "run cs b0 = Some (rs, b)"
    using assms(1) by (auto simp: book_after_def split: bind_splits)
  from b0(2) have "run (cs @ [c]) b0 = Some (rs @ [r], b')"
    using assms(2) by (induction cs arbitrary: b0 rs) (auto split: bind_splits)
  then show ?thesis by (simp add: b0(1) book_after_def)
qed

lemma exec_defined: "book_after cs = Some (rs, b) \<Longrightarrow> \<exists>r b'. exec c b = Some (r, b')"
  using exec_refines [OF reached] by blast

subsection \<open>The invariant of the pipeline\<close>

text \<open>The ring is in order, the engine is at most one command behind, and its book is that of the commands executed.\<close>

definition pipeline_inv :: "nat \<Rightarrow> pipeline \<Rightarrow> bool" where
  "pipeline_inv C P \<longleftrightarrow> (\<exists>T H. world_inv C T H (inbound P)) \<and>
     length (replies P) \<le> length (popped (inbound P)) \<and> length (popped (inbound P)) \<le> Suc (length (replies P)) \<and>
     book_after (take (length (replies P)) (popped (inbound P))) = Some (replies P, engine_book P)"

lemma pipeline_inv_step:
  assumes ok: "capacity_ok cap" and inv: "pipeline_inv (unat cap) P" and st: "pipeline_step cap moved P P'"
  shows "pipeline_inv (unat cap) P'"
  using st
proof cases
  case (producer_access w)
  with inv step_frame(1) [OF producer_access(2)] step_inv [OF ok _ producer_access(2)] show ?thesis
    by (auto simp: pipeline_inv_def)
next
  case (engine_access w)
  obtain cs where "popped w = popped (inbound P) @ cs" "length cs \<le> 1"
    using step_frame(4) [OF engine_access(2)] by blast
  with inv engine_access step_inv [OF ok _ engine_access(2)] show ?thesis
    by (auto simp: pipeline_inv_def outstanding_def not_less)
next
  case (execute r b)
  then have n: "length (replies P) < length (popped (inbound P))" by (simp add: outstanding_def)
  note take_Suc_conv_app_nth [OF n]
  moreover have "book_after (take (length (replies P)) (popped (inbound P)) @ [popped (inbound P) ! length (replies P)]) =
      Some (replies P @ [r], b)"
    using inv execute(3) by (auto simp: pipeline_inv_def intro: step_reply)
  ultimately show ?thesis using inv n by (simp add: execute(1) pipeline_inv_def)
qed

lemma pipeline_reachable_inv:
  assumes "capacity_ok cap" and "pipeline_reachable cap moved T0 P"
  shows "pipeline_inv (unat cap) P"
  using assms(2)
proof (induction rule: pipeline_reachable.induct)
  case (start b)
  have "\<exists>T H. world_inv (unat cap) T H (world_new cap T0)" by (intro exI) (rule world_inv_new [OF assms(1)])
  moreover have "popped (world_new cap T0) = []" by (simp add: world_new_def)
  moreover have "book_after [] = Some ([], b)" by (simp add: book_after_def start)
  ultimately show ?case by (simp add: pipeline_inv_def)
next
  case (onward P P')
  then show ?case by (blast intro: pipeline_inv_step [OF assms(1)])
qed

lemma pipeline_inv_facts:
  assumes "pipeline_inv C P"
  obtains T H where "world_inv C T H (inbound P)" and "length (pushed (inbound P)) = T" and "length (popped (inbound P)) = H"
    and "popped (inbound P) = take H (pushed (inbound P))" and "length (replies P) \<le> H" and "H \<le> Suc (length (replies P))"
    and "H \<le> T" and "T \<le> H + C"
    and "book_after (take (length (replies P)) (pushed (inbound P))) = Some (replies P, engine_book P)"
proof -
  obtain T H where w: "world_inv C T H (inbound P)" using assms by (auto simp: pipeline_inv_def)
  then have ring: "length (pushed (inbound P)) = T" "popped (inbound P) = take H (pushed (inbound P))" "H \<le> T" "T \<le> H + C"
    by (auto simp: world_inv_def counters_ok_def)
  then have H: "length (popped (inbound P)) = H" by simp
  with assms have n: "length (replies P) \<le> H" "H \<le> Suc (length (replies P))" by (simp_all add: pipeline_inv_def)
  then have "take (length (replies P)) (popped (inbound P)) = take (length (replies P)) (pushed (inbound P))"
    by (simp add: ring(2) min_absorb1)
  with assms have "book_after (take (length (replies P)) (pushed (inbound P))) = Some (replies P, engine_book P)"
    by (simp add: pipeline_inv_def)
  from that [OF w ring(1) H ring(2) n ring(3,4) this] show ?thesis .
qed

subsection \<open>The engine catches up\<close>

text \<open>The steps the engine thread still needs, when its next look at the tail finds the current value.\<close>

fun steps_to_execute :: "bool \<Rightarrow> 'a consumer_pc \<Rightarrow> nat" where
  "steps_to_execute True pc = 1"
| "steps_to_execute False (CPublish y h) = 2"
| "steps_to_execute False (CRead h) = 3"
| "steps_to_execute False (CRefresh h) = 4"
| "steps_to_execute False CLoad = 5"
| "steps_to_execute False CIdle = 6"

definition owed :: "pipeline \<Rightarrow> nat" where
  "owed P = (let n = length (pushed (inbound P)) - length (replies P)
     in if n = 0 then 0 else 6 * (n - 1) + steps_to_execute (outstanding P) (c_pc (inbound P)))"

lemma steps_to_execute_bounds: "0 < steps_to_execute out pc" "steps_to_execute out pc \<le> 6"
  by (cases "(out, pc)" rule: steps_to_execute.cases; simp)+

lemma owed_bounds: "owed P \<le> 6 * (length (pushed (inbound P)) - length (replies P))"
  using steps_to_execute_bounds(2) [of "outstanding P" "c_pc (inbound P)"]
  by (cases "length (pushed (inbound P)) - length (replies P)") (simp_all add: owed_def)

lemma owed_0: "owed P = 0 \<longleftrightarrow> length (pushed (inbound P)) \<le> length (replies P)"
  using steps_to_execute_bounds(1) [of "outstanding P" "c_pc (inbound P)"] by (auto simp: owed_def Let_def)

text \<open>While the engine is behind, with nothing popped, its next access to the ring brings it closer to the next command.\<close>

lemma consumer_advances:
  assumes ok: "capacity_ok cap" and inv: "world_inv (unat cap) T H w" and behind: "H < T"
  shows "\<exists>w'. step cap moved w w' \<and> p_pc w' = p_pc w \<and>
    steps_to_execute (popped w' \<noteq> popped w) (c_pc w') < steps_to_execute False (c_pc w)"
proof (cases "c_pc w")
  case CIdle
  show ?thesis by (intro exI conjI, rule step.c_call [OF CIdle]) (simp_all add: CIdle)
next
  case CLoad
  show ?thesis by (intro exI conjI, rule step.c_load [OF CLoad refl]) (simp_all add: CLoad)
next
  case (CRefresh h)
  have "counters_ok (unat cap) T H w" "h = of_nat H" using inv CRefresh by (simp_all add: world_inv_def)
  note hist = counters_last [OF this(1)] and h = this
  have "c_view w \<le> T" "T \<le> H + unat cap" using h(1) by (auto simp: counters_ok_def)
  then have "h \<noteq> tail_hist w ! T" using empty_iff [OF ok, of H T] behind hist(4) h(2) by simp
  then show ?thesis using hist(5)
    by (intro exI conjI, rule_tac step.c_refresh [OF CRefresh \<open>c_view w \<le> T\<close>]) (simp_all add: CRefresh)
next
  case (CRead h)
  then have "slot cap h < length (slots w)" using inv_not_racy [OF ok inv] by (simp add: racy_def)
  then show ?thesis by (intro exI conjI, rule_tac step.c_read [OF CRead _ refl]) (simp_all add: CRead)
next
  case (CPublish y h)
  show ?thesis by (intro exI conjI, rule step.c_publish [OF CPublish]) (simp_all add: CPublish)
qed

lemma engine_advances:
  assumes ok: "capacity_ok cap" and inv: "pipeline_inv (unat cap) P" and behind: "owed P \<noteq> 0"
  shows "\<exists>P'. pipeline_step cap moved P P' \<and> owed P' < owed P \<and> p_pc (inbound P') = p_pc (inbound P) \<and>
    pushed (inbound P') = pushed (inbound P)"
proof -
  obtain T H where P: "world_inv (unat cap) T H (inbound P)" "length (pushed (inbound P)) = T"
    "length (popped (inbound P)) = H" "length (replies P) \<le> H" "H \<le> T"
    "book_after (take (length (replies P)) (pushed (inbound P))) = Some (replies P, engine_book P)"
    by (rule pipeline_inv_facts [OF inv])
  have n: "length (replies P) < T" using behind P(2) by (simp add: owed_0 not_le)
  show ?thesis
  proof (cases "outstanding P")
    case True
    obtain r b where "exec (popped (inbound P) ! length (replies P)) (engine_book P) = Some (r, b)"
      using exec_defined [OF P(6)] by blast
    note st = pipeline_step.execute [OF True this, of cap moved]
    let ?P' = "P\<lparr>engine_book := b, replies := replies P @ [r]\<rparr>"
    have "owed ?P' \<le> 6 * (T - Suc (length (replies P)))" using owed_bounds [of ?P'] P(2) by simp
    then have "owed ?P' < owed P" using True n P(2) by (simp add: owed_def Let_def)
    with st show ?thesis by (intro exI [of _ ?P']) simp
  next
    case False
    then have "H = length (replies P)" using P(3,4) by (simp add: outstanding_def)
    then obtain w where w: "step cap moved (inbound P) w" "p_pc w = p_pc (inbound P)"
      "steps_to_execute (popped w \<noteq> popped (inbound P)) (c_pc w) < steps_to_execute False (c_pc (inbound P))"
      using consumer_advances [OF ok P(1), of moved] n by auto
    have "outstanding (P\<lparr>inbound := w\<rparr>) = (popped w \<noteq> popped (inbound P))"
      using step_frame(4) [OF w(1)] P(3) \<open>H = _\<close> by (auto simp: outstanding_def)
    then have "owed (P\<lparr>inbound := w\<rparr>) < owed P"
      using w(3) n False step_frame(2) [OF w(1,2)] P(2) by (simp add: owed_def Let_def)
    with pipeline_step.engine_access [OF w(1,2) False] step_frame(2) [OF w(1,2)] w(2) show ?thesis
      by (intro exI [of _ "P\<lparr>inbound := w\<rparr>"]) simp
  qed
qed

lemma engine_catches_up:
  assumes ok: "capacity_ok cap" and inv: "pipeline_inv (unat cap) P"
  shows "\<exists>P' k. k \<le> owed P \<and> (pipeline_step cap moved ^^ k) P P' \<and> pipeline_inv (unat cap) P' \<and> owed P' = 0 \<and>
    p_pc (inbound P') = p_pc (inbound P) \<and> pushed (inbound P') = pushed (inbound P)"
  using inv
proof (induction "owed P" arbitrary: P rule: less_induct)
  case less
  show ?case
  proof (cases "owed P = 0")
    case True
    with less.prems show ?thesis by (intro exI [of _ P] exI [of _ 0]) simp
  next
    case False
    obtain Q where Q: "pipeline_step cap moved P Q" "owed Q < owed P" "p_pc (inbound Q) = p_pc (inbound P)"
      "pushed (inbound Q) = pushed (inbound P)"
      using engine_advances [OF ok less.prems False] by blast
    obtain P' k where k: "k \<le> owed Q" "(pipeline_step cap moved ^^ k) Q P'" "pipeline_inv (unat cap) P'" "owed P' = 0"
      "p_pc (inbound P') = p_pc (inbound Q)" "pushed (inbound P') = pushed (inbound Q)"
      using less.hyps [OF Q(2) pipeline_inv_step [OF ok less.prems Q(1)]] by blast
    have "(pipeline_step cap moved ^^ Suc k) P P'" using Q(1) k(2) by (rule relpowp_Suc_I2)
    with k Q show ?thesis by (intro exI [of _ P'] exI [of _ "Suc k"]) simp
  qed
qed

text \<open>An example: the first command has just been pushed.\<close>

lemma first_command:
  obtains P where "pipeline_reachable 4 id (Cancel 0) P" and "pushed (inbound P) = [c]" and "replies P = []"
proof -
  obtain b where b: "book_new = Some b" by (rule book_new_refines)
  let ?w0 = "world_new 4 (Cancel 0)"
  let ?w3 = "?w0\<lparr>slots := (slots ?w0)[0 := c], written := (written ?w0)[0 := 1], p_pc := PPublish c 0\<rparr>"
  let ?P = "\<lambda>w. \<lparr>inbound = w, engine_book = b, replies = []\<rparr>"
  have w0: "p_pc ?w0 = PIdle" "tail_hist ?w0 = [0]" "p_cached ?w0 = 0" "length (slots ?w0) = 4" "pushed ?w0 = []"
    by (simp_all add: world_new_def)
  have sl: "slot 4 0 = 0" by (simp add: slot_def)
  have access: "pipeline_reachable 4 id (Cancel 0) (?P w')"
    if "pipeline_reachable 4 id (Cancel 0) (?P w)" "step 4 id w w'" "c_pc w' = c_pc w" for w w'
    using pipeline_reachable.onward [OF that(1) pipeline_step.producer_access [of 4 id "?P w" w']] that(2,3) by simp
  note r0 = pipeline_reachable.start [OF b, of 4 id "Cancel 0"]
  have r1: "pipeline_reachable 4 id (Cancel 0) (?P (?w0\<lparr>p_pc := PLoad c\<rparr>))"
    by (rule access [OF r0 step.p_call [OF w0(1)]]) simp
  have r2: "pipeline_reachable 4 id (Cancel 0) (?P (?w0\<lparr>p_pc := PWrite c 0\<rparr>))"
    using access [OF r1 step.p_load [OF _ refl]] w0 by simp
  have r3: "pipeline_reachable 4 id (Cancel 0) (?P ?w3)"
    using access [OF r2 step.p_write] w0 sl by simp
  have "pipeline_reachable 4 id (Cancel 0) (?P (?w3\<lparr>tail_hist := [0, 1], pushed := [c], p_pc := PIdle\<rparr>))"
    using access [OF r3 step.p_publish] w0 by simp
  with that show ?thesis by simp
qed

lemma relpowp_reachable:
  "(pipeline_step cap moved ^^ k) P P' \<Longrightarrow> pipeline_reachable cap moved T0 P \<Longrightarrow> pipeline_reachable cap moved T0 P'"
  by (induction k arbitrary: P') (auto intro: pipeline_reachable.onward)

subsection \<open>Properties\<close>

text \<open>
  C3: an order book fed through the ring is deterministic.  However the two threads are
  interleaved, no access to the ring is a data race, the book and the replies are exactly those of
  executing, on a book of one's own, the first commands pushed, in the order in which they were
  pushed, and therefore the specified ones; the executed commands are at most \<open>Capacity\<close> plus one
  behind the pushed ones; and whichever command comes next, executing it is defined.
\<close>

theorem pipeline_is_sequential:
  assumes "capacity_ok cap" and "pipeline_reachable cap moved T0 P"
  shows "\<not> racy cap (inbound P) \<and>
    book_after (take (length (replies P)) (pushed (inbound P))) = Some (replies P, engine_book P) \<and>
    replies P = fst (spec_run (take (length (replies P)) (pushed (inbound P))) spec_new) \<and>
    represents (engine_book P) (spec_after (take (length (replies P)) (pushed (inbound P)))) \<and>
    length (replies P) \<le> length (pushed (inbound P)) \<and> length (pushed (inbound P)) \<le> length (replies P) + unat cap + 1 \<and>
    (\<forall>c. \<exists>r b. exec c (engine_book P) = Some (r, b))"
proof -
  let ?cs = "take (length (replies P)) (pushed (inbound P))"
  obtain T H where P: "world_inv (unat cap) T H (inbound P)" "length (pushed (inbound P)) = T"
    "length (replies P) \<le> H" "H \<le> Suc (length (replies P))" "H \<le> T" "T \<le> H + unat cap"
    "book_after ?cs = Some (replies P, engine_book P)"
    by (rule pipeline_inv_facts [OF pipeline_reachable_inv [OF assms]])
  obtain b where "book_after ?cs = Some (fst (spec_run ?cs spec_new), b)" by (rule book_after_spec)
  with P(7) have "replies P = fst (spec_run ?cs spec_new)" by simp
  with P inv_not_racy [OF assms(1) P(1)] reached [OF P(7)] exec_defined [OF P(7)] show ?thesis by simp
qed

theorem pipeline_is_sequential_witness:
  "\<exists>P. pipeline_reachable 4 id (Cancel 0) P \<and> pushed (inbound P) = [AddLimit 1 Buy 100 10] \<and>
     length (replies P) = 1 \<and> represents (engine_book P) (spec_after [AddLimit 1 Buy 100 10])"
proof -
  obtain P where P: "pipeline_reachable 4 id (Cancel 0) P" "pushed (inbound P) = [AddLimit 1 Buy 100 10]"
    by (rule first_command)
  obtain P' k where k: "(pipeline_step 4 id ^^ k) P P'" "owed P' = 0" "pushed (inbound P') = pushed (inbound P)"
    using engine_catches_up [OF capacity_ok_4 pipeline_reachable_inv [OF capacity_ok_4 P(1)]] by blast
  note r = relpowp_reachable [OF k(1) P(1)]
  have seq: "length (replies P') \<le> length (pushed (inbound P'))"
    "represents (engine_book P') (spec_after (take (length (replies P')) (pushed (inbound P'))))"
    using pipeline_is_sequential [OF capacity_ok_4 r] by simp_all
  have n: "length (replies P') = 1" using seq(1) k(2,3) P(2) by (simp add: owed_0)
  with seq(2) r k(3) P(2) show ?thesis by (intro exI [of _ P']) simp
qed



end
