(* ===== verification/Latency_Stats.thy ===== *)
theory Latency_Stats
  imports Complex_Main Market_Types "HOL-Library.Log_Nat" "HOL-Library.Multiset"
begin

section \<open>Latency statistics (latency_harness.hpp, latency_harness.cpp)\<close>

text \<open>
  The reduction of latency samples: nearest-rank percentiles, minimum, maximum and mean.  The
  percentage and the mean are C++ doubles.  A double is \<open>Fin x\<close> for its exact rational value \<open>x\<close>,
  an infinity or NaN (the sign of zero is not kept: nothing here observes it), and every
  arithmetic operation and conversion rounds the exact result once, to nearest with ties to even,
  as IEEE 754 prescribes; \<open>literal q\<close> is the double a decimal literal of value \<open>q\<close> denotes.
  \<open>llround\<close> of NaN is left unspecified by C++: it is the parameter \<open>nan\<close>.
\<close>

subsection \<open>Doubles\<close>

datatype double = NaN | PInf | NInf | Fin rat

text \<open>The exponent \<open>e\<close> with \<open>2 ^ e \<le> x < 2 ^ (e + 1)\<close>, for positive \<open>x\<close>.\<close>

definition floor_log2 :: "rat \<Rightarrow> int" where
  "floor_log2 x = (case quotient_of x of (a, b) \<Rightarrow>
     let e = bitlen a - bitlen b in if 2 powi e \<le> x then e else e - 1)"

definition ulp_exp :: "rat \<Rightarrow> int" where
  "ulp_exp x = max (floor_log2 \<bar>x\<bar> - 52) (- 1074)"

definition round_even :: "rat \<Rightarrow> int" where
  "round_even y = (let f = \<lfloor>y\<rfloor>; d = y - of_int f in
     if d < 1 / 2 \<or> d = 1 / 2 \<and> even f then f else f + 1)"

definition round_double :: "rat \<Rightarrow> double" where
  "round_double x =
     (if x = 0 then Fin 0
      else let u = 2 powi ulp_exp x; r = of_int (round_even (x / u)) * u in
        if r \<ge> 2 ^ 1024 then PInf else if r \<le> - (2 ^ 1024) then NInf else Fin r)"

definition literal :: "rat \<Rightarrow> double" where
  "literal q = round_double q"

definition double_of :: "uint64 \<Rightarrow> double" where
  "double_of v = round_double (of_nat (unat v))"

fun double_add :: "double \<Rightarrow> double \<Rightarrow> double" where
  "double_add (Fin x) (Fin y) = round_double (x + y)"
| "double_add PInf (Fin y) = PInf"
| "double_add PInf PInf = PInf"
| "double_add (Fin x) PInf = PInf"
| "double_add NInf (Fin y) = NInf"
| "double_add NInf NInf = NInf"
| "double_add (Fin x) NInf = NInf"
| "double_add _ _ = NaN"

fun double_div :: "double \<Rightarrow> double \<Rightarrow> double" where
  "double_div (Fin x) (Fin y) =
     (if y = 0 then (if x = 0 then NaN else if x > 0 then PInf else NInf) else round_double (x / y))"
| "double_div PInf (Fin y) = (if y < 0 then NInf else PInf)"
| "double_div NInf (Fin y) = (if y < 0 then PInf else NInf)"
| "double_div (Fin x) PInf = Fin 0"
| "double_div (Fin x) NInf = Fin 0"
| "double_div _ _ = NaN"

text \<open>\<open>p * 100.0\<close>, \<open>std::clamp(p, 0.0, 100.0)\<close> (NaN stays NaN) and \<open>std::llround\<close> (halves away
  from zero).\<close>

fun times_100 :: "double \<Rightarrow> double" where
  "times_100 (Fin x) = round_double (x * 100)"
| "times_100 PInf = PInf"
| "times_100 NInf = NInf"
| "times_100 NaN = NaN"

fun clamp :: "double \<Rightarrow> double" where
  "clamp (Fin x) = Fin (if x < 0 then 0 else if 100 < x then 100 else x)"
| "clamp PInf = Fin 100"
| "clamp NInf = Fin 0"
| "clamp NaN = NaN"

definition round_away :: "rat \<Rightarrow> int" where
  "round_away x = (if x \<ge> 0 then \<lfloor>x + 1 / 2\<rfloor> else - \<lfloor>- x + 1 / 2\<rfloor>)"

fun llround :: "int64 \<Rightarrow> double \<Rightarrow> int64" where
  "llround nan (Fin x) =
     (if in_int64 (round_away x) then Int64 (of_int (round_away x)) else nan)"
| "llround nan _ = nan"

subsection \<open>Percentiles\<close>

definition sample_at :: "uint64 list \<Rightarrow> size_t \<Rightarrow> uint64 option" where
  "sample_at xs i = (if unat i < length xs then Some (xs ! unat i) else None)"

text \<open>\<open>unsigned __int128\<close> is the 128-bit word.\<close>

definition nearest_rank_percentile :: "int64 \<Rightarrow> uint64 list \<Rightarrow> double \<Rightarrow> uint64 option" where
  "nearest_rank_percentile nan sorted_ascending p =
     (if sorted_ascending = [] then Some 0
      else do {
        let p_scaled_1e2 = llround nan (times_100 (clamp p));
        let n = (of_nat (length sorted_ascending) :: uint64);
        let numerator = (scast (raw p_scaled_1e2) :: 128 word) * ucast n;
        let denominator = (10000 :: 128 word);
        let rank128 = (numerator + denominator - 1) div denominator;
        let rank = (if rank128 < 1 then 1 else (ucast rank128 :: uint64));
        let rank = (if rank > n then n else rank);
        sample_at sorted_ascending (rank - 1)
      })"

subsection \<open>The summary\<close>

record LatencyStats =
  count_n :: size_t
  min_ns :: uint64
  max_ns :: uint64
  mean_ns :: double
  p50_ns :: uint64
  p90_ns :: uint64
  p99_ns :: uint64
  p999_ns :: uint64
  p9999_ns :: uint64

definition no_stats :: LatencyStats where
  "no_stats = \<lparr>count_n = 0, min_ns = 0, max_ns = 0, mean_ns = Fin 0, p50_ns = 0, p90_ns = 0, p99_ns = 0,
     p999_ns = 0, p9999_ns = 0\<rparr>"

definition mean_of :: "uint64 list \<Rightarrow> double" where
  "mean_of xs = double_div (foldl (\<lambda>sum v. double_add sum (double_of v)) (Fin 0) xs)
     (double_of (of_nat (length xs)))"

definition compute_latency_stats :: "int64 \<Rightarrow> uint64 list \<Rightarrow> LatencyStats option" where
  "compute_latency_stats nan samples_ns =
     (if samples_ns = [] then Some no_stats
      else do {
        let samples = sort samples_ns;
        p50 \<leftarrow> nearest_rank_percentile nan samples (literal 50);
        p90 \<leftarrow> nearest_rank_percentile nan samples (literal 90);
        p99 \<leftarrow> nearest_rank_percentile nan samples (literal 99);
        p999 \<leftarrow> nearest_rank_percentile nan samples (literal (999 / 10));
        p9999 \<leftarrow> nearest_rank_percentile nan samples (literal (9999 / 100));
        Some \<lparr>count_n = of_nat (length samples_ns), min_ns = hd samples, max_ns = last samples,
          mean_ns = mean_of samples, p50_ns = p50, p90_ns = p90, p99_ns = p99, p999_ns = p999,
          p9999_ns = p9999\<rparr>
      })"

subsection \<open>Rounding\<close>

lemma powi_le: "a \<le> b \<Longrightarrow> (2::rat) powi a \<le> 2 powi b"
  by (simp add: power_int_increasing)

lemma quotient_powi_bounds:
  assumes "0 < a" and "0 < b"
  shows "2 powi (bitlen a - bitlen b - 1) \<le> (of_int a / of_int b :: rat)"
    and "(of_int a / of_int b :: rat) < 2 powi (bitlen a - bitlen b + 1)"
proof -
  have pos: "0 < bitlen a" "0 < bitlen b"
    using assms bitlen_eq_zero_iff bitlen_nonneg by (metis linorder_not_less order_le_less)+
  have bounds: "2 powi (bitlen c - 1) \<le> (of_int c :: rat) \<and> of_int c < (2 powi bitlen c :: rat)"
    if "0 < c" "0 < bitlen c" for c
  proof -
    from bitlen_bounds [OF that(1)] have "(of_int (2 ^ nat (bitlen c - 1)) :: rat) \<le> of_int c"
      "(of_int c :: rat) < of_int (2 ^ nat (bitlen c))"
      by (simp_all only: of_int_le_iff of_int_less_iff)
    then show ?thesis using that(2) by (simp add: power_int_def)
  qed
  note ab = bounds [OF assms(1) pos(1)] bounds [OF assms(2) pos(2)]
  have b: "(0::rat) < of_int b" using assms(2) by simp
  have "2 powi (bitlen a - bitlen b - 1) * (of_int b :: rat) \<le> 2 powi (bitlen a - bitlen b - 1) * 2 powi bitlen b"
    using ab(2) by (intro mult_left_mono) auto
  also have "\<dots> = (2::rat) powi (bitlen a - 1)" by (simp flip: power_int_add)
  also have "\<dots> \<le> of_int a" using ab(1) by simp
  finally show "2 powi (bitlen a - bitlen b - 1) \<le> (of_int a / of_int b :: rat)"
    using b by (simp add: pos_le_divide_eq)
  have "(of_int a :: rat) < 2 powi bitlen a" using ab(1) by simp
  also have "\<dots> = (2::rat) powi (bitlen a - bitlen b + 1) * 2 powi (bitlen b - 1)" by (simp flip: power_int_add)
  also have "\<dots> \<le> 2 powi (bitlen a - bitlen b + 1) * of_int b" using ab(2) by (intro mult_left_mono) auto
  finally show "(of_int a / of_int b :: rat) < 2 powi (bitlen a - bitlen b + 1)"
    using b by (simp add: pos_divide_less_eq)
qed

lemma floor_log2_bounds:
  assumes "0 < x"
  shows "2 powi floor_log2 x \<le> x" and "x < 2 powi (floor_log2 x + 1)"
proof -
  obtain a b where q: "quotient_of x = (a, b)" by force
  then have x: "x = of_int a / of_int b" "0 < b" by (simp_all add: quotient_of_div quotient_of_denom_pos)
  with assms have "0 < a" by (simp add: zero_less_divide_iff)
  note bounds = quotient_powi_bounds [OF this x(2), folded x(1)]
  show "2 powi floor_log2 x \<le> x" "x < 2 powi (floor_log2 x + 1)"
    using bounds by (auto simp: floor_log2_def q Let_def)
qed

lemma floor_log2_less:
  assumes "0 < x" and "x < 2 powi m"
  shows "floor_log2 x < m"
proof (rule ccontr)
  assume "\<not> floor_log2 x < m"
  then have "(2::rat) powi m \<le> 2 powi floor_log2 x" by (simp add: powi_le)
  with floor_log2_bounds(1) [OF assms(1)] assms(2) show False by simp
qed

lemma round_even_error: "\<bar>of_int (round_even y) - y\<bar> \<le> 1 / 2"
proof -
  have "of_int \<lfloor>y\<rfloor> \<le> y" "y < of_int \<lfloor>y\<rfloor> + 1" by linarith+
  then show ?thesis unfolding round_even_def Let_def by (auto simp: abs_le_iff)
qed

lemma round_even_of_int [simp]: "round_even (of_int n) = n"
  by (simp add: round_even_def)

text \<open>Values below \<open>2 ^ m\<close> are rounded with an error of at most \<open>2 ^ (m - 54)\<close>, half a unit.\<close>

lemma round_double_error:
  assumes "\<bar>x\<bar> < 2 powi m" and "- 1021 \<le> m" and "m \<le> 1000"
  shows "\<exists>r. round_double x = Fin r \<and> \<bar>r - x\<bar> \<le> 2 powi (m - 54)"
proof (cases "x = 0")
  case False
  define u :: rat where "u = 2 powi ulp_exp x"
  define r where "r = of_int (round_even (x / u)) * u"
  have "floor_log2 \<bar>x\<bar> < m" using False assms(1) by (intro floor_log2_less) auto
  then have "ulp_exp x \<le> m - 53" using assms(2) by (simp add: ulp_exp_def)
  then have u: "0 < u" "u \<le> 2 powi (m - 53)" by (simp_all add: u_def powi_le)
  have "\<bar>r - x\<bar> = \<bar>of_int (round_even (x / u)) - x / u\<bar> * u"
    using u(1) by (simp add: r_def abs_mult_pos field_simps flip: abs_mult_pos)
  also have "\<dots> \<le> 1 / 2 * u" using u(1) round_even_error [of "x / u"] by (intro mult_right_mono) auto
  also have "\<dots> \<le> 2 powi (m - 54)" using u(2) power_int_add [of "2::rat" 1 "m - 54"] by simp
  finally have err: "\<bar>r - x\<bar> \<le> 2 powi (m - 54)" .
  have "(2::rat) powi m \<le> 2 powi 1000" "(2::rat) powi (m - 54) \<le> 2 powi 1000"
    using assms(3) by (intro powi_le; simp)+
  then have "\<bar>r\<bar> < 2 powi 1000 + 2 powi 1000" using err assms(1) by linarith
  also have "\<dots> = (2::rat) powi 1001" using power_int_add [of "2::rat" 1 1000] by simp
  also have "\<dots> \<le> 2 powi 1024" by (rule powi_le) simp
  also have "\<dots> = 2 ^ 1024" unfolding power_int_def by (simp only: zero_le_numeral if_True nat_numeral)
  finally have "\<bar>r\<bar> < 2 ^ 1024" .
  then have "\<not> 2 ^ 1024 \<le> r" "\<not> r \<le> - (2 ^ 1024)" by linarith+
  with False have "round_double x = Fin r"
    unfolding round_double_def Let_def u_def [symmetric] r_def [symmetric] by simp
  with err show ?thesis by blast
qed (simp add: round_double_def)

text \<open>Integers up to \<open>2 ^ 53\<close> are exact.\<close>

lemma round_double_of_nat:
  assumes "n \<le> 2 ^ 53"
  shows "round_double (of_nat n) = Fin (of_nat n)"
proof (cases "n = 0")
  case False
  let ?x = "of_nat n :: rat"
  define e where "e = ulp_exp ?x"
  have small: "(of_nat k :: rat) < 2 powi int j" if "k < 2 ^ j" for k j
    using that by (metis of_nat_less_numeral_power_cancel_iff power_int_of_nat)
  have x: "0 < ?x" using False by simp
  have "\<exists>z. ?x / 2 powi e = of_int z"
  proof (cases "n = 2 ^ 53 \<and> 0 < e")
    case True
    have "n < 2 ^ 54" using assms by simp
    from floor_log2_less [OF x small [OF this, unfolded of_nat_numeral]] have "e \<le> 1"
      using x by (simp add: e_def ulp_exp_def)
    then have "e = 1" using conjunct2 [OF True] by simp
    then have "?x / 2 powi e = of_int (2 ^ 52)" using True by simp
    then show ?thesis by blast
  next
    case other: False
    have "e \<le> 0"
    proof (cases "n = 2 ^ 53")
      case False
      then have "n < 2 ^ 53" using assms by simp
      from floor_log2_less [OF x small [OF this, unfolded of_nat_numeral]] show ?thesis
        using x by (simp add: e_def ulp_exp_def)
    qed (use other in simp)
    then have "inverse (2 powi e :: rat) = of_int (2 ^ nat (- e))" by (simp add: power_int_def power_one_over)
    then have "?x / 2 powi e = of_int (int n * 2 ^ nat (- e))" by (simp add: divide_inverse)
    then show ?thesis by blast
  qed
  then have r: "of_int (round_even (?x / 2 powi e)) * 2 powi e = ?x"
    by (metis round_even_of_int nonzero_eq_divide_eq power_int_not_zero zero_neq_numeral)
  have "n < 2 ^ 54" using assms by simp
  have "?x < 2 powi 54" using small [OF \<open>n < 2 ^ 54\<close>] by simp
  also have "(2::rat) powi 54 \<le> 2 powi 1024" by (rule powi_le) simp
  also have "\<dots> = 2 ^ 1024" unfolding power_int_def by (simp only: zero_le_numeral if_True nat_numeral)
  finally have "\<not> 2 ^ 1024 \<le> ?x" "\<not> ?x \<le> - (2 ^ 1024)" using x by linarith+
  with x r False show ?thesis
    unfolding round_double_def Let_def e_def [symmetric] by simp
qed (simp add: round_double_def)

subsection \<open>The percentage in hundredths\<close>

text \<open>
  What the comment in \<open>nearest_rank_percentile\<close> argues: the double next to a percentage of two
  decimals, clamped, multiplied by 100 and rounded, gives back the exact number of hundredths.
\<close>

lemma llround_near:
  assumes "\<bar>r - of_nat k\<bar> < 1 / 2" and "k \<le> 10000"
  shows "llround nan (Fin r) = Int64 (of_nat k)"
proof -
  have r: "r < of_nat k + 1 / 2" "of_nat k - 1 / 2 < r" using assms(1) unfolding abs_less_iff by linarith+
  have "round_away r = int k"
  proof (cases "r \<ge> 0")
    case True
    have "\<lfloor>r + 1 / 2\<rfloor> = int k" by (rule floor_unique) (use r in \<open>simp_all\<close>)
    with True show ?thesis by (simp add: round_away_def)
  next
    case False
    then have "k = 0" using r(2) by (cases k) auto
    moreover have "\<lfloor>- r + 1 / 2\<rfloor> = 0" by (rule floor_unique) (use False r(2) \<open>k = 0\<close> in \<open>simp_all\<close>)
    ultimately show ?thesis using False by (simp add: round_away_def)
  qed
  then show ?thesis using assms(2) by (simp add: in_int64_def)
qed

lemma percentage_recovered:
  assumes "k \<le> 10000"
  shows "llround nan (times_100 (clamp (literal (of_nat k / 100)))) = Int64 (of_nat k)"
proof -
  let ?q = "of_nat k / 100 :: rat"
  have k: "(of_nat k :: rat) \<le> 10000" using assms by (metis of_nat_le_iff of_nat_numeral)
  have "\<bar>?q\<bar> < 2 powi 7" using k by (simp add: power_int_def)
  from round_double_error [OF this] obtain p where
    p: "literal ?q = Fin p" "\<bar>p - ?q\<bar> \<le> 2 powi (- 47)" by (auto simp: literal_def)
  define c where "c = (if p < 0 then 0 else if 100 < p then 100 else p)"
  have "0 \<le> ?q" "?q \<le> 100" using k by simp_all
  then have c: "\<bar>c - ?q\<bar> \<le> 2 powi (- 47)" "0 \<le> c" "c \<le> 100"
    using p(2) by (auto simp: c_def abs_le_iff)
  have "\<bar>c * 100\<bar> < 2 powi 14" using c(2,3) by (simp add: power_int_def)
  from round_double_error [OF this] obtain r where
    r: "round_double (c * 100) = Fin r" "\<bar>r - c * 100\<bar> \<le> 2 powi (- 40)" by auto
  have "\<bar>c * 100 - of_nat k\<bar> = \<bar>c - ?q\<bar> * 100" by (simp add: abs_if field_simps)
  then have "\<bar>c * 100 - of_nat k\<bar> \<le> 2 powi (- 47) * 100" using c(1) by linarith
  moreover have "(2::rat) powi (- 47) * 100 + 2 powi (- 40) < 1 / 2" by (simp add: power_int_def power_divide)
  ultimately have "\<bar>r - of_nat k\<bar> < 1 / 2" using r(2) by linarith
  from llround_near [OF this assms] show ?thesis by (simp add: p(1) c_def [symmetric] r(1))
qed

subsection \<open>The rank\<close>

text \<open>
  The specification: \<open>v\<close> is the \<open>k / 100\<close> percentile by nearest rank when at least that share of
  the samples is at most \<open>v\<close>, and less than that share is below \<open>v\<close>.
\<close>

definition nearest_rank :: "nat \<Rightarrow> uint64 list \<Rightarrow> uint64 \<Rightarrow> bool" where
  "nearest_rank k xs v \<longleftrightarrow> v \<in> set xs \<and>
     k * length xs \<le> 10000 * length (filter (\<lambda>x. x \<le> v) xs) \<and>
     10000 * length (filter (\<lambda>x. x < v) xs) < max 1 (k * length xs)"

definition rank :: "nat \<Rightarrow> nat \<Rightarrow> nat" where
  "rank k n = max 1 ((k * n + 9999) div 10000)"

lemma rank_bounds: "0 < n \<Longrightarrow> k \<le> 10000 \<Longrightarrow> 0 < rank k n \<and> rank k n \<le> n"
proof -
  assume "0 < n" "k \<le> 10000"
  then have "k * n + 9999 \<le> 10000 * n + 9999" by simp
  then have "(k * n + 9999) div 10000 \<le> (10000 * n + 9999) div 10000" by (rule div_le_mono)
  then show ?thesis using \<open>0 < n\<close> by (simp add: rank_def)
qed

lemma unat128:
  "unat (10000 :: 128 word) = 10000" "unat (9999 :: 128 word) = 9999"
  by simp_all

lemma scast_of_nat128: "k < 2 ^ 63 \<Longrightarrow> scast (of_nat k :: 64 word) = (of_nat k :: 128 word)"
proof -
  assume "k < 2 ^ 63"
  then have "sint (of_nat k :: 64 word) = int k"
    by (simp add: signed_of_nat signed_take_bit_int_eq_self)
  then show ?thesis by (metis of_int_of_nat_eq of_int_sint)
qed

lemma percentile_at_rank:
  assumes "xs \<noteq> []" and "length xs < 2 ^ 64" and "k \<le> 10000"
  shows "nearest_rank_percentile nan xs (literal (of_nat k / 100)) = Some (xs ! (rank k (length xs) - 1))"
proof -
  let ?n = "length xs" and ?num = "of_nat k * ucast (of_nat (length xs) :: 64 word) :: 128 word"
  have n: "0 < ?n" "unat (of_nat ?n :: 64 word) = ?n" using assms(1,2) by (simp_all add: unat_of_nat64)
  have "unat (of_nat k :: 128 word) = k" using assms(3) by (simp add: unat_of_nat take_bit_nat_eq_self)
  moreover have "unat (ucast (of_nat ?n :: 64 word) :: 128 word) = ?n"
    using n(2) assms(2) by (simp add: unsigned_ucast_eq take_bit_nat_eq_self)
  moreover have kn: "k * ?n \<le> 10000 * 2 ^ 64" using assms(2,3) by (intro mult_le_mono) auto
  ultimately have num: "unat ?num = k * ?n" by (simp add: unat_word_ariths take_bit_nat_eq_self)
  have "unat (?num + 10000 - 1) = k * ?n + 9999"
    using num kn by (simp add: unat_word_ariths diff_add_eq [symmetric] flip: add_diff_eq)
  moreover define q :: "128 word" where "q = (?num + 10000 - 1) div 10000"
  ultimately have r128: "unat q = (k * ?n + 9999) div 10000" by (simp only: unat_div unat128)
  have div: "(k * ?n + 9999) div 10000 \<le> ?n" using rank_bounds [OF n(1) assms(3)] by (simp add: rank_def)
  define r where "r = (if q < 1 then 1 else (ucast q :: 64 word))"
  have "unat (ucast q :: 64 word) = (k * ?n + 9999) div 10000"
    using div assms(2) by (simp add: unsigned_ucast_eq take_bit_nat_eq_self r128)
  moreover have "q < 1 \<longleftrightarrow> (k * ?n + 9999) div 10000 = 0"
    by (simp add: word_less_nat_alt r128)
  ultimately have r: "unat r = rank k ?n" by (auto simp: r_def rank_def max_def)
  then have le: "\<not> r > of_nat ?n" using rank_bounds [OF n(1) assms(3)] n(2) by (simp add: word_less_nat_alt)
  have "unat (r - 1) = rank k ?n - 1"
    using r rank_bounds [OF n(1) assms(3)] by (simp add: unat_sub_if' word_le_nat_alt)
  moreover have "scast (of_nat k :: 64 word) = (of_nat k :: 128 word)"
    using assms(3) by (intro scast_of_nat128) simp
  then have "nearest_rank_percentile nan xs (literal (of_nat k / 100)) = sample_at xs (r - 1)"
    by (simp only: nearest_rank_percentile_def percentage_recovered [OF assms(3)] Let_def assms(1) if_False
        int64.sel q_def [symmetric] r_def [symmetric] le)
  ultimately show ?thesis using rank_bounds [OF n(1) assms(3)] by (auto simp: sample_at_def)
qed

lemma sorted_counts:
  assumes "sorted xs" and "i < length xs"
  shows "i < length (filter (\<lambda>x. x \<le> xs ! i) xs)" and "length (filter (\<lambda>x. x < xs ! i) xs) \<le> i"
proof -
  have "{0..i} \<subseteq> {j. j < length xs \<and> xs ! j \<le> xs ! i}"
    using assms sorted_nth_mono [OF assms(1)] by auto
  then have "card {0..i} \<le> card {j. j < length xs \<and> xs ! j \<le> xs ! i}" by (intro card_mono) auto
  then show "i < length (filter (\<lambda>x. x \<le> xs ! i) xs)" by (simp add: length_filter_conv_card)
  have "{j. j < length xs \<and> xs ! j < xs ! i} \<subseteq> {0..<i}"
    using sorted_nth_mono [OF assms(1), of i] by (fastforce simp flip: not_le)
  then have "card {j. j < length xs \<and> xs ! j < xs ! i} \<le> card {0..<i}" by (intro card_mono) auto
  then show "length (filter (\<lambda>x. x < xs ! i) xs) \<le> i" by (simp add: length_filter_conv_card)
qed

lemma nearest_rank_at_rank:
  assumes "xs \<noteq> []" and "sorted xs" and "k \<le> 10000"
  shows "nearest_rank k xs (xs ! (rank k (length xs) - 1))"
proof -
  let ?n = "length xs" and ?i = "rank k (length xs) - 1"
  have r: "0 < rank k ?n" "rank k ?n \<le> ?n" using rank_bounds assms(1,3) by auto
  then have i: "?i < ?n" by simp
  note c = sorted_counts [OF assms(2) i]
  have ceiling: "m \<le> 10000 * max 1 ((m + 9999) div 10000)" "10000 * (max 1 ((m + 9999) div 10000) - 1) < max 1 m"
    for m :: nat using div_mult_mod_eq [of "m + 9999" 10000] mod_less_divisor [of 10000 "m + 9999"]
    by (cases "(m + 9999) div 10000"; simp add: max_def)+
  then have "k * ?n \<le> 10000 * rank k ?n" "10000 * (rank k ?n - 1) < max 1 (k * ?n)"
    unfolding rank_def by blast+
  moreover have "rank k ?n \<le> length (filter (\<lambda>x. x \<le> xs ! ?i) xs)" using c(1) r(1) by simp
  ultimately show ?thesis using c(2) i unfolding nearest_rank_def by (intro conjI nth_mem; linarith)
qed

lemma nearest_rank_mono:
  assumes "nearest_rank k xs v" and "nearest_rank l xs w" and "k \<le> l"
  shows "v \<le> w"
proof (rule ccontr)
  assume "\<not> v \<le> w"
  then have "length (filter (\<lambda>x. x \<le> w) xs) \<le> length (filter (\<lambda>x. x < v) xs)"
    by (simp add: length_filter_conv_card) (intro card_mono; auto)
  moreover have "0 < length (filter (\<lambda>x. x \<le> w) xs)"
    using assms(2) by (auto simp: nearest_rank_def filter_empty_conv)
  moreover have "k * length xs \<le> l * length xs" using assms(3) by simp
  ultimately show False using assms(1,2) unfolding nearest_rank_def by linarith
qed

lemma percentile_spec:
  assumes "xs \<noteq> []" and "sorted xs" and "length xs < 2 ^ 64" and "k \<le> 10000"
  shows "\<exists>v. nearest_rank_percentile nan xs (literal (of_nat k / 100)) = Some v \<and> nearest_rank k xs v"
  using percentile_at_rank [OF assms(1,3,4)] nearest_rank_at_rank [OF assms(1,2,4)] by blast

text \<open>
  C11: nearest rank, in spite of binary fractions.  For every percentage \<open>k / 100\<close> of at most two
  decimals, passed as the double next to it (99.9 has no exact one), \<open>nearest_rank_percentile\<close> of
  non-empty, sorted samples reads inside the vector and returns a sample \<open>v\<close> such that at least
  \<open>k / 100\<close> percent of the samples are at most \<open>v\<close> and less than \<open>k / 100\<close> percent (for \<open>k = 0\<close>,
  none) are below \<open>v\<close>.
\<close>

theorem percentile_is_nearest_rank:
  assumes "xs \<noteq> []" and "sorted xs" and "length xs < 2 ^ 64" and "k \<le> 10000"
  shows "\<exists>v. nearest_rank_percentile nan xs (literal (of_nat k / 100)) = Some v \<and> v \<in> set xs \<and>
    k * length xs \<le> 10000 * length (filter (\<lambda>x. x \<le> v) xs) \<and>
    10000 * length (filter (\<lambda>x. x < v) xs) < max 1 (k * length xs)"
  using percentile_spec [OF assms] unfolding nearest_rank_def .

text \<open>The samples 1 to 10 at 99.9 percent: the last one, and no other.\<close>

theorem percentile_is_nearest_rank_witness:
  "nearest_rank_percentile 0 [1, 2, 3, 4, 5, 6, 7, 8, 9, 10] (literal (of_nat 9990 / 100)) = Some 10 \<and>
   sorted [1 :: uint64, 2, 3, 4, 5, 6, 7, 8, 9, 10]"
proof -
  let ?xs = "[1, 2, 3, 4, 5, 6, 7, 8, 9, 10] :: uint64 list"
  have sorted: "sorted ?xs" by simp
  from percentile_is_nearest_rank [OF _ this, of 9990 0] obtain v where
    v: "nearest_rank_percentile 0 ?xs (literal (of_nat 9990 / 100)) = Some v" "v \<in> set ?xs"
    "9990 * length ?xs \<le> 10000 * length (filter (\<lambda>x. x \<le> v) ?xs)"
    by (auto simp del: of_nat_numeral)
  from v(2,3) have "v = 10" by (simp split: if_splits) (elim disjE; simp add: word_le_nat_alt)
  with v(1) sorted show ?thesis by simp
qed

end
