(* ===== verification/Latency_Harness.thy ===== *)
theory Latency_Harness
  imports Latency_Stats
begin

section \<open>The measuring loop and the summary it prints (latency_harness.hpp)\<close>

text \<open>
  \<open>measure_latency_ns\<close> over any program state \<open>'s\<close>: the workload is a function that changes the
  state and may be undefined, \<open>now\<close> is \<open>steady_clock::now()\<close>, a reading in nanoseconds that may
  change the state too (time passes).  The difference of two readings is a signed subtraction.
  The theory also holds the properties of \<open>compute_latency_stats\<close>.
\<close>

subsection \<open>The loops\<close>

fun warm_up :: "('s \<Rightarrow> 's option) \<Rightarrow> nat \<Rightarrow> 's \<Rightarrow> 's option" where
  "warm_up workload 0 s = Some s"
| "warm_up workload (Suc n) s = do { s1 \<leftarrow> workload s; warm_up workload n s1 }"

text \<open>The measured loop from index \<open>i\<close> on, with \<open>n\<close> iterations to go.\<close>

fun timed_loop ::
  "('s \<Rightarrow> 's option) \<Rightarrow> ('s \<Rightarrow> int64 \<times> 's) \<Rightarrow> nat \<Rightarrow> nat \<Rightarrow> uint64 list \<Rightarrow> 's \<Rightarrow> (uint64 list \<times> 's) option" where
  "timed_loop workload now i 0 samples_ns s = Some (samples_ns, s)"
| "timed_loop workload now i (Suc n) samples_ns s = do {
     let (start, s1) = now s;
     s2 \<leftarrow> workload s1;
     let (stop, s3) = now s2;
     elapsed \<leftarrow> checked_sub stop start;
     guard (i < length samples_ns);
     timed_loop workload now (i + 1) n (samples_ns[i := raw elapsed]) s3
   }"

definition measure_latency_ns ::
  "int64 \<Rightarrow> ('s \<Rightarrow> int64 \<times> 's) \<Rightarrow> ('s \<Rightarrow> 's option) \<Rightarrow> nat \<Rightarrow> nat \<Rightarrow> 's \<Rightarrow> (LatencyStats \<times> 's) option" where
  "measure_latency_ns nan now workload warmup_iters measured_iters s = do {
     s1 \<leftarrow> warm_up workload warmup_iters s;
     (samples_ns, s2) \<leftarrow> timed_loop workload now 0 measured_iters (replicate measured_iters 0) s1;
     stats \<leftarrow> compute_latency_stats nan samples_ns;
     Some (stats, s2)
   }"

subsection \<open>The summary\<close>

lemma sort_Nil_iff [simp]: "sort xs = [] \<longleftrightarrow> xs = []"
  by (metis length_0_conv length_sort)

lemma nearest_rank_sort: "nearest_rank k (sort xs) v \<longleftrightarrow> nearest_rank k xs v"
  by (simp add: nearest_rank_def filter_sort)

lemma percentile_of_sorted:
  assumes "xs \<noteq> []" and "length xs < 2 ^ 64" and "k \<le> 10000"
  shows "\<exists>v. nearest_rank_percentile nan (sort xs) (literal (of_nat k / 100)) = Some v \<and> nearest_rank k xs v"
  using percentile_spec [of "sort xs" k nan] assms by (simp add: nearest_rank_sort)

lemma sorted_extremes:
  assumes "xs \<noteq> []"
  shows "\<forall>x \<in> set xs. hd (sort xs) \<le> x \<and> x \<le> last (sort xs)"
    and "hd (sort xs) \<in> set xs" and "last (sort xs) \<in> set xs"
proof -
  have ne: "sort xs \<noteq> []" using assms by simp
  have s: "sorted (sort xs)" by simp
  have "hd (sort xs) \<le> x \<and> x \<le> last (sort xs)" if x: "x \<in> set (sort xs)" for x
  proof -
    obtain i where "i < length (sort xs)" "x = sort xs ! i" using x by (metis in_set_conv_nth)
    then show ?thesis
      using sorted_nth_mono [OF s, of 0 i] sorted_nth_mono [OF s, of i "length xs - 1"] ne
      by (simp add: hd_conv_nth last_conv_nth)
  qed
  then show "\<forall>x \<in> set xs. hd (sort xs) \<le> x \<and> x \<le> last (sort xs)" by simp
  show "hd (sort xs) \<in> set xs" "last (sort xs) \<in> set xs"
    using hd_in_set [OF ne] last_in_set [OF ne] by simp_all
qed

lemma compute_latency_stats_spec:
  assumes "xs \<noteq> []" and "length xs < 2 ^ 64"
  obtains st where "compute_latency_stats nan xs = Some st"
    and "count_n st = of_nat (length xs)" "min_ns st = hd (sort xs)" "max_ns st = last (sort xs)"
    and "mean_ns st = mean_of (sort xs)"
    and "nearest_rank 5000 xs (p50_ns st)" "nearest_rank 9000 xs (p90_ns st)" "nearest_rank 9900 xs (p99_ns st)"
    and "nearest_rank 9990 xs (p999_ns st)" "nearest_rank 9999 xs (p9999_ns st)"
proof -
  note pct = percentile_of_sorted [OF assms, of _ nan]
  obtain v1 v2 v3 v4 v5 where v:
    "nearest_rank_percentile nan (sort xs) (literal 50) = Some v1" "nearest_rank 5000 xs v1"
    "nearest_rank_percentile nan (sort xs) (literal 90) = Some v2" "nearest_rank 9000 xs v2"
    "nearest_rank_percentile nan (sort xs) (literal 99) = Some v3" "nearest_rank 9900 xs v3"
    "nearest_rank_percentile nan (sort xs) (literal (999 / 10)) = Some v4" "nearest_rank 9990 xs v4"
    "nearest_rank_percentile nan (sort xs) (literal (9999 / 100)) = Some v5" "nearest_rank 9999 xs v5"
    using pct [of 5000] pct [of 9000] pct [of 9900] pct [of 9990] pct [of 9999] by auto
  have "compute_latency_stats nan xs = Some \<lparr>count_n = of_nat (length xs), min_ns = hd (sort xs),
      max_ns = last (sort xs), mean_ns = mean_of (sort xs), p50_ns = v1, p90_ns = v2, p99_ns = v3,
      p999_ns = v4, p9999_ns = v5\<rparr>"
    using assms(1) by (simp add: compute_latency_stats_def Let_def v(1,3,5,7,9))
  then show thesis by (rule that) (simp_all add: v(2,4,6,8,10))
qed

text \<open>
  C19: the summary.  For a non-empty vector of samples \<open>compute_latency_stats\<close> returns the number of
  samples, the smallest and the largest one and the nearest-rank percentiles at 50, 90, 99, 99.9
  and 99.99, which lie in ascending order between them; the summary does not depend on the order
  the samples come in.
\<close>

theorem stats_ordered:
  assumes "xs \<noteq> []" and "length xs < 2 ^ 64"
  shows "\<exists>st. compute_latency_stats nan xs = Some st \<and> unat (count_n st) = length xs \<and>
    min_ns st \<in> set xs \<and> max_ns st \<in> set xs \<and> (\<forall>x \<in> set xs. min_ns st \<le> x \<and> x \<le> max_ns st) \<and>
    nearest_rank 5000 xs (p50_ns st) \<and> nearest_rank 9000 xs (p90_ns st) \<and>
    nearest_rank 9900 xs (p99_ns st) \<and> nearest_rank 9990 xs (p999_ns st) \<and>
    nearest_rank 9999 xs (p9999_ns st) \<and>
    sorted [min_ns st, p50_ns st, p90_ns st, p99_ns st, p999_ns st, p9999_ns st, max_ns st] \<and>
    (\<forall>ys. mset ys = mset xs \<longrightarrow> compute_latency_stats nan ys = Some st)"
proof -
  obtain st where st: "compute_latency_stats nan xs = Some st"
    "count_n st = of_nat (length xs)" "min_ns st = hd (sort xs)" "max_ns st = last (sort xs)"
    and r: "nearest_rank 5000 xs (p50_ns st)" "nearest_rank 9000 xs (p90_ns st)" "nearest_rank 9900 xs (p99_ns st)"
    "nearest_rank 9990 xs (p999_ns st)" "nearest_rank 9999 xs (p9999_ns st)"
    using compute_latency_stats_spec [OF assms, of nan] by metis
  note ext = sorted_extremes [OF assms(1), folded st(3,4)]
  have "p50_ns st \<le> p90_ns st" "p90_ns st \<le> p99_ns st" "p99_ns st \<le> p999_ns st" "p999_ns st \<le> p9999_ns st"
    using nearest_rank_mono [OF r(1,2)] nearest_rank_mono [OF r(2,3)] nearest_rank_mono [OF r(3,4)]
      nearest_rank_mono [OF r(4,5)] by simp_all
  moreover have "min_ns st \<le> p50_ns st" "p9999_ns st \<le> max_ns st"
    using ext(1) r(1,5) by (auto simp: nearest_rank_def)
  ultimately have "sorted [min_ns st, p50_ns st, p90_ns st, p99_ns st, p999_ns st, p9999_ns st, max_ns st]"
    by (simp only: sorted2_simps)
  moreover have "compute_latency_stats nan ys = compute_latency_stats nan xs" if "mset ys = mset xs" for ys
  proof -
    have "sort ys = sort xs" "length ys = length xs" "ys = [] \<longleftrightarrow> xs = []"
      using that by (metis sorted_list_of_multiset_mset, metis mset_eq_length, auto)
    then show ?thesis by (simp add: compute_latency_stats_def)
  qed
  moreover have "unat (count_n st) = length xs" using st(2) assms(2) by (simp add: unat_of_nat64)
  ultimately show ?thesis using st(1) ext r by metis
qed

theorem stats_ordered_witness:
  "\<exists>st. compute_latency_stats 0 [30, 10, 20] = Some st \<and> unat (count_n st) = 3 \<and>
     compute_latency_stats 0 [10, 20, 30] = Some st \<and> min_ns st \<le> p50_ns st \<and> p9999_ns st \<le> max_ns st"
proof -
  have "mset [10, 20, 30 :: uint64] = mset [30, 10, 20]" by simp
  with stats_ordered [of "[30, 10, 20]" 0] show ?thesis by auto
qed

subsection \<open>The mean\<close>

lemma foldl_exact:
  assumes "a + sum_list (map unat xs) \<le> 2 ^ 53"
  shows "foldl (\<lambda>sum v. double_add sum (double_of v)) (Fin (of_nat a)) xs = Fin (of_nat (a + sum_list (map unat xs)))"
  using assms
proof (induction xs arbitrary: a)
  case (Cons x xs)
  then have "a + unat x \<le> 2 ^ 53" "unat x \<le> 2 ^ 53" by simp_all
  then have "double_of x = Fin (of_nat (unat x))" by (simp only: double_of_def round_double_of_nat)
  with \<open>a + unat x \<le> 2 ^ 53\<close> have "double_add (Fin (of_nat a)) (double_of x) = Fin (of_nat (a + unat x))"
    by (simp only: double_add.simps round_double_of_nat flip: of_nat_add)
  with Cons.IH [of "a + unat x"] Cons.prems show ?case by (simp add: add.assoc del: of_nat_add)
qed simp

text \<open>
  C20: the mean.  For at least one and at most \<open>2 ^ 53\<close> samples that add up to at most \<open>2 ^ 53\<close>
  nanoseconds (104 days), the additions of doubles are exact and the reported mean is the exact
  mean, rounded once.
\<close>

theorem mean_correctly_rounded:
  assumes "xs \<noteq> []" and "length xs \<le> 2 ^ 53" and "sum_list (map unat xs) \<le> 2 ^ 53"
  shows "\<exists>st. compute_latency_stats nan xs = Some st \<and>
    mean_ns st = round_double (of_nat (sum_list (map unat xs)) / of_nat (length xs))"
proof -
  have len: "length xs < 2 ^ 64" using assms(2) by simp
  obtain st where st: "compute_latency_stats nan xs = Some st" "mean_ns st = mean_of (sort xs)"
    using compute_latency_stats_spec [OF assms(1) len, of nan] by metis
  have "mset (map unat (sort xs)) = mset (map unat xs)" by simp
  then have sum: "sum_list (map unat (sort xs)) = sum_list (map unat xs)" by (metis sum_mset_sum_list)
  have "double_of (of_nat (length xs)) = Fin (of_nat (length xs))"
    using round_double_of_nat [OF assms(2)] len by (simp add: double_of_def unat_of_nat64)
  moreover have "foldl (\<lambda>sum v. double_add sum (double_of v)) (Fin 0) (sort xs) =
      Fin (of_nat (sum_list (map unat xs)))"
    using foldl_exact [of 0 "sort xs"] assms(3) sum by simp
  ultimately have "mean_of (sort xs) = round_double (of_nat (sum_list (map unat xs)) / of_nat (length xs))"
    using assms(1) by (simp add: mean_of_def)
  with st show ?thesis by auto
qed

theorem mean_correctly_rounded_witness:
  "\<exists>st. compute_latency_stats 0 [30, 10, 20, 25] = Some st \<and> mean_ns st = round_double (85 / 4)"
  using mean_correctly_rounded [of "[30, 10, 20, 25]" 0] by simp

subsection \<open>The measurement\<close>

lemma compute_latency_stats_total:
  assumes "length xs < 2 ^ 64"
  shows "\<exists>st. compute_latency_stats nan xs = Some st"
proof (cases "xs = []")
  case False
  then show ?thesis using compute_latency_stats_spec [OF False assms] by metis
qed (simp add: compute_latency_stats_def)

text \<open>Clock readings that are not negative can be subtracted.\<close>

lemma checked_sub_nonneg: "0 \<le> a \<Longrightarrow> 0 \<le> b \<Longrightarrow> checked_sub a b = Some (a - b)"
  using val_range [of a] val_range [of b] by (auto simp: checked_sub_def in_int64_def less_eq_int64_def)

lemma int_unat_nonneg:
  assumes "0 \<le> sint (w :: 64 word)"
  shows "int (unat w) = sint w"
proof -
  have "uint w = uint (of_int (sint w) :: 64 word)" by simp
  also have "\<dots> = sint w"
    using assms val_range(2) [of "Int64 w"] by (simp add: uint_word_of_int val_def del: of_int_sint)
  finally show ?thesis by simp
qed

text \<open>
  To see what the loops do, run them in a state that keeps a log: \<open>traced_now\<close> appends a reading
  and returns the value of the clock at that point of the log, \<open>traced_work\<close> appends the workload.
\<close>

datatype event = Reading | Work

definition traced_now :: "(nat \<Rightarrow> int64) \<Rightarrow> event list \<times> 's \<Rightarrow> int64 \<times> event list \<times> 's" where
  "traced_now clock ls = (clock (length (fst ls)), fst ls @ [Reading], snd ls)"

definition traced_work :: "('s \<Rightarrow> 's) \<Rightarrow> event list \<times> 's \<Rightarrow> (event list \<times> 's) option" where
  "traced_work f ls = Some (fst ls @ [Work], f (snd ls))"

definition steady :: "(nat \<Rightarrow> int64) \<Rightarrow> bool" where
  "steady clock \<longleftrightarrow> 0 \<le> clock 0 \<and> mono clock"

lemma steadyD: "steady clock \<Longrightarrow> 0 \<le> clock i" "steady clock \<Longrightarrow> i \<le> j \<Longrightarrow> clock i \<le> clock j"
  unfolding steady_def mono_def by (auto intro: order_trans)

lemma traced_warm_up:
  "warm_up (traced_work f) n (l, s) = Some (l @ replicate n Work, (f ^^ n) s)"
  by (induction n arbitrary: l s) (auto simp: traced_work_def funpow_swap1)

lemma traced_timed_loop:
  assumes "steady clock" and "length xs = i + n"
  shows "timed_loop (traced_work f) (traced_now clock) i n xs (l, s) =
    Some (take i xs @ map (\<lambda>j. raw (clock (length l + 3 * j + 2) - clock (length l + 3 * j))) [0..<n],
          l @ concat (replicate n [Reading, Work, Reading]), (f ^^ n) s)"
  using assms(2)
proof (induction n arbitrary: i xs l s)
  case (Suc n)
  let ?d = "clock (Suc (Suc (length l))) - clock (length l)"
  have sub: "checked_sub (clock (Suc (Suc (length l)))) (clock (length l)) = Some ?d"
    using assms(1) by (intro checked_sub_nonneg steadyD(1))
  have len: "length (xs[i := raw ?d]) = (i + 1) + n" using Suc.prems by simp
  have take: "take (i + 1) (xs[i := raw ?d]) = take i xs @ [raw ?d]"
    using Suc.prems by (simp add: take_Suc_conv_app_nth)
  have upt: "[0..<Suc n] = 0 # map Suc [0..<n]" by (simp only: map_Suc_upt upt_conv_Cons zero_less_Suc)
  show ?case
    using Suc.IH [OF len, of "l @ [Reading, Work, Reading]" "f s"] Suc.prems unfolding upt take
    by (simp add: traced_now_def traced_work_def sub funpow_swap1 eval_nat_numeral)
qed simp

text \<open>
  C21: what is measured.  With a steady clock (readings not negative and never going back)
  \<open>measure_latency_ns\<close> runs the workload \<open>warmup_iters\<close> times without looking at the clock, then
  \<open>measured_iters\<close> times, each with one reading directly before and one directly after it; it
  returns the summary of exactly the \<open>measured_iters\<close> differences, none of which wraps around.
\<close>

theorem measure_runs_workload:
  assumes "steady clock" and "m < 2 ^ 64"
  shows "\<exists>samples st. measure_latency_ns nan (traced_now clock) (traced_work f) w m ([], s) =
      Some (st, replicate w Work @ concat (replicate m [Reading, Work, Reading]), (f ^^ (w + m)) s) \<and>
    compute_latency_stats nan samples = Some st \<and> length samples = m \<and>
    (\<forall>i < m. int (unat (samples ! i)) = val (clock (w + 3 * i + 2)) - val (clock (w + 3 * i)))"
proof -
  define xs where "xs = map (\<lambda>j. raw (clock (w + 3 * j + 2) - clock (w + 3 * j))) [0..<m]"
  have loop: "timed_loop (traced_work f) (traced_now clock) 0 m (replicate m 0) (replicate w Work, (f ^^ w) s) =
      Some (xs, replicate w Work @ concat (replicate m [Reading, Work, Reading]), (f ^^ (w + m)) s)"
    using traced_timed_loop [OF assms(1), of "replicate m 0" 0 m f "replicate w Work" "(f ^^ w) s"]
    by (simp add: xs_def funpow_add add.commute [of w m])
  obtain st where st: "compute_latency_stats nan xs = Some st"
    using compute_latency_stats_total [of xs nan] assms(2) by (auto simp: xs_def)
  have "int (unat (raw (b - a))) = val b - val a" if "0 \<le> a" "a \<le> b" for a b
  proof -
    have "val (b - a) = val b - val a" by (rule checked_sub_le(2) [OF that])
    moreover from this have "0 \<le> sint (raw (b - a))" using that by (simp add: val_def less_eq_int64_def)
    ultimately show ?thesis using int_unat_nonneg [of "raw (b - a)"] by (simp add: val_def)
  qed
  then have "\<forall>i < m. int (unat (xs ! i)) = val (clock (w + 3 * i + 2)) - val (clock (w + 3 * i))"
    using assms(1) by (simp add: xs_def steadyD)
  moreover have "length xs = m" by (simp add: xs_def)
  ultimately show ?thesis
    using st loop by (intro exI [of _ xs] exI [of _ st]) (simp add: measure_latency_ns_def traced_warm_up)
qed

theorem measure_runs_workload_witness:
  "\<exists>samples st. measure_latency_ns 0 (traced_now (\<lambda>i. if i < 4 then 100 else 130)) (traced_work Suc) 1 2 ([], 0) =
      Some (st, [Work, Reading, Work, Reading, Reading, Work, Reading], 3) \<and>
    compute_latency_stats 0 samples = Some st \<and> int (unat (samples ! 1)) = val 130 - val 130"
proof -
  have "steady (\<lambda>i. if i < 4 then 100 else 130)"
    by (auto simp: steady_def mono_def less_eq_int64_def val_numeral)
  then obtain samples st where
    "measure_latency_ns 0 (traced_now (\<lambda>i. if i < 4 then 100 else 130)) (traced_work Suc) 1 2 ([], 0) =
      Some (st, replicate 1 Work @ concat (replicate 2 [Reading, Work, Reading]), (Suc ^^ (1 + 2)) 0)"
    "compute_latency_stats 0 samples = Some st"
    "\<forall>i < 2. int (unat (samples ! i)) = val (if 1 + 3 * i + 2 < 4 then 100 else 130) -
      val (if 1 + 3 * i < 4 then 100 else 130)"
    using measure_runs_workload [of "\<lambda>i. if i < 4 then 100 else 130" 2 0 Suc 1 0] by auto
  moreover have "replicate 1 Work @ concat (replicate 2 [Reading, Work, Reading]) =
      [Work, Reading, Work, Reading, Reading, Work, Reading]" "(Suc ^^ (1 + 2)) 0 = 3"
    by (simp_all add: eval_nat_numeral)
  ultimately show ?thesis by (intro exI [of _ samples] exI [of _ st]) auto
qed

subsection \<open>Measuring a workload that does not touch the clock\<close>

text \<open>The state is a clock and a program; \<open>tick\<close> reads the clock.\<close>

definition read_clock :: "('c \<Rightarrow> int64 \<times> 'c) \<Rightarrow> 'c \<times> 's \<Rightarrow> int64 \<times> 'c \<times> 's" where
  "read_clock tick cs = (case tick (fst cs) of (t, c) \<Rightarrow> (t, c, snd cs))"

definition apart :: "('s \<Rightarrow> 's option) \<Rightarrow> 'c \<times> 's \<Rightarrow> ('c \<times> 's) option" where
  "apart workload cs = map_option (Pair (fst cs)) (workload (snd cs))"

lemma warm_up_apart: "warm_up (apart workload) n (c, s) = map_option (Pair c) (warm_up workload n s)"
  by (induction n arbitrary: s) (auto simp: apart_def split: option.splits Option.bind_splits)

lemma warm_up_add:
  "warm_up workload (m + n) s = Option.bind (warm_up workload m s) (warm_up workload n)"
  by (induction m arbitrary: s) (auto split: Option.bind_splits)

lemma timed_loop_apart:
  assumes "\<forall>c. 0 \<le> fst (tick c)" and "warm_up workload n s = Some s'" and "length xs = i + n"
  shows "\<exists>ys c'. timed_loop (apart workload) (read_clock tick) i n xs (c, s) = Some (ys, c', s') \<and>
    length ys = length xs"
  using assms(2,3)
proof (induction n arbitrary: i xs c s)
  case (Suc n)
  then obtain s1 where s1: "workload s = Some s1" "warm_up workload n s1 = Some s'"
    by (auto simp: bind_Some_iff)
  obtain t1 c1 t2 c2 where c: "tick c = (t1, c1)" "tick c1 = (t2, c2)" by (metis surj_pair)
  then have "checked_sub t2 t1 = Some (t2 - t1)" using assms(1) by (metis checked_sub_nonneg fst_conv)
  then show ?case
    using Suc.IH [OF s1(2), of "xs[i := raw (t2 - t1)]" "i + 1" c2] Suc.prems(2)
    by (simp add: apart_def read_clock_def c s1(1) guard_def)
qed auto

lemma measure_apart:
  assumes "\<forall>c. 0 \<le> fst (tick c)" and "warm_up workload (w + m) s = Some s'" and "m < 2 ^ 64"
  shows "\<exists>st c'. measure_latency_ns nan (read_clock tick) (apart workload) w m (c, s) = Some (st, c', s')"
proof -
  obtain s1 where s1: "warm_up workload w s = Some s1" "warm_up workload m s1 = Some s'"
    using assms(2) by (auto simp: warm_up_add bind_Some_iff)
  obtain ys c' where "timed_loop (apart workload) (read_clock tick) 0 m (replicate m 0) (c, s1) = Some (ys, c', s')"
    "length ys = m"
    using timed_loop_apart [OF assms(1) s1(2), of "replicate m 0" 0 c] by auto
  with compute_latency_stats_total [of ys nan] assms(3) show ?thesis
    by (auto simp: measure_latency_ns_def warm_up_apart s1(1))
qed

end
