(* ===== verification/Printed_Text.thy ===== *)
theory Printed_Text
  imports Latency_Stats
begin

section \<open>What printf writes (print_latency_row in latency_harness.cpp)\<close>

text \<open>
  The conversions of \<open>printf\<close> that the programs use, as functions into strings: \<open>%s\<close> stops at the
  first NUL, \<open>%llu\<close>, \<open>%zu\<close>, \<open>%lld\<close> and \<open>%d\<close> write decimal digits, \<open>%.1f\<close> rounds the exact value
  of the double to one decimal, ties to even, and the flag \<open>-\<close> with a width pads on the right with
  spaces and never cuts off.  \<open>show_row\<close> is the row of the results table.  The property shows that
  a row can be read back: nothing but the rounding of the mean is lost.
\<close>

subsection \<open>Conversions\<close>

definition digit :: "nat \<Rightarrow> char" where
  "digit d = char_of (48 + d)"

fun decimal :: "nat \<Rightarrow> string" where
  "decimal n = (if n < 10 then [digit n] else decimal (n div 10) @ [digit (n mod 10)])"

declare decimal.simps [simp del]

definition show_unsigned :: "uint64 \<Rightarrow> string" where
  "show_unsigned w = decimal (unat w)"

definition show_int :: "int \<Rightarrow> string" where
  "show_int i = (if i < 0 then ''-'' @ decimal (nat (- i)) else decimal (nat i))"

definition show_signed :: "int64 \<Rightarrow> string" where
  "show_signed a = show_int (val a)"

text \<open>\<open>%.1f\<close>\<close>

definition tenths :: "rat \<Rightarrow> nat" where
  "tenths x = nat (round_even (\<bar>x\<bar> * 10))"

fun show_fixed1 :: "double \<Rightarrow> string" where
  "show_fixed1 (Fin x) =
     (if x < 0 then ''-'' else []) @ decimal (tenths x div 10) @ ''.'' @ [digit (tenths x mod 10)]"
| "show_fixed1 PInf = ''inf''"
| "show_fixed1 NInf = ''-inf''"
| "show_fixed1 NaN = ''nan''"

definition c_str :: "string \<Rightarrow> string" where
  "c_str s = takeWhile (\<lambda>c. c \<noteq> CHR 0x00) s"

definition left_justified :: "nat \<Rightarrow> string \<Rightarrow> string" where
  "left_justified width s = s @ replicate (width - length s) CHR '' ''"

definition newline :: string where
  "newline = [CHR 0x0A]"

subsection \<open>A row of the results table\<close>

definition show_row :: "string \<Rightarrow> size_t \<Rightarrow> LatencyStats \<Rightarrow> string" where
  "show_row name warmup_iters stats =
     left_justified 42 (c_str name) @
     '' n='' @ left_justified 8 (show_unsigned (count_n stats)) @
     '' warmup='' @ left_justified 6 (show_unsigned warmup_iters) @
     '' min='' @ left_justified 8 (show_unsigned (min_ns stats)) @
     '' p50='' @ left_justified 8 (show_unsigned (p50_ns stats)) @
     '' p90='' @ left_justified 8 (show_unsigned (p90_ns stats)) @
     '' p99='' @ left_justified 8 (show_unsigned (p99_ns stats)) @
     '' p99.9='' @ left_justified 8 (show_unsigned (p999_ns stats)) @
     '' p99.99='' @ left_justified 8 (show_unsigned (p9999_ns stats)) @
     '' max='' @ left_justified 10 (show_unsigned (max_ns stats)) @
     '' mean='' @ show_fixed1 (mean_ns stats) @ '' (ns)'' @ newline"

subsection \<open>Reading digits back\<close>

definition digit_value :: "char \<Rightarrow> nat" where
  "digit_value c = of_char c - 48"

definition is_digit :: "char \<Rightarrow> bool" where
  "is_digit c \<longleftrightarrow> c \<in> digit ` {..<10}"

definition read_decimal :: "string \<Rightarrow> nat" where
  "read_decimal s = foldl (\<lambda>n c. 10 * n + digit_value c) 0 s"

lemma digit_values:
  "digit 0 = CHR ''0''" "digit (Suc 0) = CHR ''1''" "digit 2 = CHR ''2''" "digit 3 = CHR ''3''" "digit 4 = CHR ''4''"
  "digit 5 = CHR ''5''" "digit 6 = CHR ''6''" "digit 7 = CHR ''7''" "digit 8 = CHR ''8''" "digit 9 = CHR ''9''"
  by code_simp+

lemma of_char_digit: "d < 10 \<Longrightarrow> of_char (digit d) = 48 + d"
  by (simp add: digit_def)

lemma digit_value_digit [simp]: "d < 10 \<Longrightarrow> digit_value (digit d) = d"
  by (simp add: digit_value_def of_char_digit)

lemma is_digit_digit [simp]: "d < 10 \<Longrightarrow> is_digit (digit d)"
  by (auto simp: is_digit_def)

lemma not_is_digit: "of_char c < (48::nat) \<Longrightarrow> \<not> is_digit c" "57 < (of_char c :: nat) \<Longrightarrow> \<not> is_digit c"
  by (auto simp: is_digit_def of_char_digit)

lemma read_decimal_decimal [simp]: "read_decimal (decimal n) = n"
proof (induction n rule: decimal.induct)
  case (1 n)
  show ?case
  proof (cases "n < 10")
    case True
    then show ?thesis by (simp add: decimal.simps [of n] read_decimal_def)
  next
    case False
    with 1 have "read_decimal (decimal (n div 10)) = n div 10" by blast
    then show ?thesis using False by (simp add: decimal.simps [of n] read_decimal_def)
  qed
qed

lemma decimal_inject [simp]: "decimal m = decimal n \<longleftrightarrow> m = n"
  by (metis read_decimal_decimal)

lemma decimal_digits: "c \<in> set (decimal n) \<Longrightarrow> is_digit c"
proof (induction n rule: decimal.induct)
  case (1 n)
  then show ?case by (cases "n < 10") (auto simp: decimal.simps [of n])
qed

text \<open>Digits up to the first other character determine the number and what follows it.\<close>

lemma decimal_append_inject:
  assumes "decimal m @ c # s = decimal n @ d # t" and "\<not> is_digit c" and "\<not> is_digit d"
  shows "m = n \<and> c # s = d # t"
proof -
  have "takeWhile is_digit (decimal k @ e # u) = decimal k" if "\<not> is_digit e" for k e u
    using that decimal_digits [of _ k] by (simp add: takeWhile_append)
  with assms have "decimal m = decimal n" by metis
  with assms(1) show ?thesis by simp
qed

lemma space_no_digit [simp]: "\<not> is_digit CHR '' ''" "\<not> is_digit CHR ''.''"
  by (rule not_is_digit(1), simp)+

lemma padded_form:
  "left_justified w s @ CHR '' '' # t = s @ CHR '' '' # replicate (w - length s) CHR '' '' @ t"
  by (simp add: left_justified_def replicate_app_Cons_same)

lemma padded_number_inject:
  "left_justified w (show_unsigned a) @ CHR '' '' # s = left_justified w (show_unsigned b) @ CHR '' '' # t
   \<longleftrightarrow> a = b \<and> s = t"
proof
  assume eq: "left_justified w (show_unsigned a) @ CHR '' '' # s = left_justified w (show_unsigned b) @ CHR '' '' # t"
  then have "show_unsigned a @ CHR '' '' # replicate (w - length (show_unsigned a)) CHR '' '' @ s =
      show_unsigned b @ CHR '' '' # replicate (w - length (show_unsigned b)) CHR '' '' @ t"
    by (simp only: padded_form)
  then have "unat a = unat b" unfolding show_unsigned_def
    by (rule conjunct1 [OF decimal_append_inject]) simp_all
  then have "a = b" by (rule unsigned_word_eqI)
  with eq show "a = b \<and> s = t" by simp
qed simp

text \<open>
  A name without spaces at the end can be read off its column, whether it fills the column or not.
  It may contain equals signs: the row is read from its end, where their number is fixed.
\<close>

definition plain :: "string \<Rightarrow> bool" where
  "plain name \<longleftrightarrow> CHR 0x00 \<notin> set name \<and> (name = [] \<or> last name \<noteq> CHR '' '')"

lemma c_str_plain: "plain name \<Longrightarrow> c_str name = name"
  by (auto simp: plain_def c_str_def takeWhile_eq_all_conv)

lemma trailing_spaces:
  assumes "name = [] \<or> last name \<noteq> CHR '' ''"
  shows "rev (dropWhile (\<lambda>c. c = CHR '' '') (rev (name @ replicate k CHR '' ''))) = name"
proof -
  have "dropWhile (\<lambda>c. c = CHR '' '') (replicate k CHR '' '' @ rev name) = dropWhile (\<lambda>c. c = CHR '' '') (rev name)"
    by (induction k) auto
  also have "\<dots> = rev name" using assms by (cases name rule: rev_cases) auto
  finally show ?thesis by simp
qed

lemma not_digit_count: "\<not> is_digit c \<Longrightarrow> count_list (decimal n) c = 0"
  using decimal_digits count_notin by metis

lemma count_replicate_other: "c \<noteq> d \<Longrightarrow> count_list (replicate k c) d = 0"
  by (induction k) simp_all

lemma split_at_count:
  assumes "u @ [c] @ s = v @ [c] @ t" and "count_list s c = count_list t c"
  shows "u = v \<and> s = t"
proof -
  have tails: "xs = ys" if "xs @ [c] @ p = ys @ [c] @ q" "count_list p c = count_list q c" "xs = ys @ us"
    for xs ys p q us
  proof (cases us)
    case (Cons x us')
    with that(1,3) have "q = us' @ c # p" by simp
    with that(2) show ?thesis by (simp add: count_list_append)
  qed (use that(3) in simp)
  obtain us where "u = v @ us \<or> v = u @ us" using assms(1) unfolding append_eq_append_conv2 by blast
  then have "u = v" using tails [OF assms] tails [OF assms(1) [symmetric] assms(2) [symmetric]] by metis
  with assms(1) show ?thesis by simp
qed

lemma name_column_inject:
  assumes "plain name" and "plain name'"
    and "left_justified w name @ '' n='' @ s = left_justified w name' @ '' n='' @ t"
    and "count_list s CHR ''='' = count_list t CHR ''=''"
  shows "name = name' \<and> s = t"
proof -
  have "left_justified w name @ '' n'' = left_justified w name' @ '' n'' \<and> s = t"
    using assms(3,4) by (intro split_at_count [of _ "CHR ''=''"]) simp_all
  then have eq: "left_justified w name = left_justified w name'" "s = t" by simp_all
  have "x = rev (dropWhile (\<lambda>c. c = CHR '' '') (rev (left_justified w x)))" if "plain x" for x
    using that trailing_spaces [of x "w - length x"] by (simp add: plain_def left_justified_def)
  with eq assms(1,2) show ?thesis by metis
qed

subsection \<open>The mean to one decimal\<close>

lemma tenths_error: "\<bar>of_nat (tenths x) - \<bar>x\<bar> * 10\<bar> \<le> 1 / 2"
proof -
  have "0 \<le> \<lfloor>\<bar>x\<bar> * 10\<rfloor>" by simp
  then have "0 \<le> round_even (\<bar>x\<bar> * 10)" unfolding round_even_def Let_def by auto
  then have "(of_nat (tenths x) :: rat) = of_int (round_even (\<bar>x\<bar> * 10))" by (simp add: tenths_def)
  then show ?thesis using round_even_error [of "\<bar>x\<bar> * 10"] by simp
qed

lemma fixed1_chars:
  "CHR ''.'' \<in> set (show_fixed1 (Fin x))" "CHR ''-'' \<in> set (show_fixed1 (Fin x)) \<longleftrightarrow> x < 0"
proof -
  have "CHR ''-'' \<notin> set (decimal n)" for n using decimal_digits not_is_digit(1) [of "CHR ''-''"] by fastforce
  moreover have "digit d \<noteq> CHR ''-''" if "d < 10" for d
    using that is_digit_digit not_is_digit(1) [of "CHR ''-''"] by fastforce
  ultimately show "CHR ''.'' \<in> set (show_fixed1 (Fin x))" "CHR ''-'' \<in> set (show_fixed1 (Fin x)) \<longleftrightarrow> x < 0"
    by (auto dest: sym)
qed

fun alike :: "double \<Rightarrow> double \<Rightarrow> bool" where
  "alike (Fin x) (Fin y) \<longleftrightarrow> \<bar>x - y\<bar> \<le> 1 / 10"
| "alike a b \<longleftrightarrow> a = b"

lemma finite_alike:
  assumes "show_fixed1 (Fin x) = show_fixed1 (Fin y)"
  shows "\<bar>x - y\<bar> \<le> 1 / 10"
proof -
  have sign: "x < 0 \<longleftrightarrow> y < 0" using assms fixed1_chars(2) by metis
  then have "decimal (tenths x div 10) @ CHR ''.'' # [digit (tenths x mod 10)] =
      decimal (tenths y div 10) @ CHR ''.'' # [digit (tenths y mod 10)]"
    using assms by (simp split: if_splits)
  then have "tenths x div 10 = tenths y div 10 \<and> CHR ''.'' # [digit (tenths x mod 10)] = CHR ''.'' # [digit (tenths y mod 10)]"
    by (rule decimal_append_inject) simp_all
  then have "tenths x div 10 = tenths y div 10" "digit_value (digit (tenths x mod 10)) = digit_value (digit (tenths y mod 10))"
    by simp_all
  then have "tenths x = tenths y" by simp (metis div_mult_mod_eq)
  then show ?thesis using tenths_error [of x] tenths_error [of y] sign by (auto simp: abs_if split: if_splits)
qed

lemma shown_alike: "show_fixed1 a = show_fixed1 b \<Longrightarrow> alike a b"
proof -
  assume eq: "show_fixed1 a = show_fixed1 b"
  have "CHR ''.'' \<in> set (show_fixed1 c) \<longleftrightarrow> (\<exists>x. c = Fin x)" for c
    using fixed1_chars(1) by (cases c) (simp_all del: show_fixed1.simps(1))
  then have "(\<exists>x. a = Fin x) \<longleftrightarrow> (\<exists>y. b = Fin y)" using eq by metis
  then show ?thesis using eq finite_alike by (cases a; cases b) (simp_all del: show_fixed1.simps(1))
qed

text \<open>The equals signs after the one of the first column.\<close>

definition row_rest :: "size_t \<Rightarrow> LatencyStats \<Rightarrow> string" where
  "row_rest warmup_iters stats =
     left_justified 8 (show_unsigned (count_n stats)) @
     '' warmup='' @ left_justified 6 (show_unsigned warmup_iters) @
     '' min='' @ left_justified 8 (show_unsigned (min_ns stats)) @
     '' p50='' @ left_justified 8 (show_unsigned (p50_ns stats)) @
     '' p90='' @ left_justified 8 (show_unsigned (p90_ns stats)) @
     '' p99='' @ left_justified 8 (show_unsigned (p99_ns stats)) @
     '' p99.9='' @ left_justified 8 (show_unsigned (p999_ns stats)) @
     '' p99.99='' @ left_justified 8 (show_unsigned (p9999_ns stats)) @
     '' max='' @ left_justified 10 (show_unsigned (max_ns stats)) @
     '' mean='' @ show_fixed1 (mean_ns stats) @ '' (ns)'' @ newline"

lemma row_rest_signs: "count_list (row_rest warmup stats) CHR ''='' = 9"
proof -
  have other: "\<not> is_digit CHR ''=''" by (rule not_is_digit(2)) simp
  have "count_list (left_justified w (show_unsigned v)) CHR ''='' = 0" for w v
    by (simp add: left_justified_def show_unsigned_def count_list_append not_digit_count [OF other] count_replicate_other)
  moreover have "digit d \<noteq> CHR ''=''" if "d < 10" for d using that other is_digit_digit by metis
  then have "count_list (show_fixed1 m) CHR ''='' = 0" for m
    by (cases m) (simp_all add: count_list_append not_digit_count [OF other])
  ultimately show ?thesis by (simp add: row_rest_def count_list_append newline_def)
qed

text \<open>
  C27: a row of the results table can be read back.  If \<open>print_latency_row\<close> writes the same text for two
  summaries, under names without a NUL and without a space at the end, then the names, the warm-up
  counts, the sample counts and all percentiles and extremes are the same, and so are the means up
  to the rounding to one decimal: two finite ones differ by at most a tenth of a nanosecond, and
  infinities and NaNs are the same.
\<close>

theorem row_determines_stats:
  assumes "plain name" and "plain name'"
    and "show_row name warmup stats = show_row name' warmup' stats'"
  shows "name = name' \<and> warmup = warmup' \<and> stats\<lparr>mean_ns := mean_ns stats'\<rparr> = stats' \<and>
    alike (mean_ns stats) (mean_ns stats')"
proof -
  have "left_justified 42 name @ '' n='' @ row_rest warmup stats = left_justified 42 name' @ '' n='' @ row_rest warmup' stats'"
    using assms(3) unfolding show_row_def row_rest_def c_str_plain [OF assms(1)] c_str_plain [OF assms(2)] .
  then have cells: "name = name' \<and> row_rest warmup stats = row_rest warmup' stats'"
    by (rule name_column_inject [OF assms(1,2)]) (simp add: row_rest_signs)
  then have "show_fixed1 (mean_ns stats) = show_fixed1 (mean_ns stats')"
    and eqs: "count_n stats = count_n stats'" "warmup = warmup'" "min_ns stats = min_ns stats'"
    "p50_ns stats = p50_ns stats'" "p90_ns stats = p90_ns stats'" "p99_ns stats = p99_ns stats'"
    "p999_ns stats = p999_ns stats'" "p9999_ns stats = p9999_ns stats'" "max_ns stats = max_ns stats'"
    unfolding row_rest_def by (simp_all add: padded_number_inject)
  then show ?thesis using cells shown_alike by (auto simp: eqs)
qed

theorem row_determines_stats_witness:
  "show_row ''depth=16'' 2 (no_stats\<lparr>mean_ns := Fin (1 / 50)\<rparr>) = show_row ''depth=16'' 2 no_stats \<and>
   show_row ''depth=16'' 2 no_stats \<noteq> show_row ''depth=16'' 2 (no_stats\<lparr>max_ns := 1\<rparr>)"
proof -
  have plain: "plain ''depth=16''" by (simp add: plain_def)
  have "round_even (1 / 5) = 0" "round_even 0 = 0" by code_simp+
  then have "show_fixed1 (Fin (1 / 50)) = show_fixed1 (Fin 0)" by (simp add: tenths_def)
  then have "show_row ''depth=16'' 2 (no_stats\<lparr>mean_ns := Fin (1 / 50)\<rparr>) = show_row ''depth=16'' 2 no_stats"
    by (simp add: show_row_def no_stats_def del: show_fixed1.simps)
  moreover have "show_row ''depth=16'' 2 no_stats \<noteq> show_row ''depth=16'' 2 (no_stats\<lparr>max_ns := 1\<rparr>)"
    using row_determines_stats [OF plain plain, of 2 no_stats 2 "no_stats\<lparr>max_ns := 1\<rparr>"]
    by (auto simp: no_stats_def)
  ultimately show ?thesis by blast
qed

end
