(* ===== verification/Test_Oracles.thy ===== *)
theory Test_Oracles
  imports Latency_Stats
begin

section \<open>The oracle of the percentile tests\<close>

text \<open>
  \<open>tests/test_latency_harness.cpp\<close> checks \<open>nearest_rank_percentile\<close> against \<open>exact_rank\<close>, a second
  computation of the rank in 64-bit integers, of percentages scaled by 10000.  The oracle is the
  rank of the specification, as long as its product does not wrap, and so the comparison the tests
  make on a few vectors holds for every vector and every percentage of two decimals.
\<close>

definition exact_rank :: "uint64 \<Rightarrow> uint64 \<Rightarrow> uint64" where
  "exact_rank p_scaled_1e4 n =
     (let num = p_scaled_1e4 * n; den = 1000000; r = (num + den - 1) div den;
          r = (if r < 1 then 1 else r)
      in if r > n then n else r)"

lemma exact_rank_is_rank:
  assumes "0 < n" and "k \<le> 10000" and "1000000 * n + 999999 < 2 ^ 64"
  shows "unat (exact_rank (of_nat (100 * k)) (of_nat n)) = rank k n"
proof -
  define q :: uint64 where "q = (of_nat (100 * k) * of_nat n + 1000000 - 1) div 1000000"
  have "100 * k * n \<le> 1000000 * n" using assms(2) by (intro mult_le_mono1) simp
  then have small: "100 * k * n + 999999 < 2 ^ 64" using assms(3) by linarith
  have num: "of_nat (100 * k) * of_nat n + 1000000 - 1 = (of_nat (100 * k * n + 999999) :: uint64)" by simp
  have "unat (1000000 :: uint64) = 1000000" by simp
  then have "unat q = (100 * k * n + 999999) div 1000000"
    by (simp only: q_def num unat_div unat_of_nat64 [OF small])
  also have "\<dots> = (100 * k * n + 999999) div 100 div 10000"
    using div_mult2_eq [of "100 * k * n + 999999" 100 10000] by simp
  also have "100 * k * n + 999999 = 99 + 100 * (k * n + 9999)" by simp
  also have "(99 + 100 * (k * n + 9999)) div 100 = k * n + 9999" by (subst div_mult_self2) simp_all
  finally have q: "unat q = (k * n + 9999) div 10000" .
  define r where "r = (if q < 1 then 1 else q)"
  have r: "unat r = rank k n" by (auto simp: r_def rank_def max_def word_less_nat_alt q)
  then have le: "\<not> r > of_nat n"
    using rank_bounds [OF assms(1,2)] assms(3) by (simp add: word_less_nat_alt unat_of_nat64)
  show ?thesis
    by (simp only: exact_rank_def Let_def q_def [symmetric] r_def [symmetric] le if_False r)
qed

theorem percentile_agrees_with_oracle:
  assumes "xs \<noteq> []" and "1000000 * length xs + 999999 < 2 ^ 64" and "k \<le> 10000"
  shows "nearest_rank_percentile nan xs (literal (of_nat k / 100)) =
    Some (xs ! unat (exact_rank (of_nat (100 * k)) (of_nat (length xs)) - 1))"
proof -
  have n: "0 < length xs" "length xs < 2 ^ 64" using assms(1,2) by simp_all
  note r = exact_rank_is_rank [OF n(1) assms(3,2)]
  then have "unat (exact_rank (of_nat (100 * k)) (of_nat (length xs)) - 1) = rank k (length xs) - 1"
    using rank_bounds [OF n(1) assms(3)] by (simp add: unat_sub_if' word_le_nat_alt)
  with percentile_at_rank [OF assms(1) n(2) assms(3)] show ?thesis by simp
qed

end
