(* ===== verification/Core_Affinity.thy ===== *)
theory Core_Affinity
  imports Prelude
begin

section \<open>Core pinning (core_affinity.hpp, core_affinity.cpp)\<close>

text \<open>
  The three compilations of the module, one per platform.  The calls into the operating system
  are parameters: records of functions over the kernel's state \<open>'k\<close>, as seen by the calling
  thread, and over the opaque \<open>cpu_set_t\<close>, \<open>'m\<close>.  A C \<open>int\<close> is a 32-bit word read with \<open>sint\<close>;
  the conversion of the unsigned \<open>core_id\<close> to it keeps the bits.  \<open>documented\<close> states what the
  Linux manual pages promise of these calls; nothing of it is used by the definitions.
\<close>

type_synonym cint = "32 word"

datatype PinOutcome = Pinned | BestEffortHint | Unsupported

record PinResult =
  outcome :: PinOutcome
  os_status :: cint

subsection \<open>Linux\<close>

record ('m, 'k) linux_api =
  cpu_zero :: 'm
  cpu_set_bit :: "cint \<Rightarrow> 'm \<Rightarrow> 'm"
  pthread_setaffinity :: "'m \<Rightarrow> 'k \<Rightarrow> cint \<times> 'k"
  sched_getcpu :: "'k \<Rightarrow> cint"

definition pin_linux :: "('m, 'k) linux_api \<Rightarrow> 32 word \<Rightarrow> 'k \<Rightarrow> PinResult \<times> 'k" where
  "pin_linux api core_id k =
     (let cpu_set = cpu_set_bit api core_id (cpu_zero api);
          (rc, k1) = pthread_setaffinity api cpu_set k
      in if rc = 0 then (\<lparr>outcome = Pinned, os_status = 0\<rparr>, k1)
         else (\<lparr>outcome = Unsupported, os_status = rc\<rparr>, k1))"

definition core_linux :: "('m, 'k) linux_api \<Rightarrow> 'k \<Rightarrow> cint option" where
  "core_linux api k = (let cpu = sched_getcpu api k in if sint cpu < 0 then None else Some cpu)"

subsection \<open>macOS\<close>

text \<open>\<open>thread_policy_set\<close> with \<open>THREAD_AFFINITY_POLICY\<close>, of the calling thread and an affinity tag.\<close>

record 'k apple_api =
  thread_policy_set :: "cint \<Rightarrow> 'k \<Rightarrow> cint \<times> 'k"

definition pin_apple :: "'k apple_api \<Rightarrow> 32 word \<Rightarrow> 'k \<Rightarrow> PinResult \<times> 'k" where
  "pin_apple api core_id k =
     (let (kr, k1) = thread_policy_set api core_id k
      in if kr = 0 then (\<lparr>outcome = BestEffortHint, os_status = kr\<rparr>, k1)
         else (\<lparr>outcome = Unsupported, os_status = kr\<rparr>, k1))"

subsection \<open>The module\<close>

datatype ('m, 'k) platform = Linux "('m, 'k) linux_api" | Apple "'k apple_api" | OtherPlatform

fun pin_current_thread_to_core :: "('m, 'k) platform \<Rightarrow> 32 word \<Rightarrow> 'k \<Rightarrow> PinResult \<times> 'k" where
  "pin_current_thread_to_core (Linux api) core_id k = pin_linux api core_id k"
| "pin_current_thread_to_core (Apple api) core_id k = pin_apple api core_id k"
| "pin_current_thread_to_core OtherPlatform core_id k = (\<lparr>outcome = Unsupported, os_status = 0\<rparr>, k)"

fun current_core_id :: "('m, 'k) platform \<Rightarrow> 'k \<Rightarrow> cint option" where
  "current_core_id (Linux api) k = core_linux api k"
| "current_core_id (Apple api) k = None"
| "current_core_id OtherPlatform k = None"

subsection \<open>What the manual pages promise\<close>

text \<open>
  \<open>members\<close> are the CPUs of a set, \<open>allowed\<close> those the calling thread may run on and \<open>online\<close> those
  of the machine.  \<open>CPU_SETSIZE\<close> is 1024; setting a larger CPU is not covered.  A call of
  \<open>pthread_setaffinity_np\<close> fails (and changes nothing) or restricts the thread to the CPUs of the
  set that are online, never to none; a thread runs on a CPU it is allowed on.
\<close>

definition documented ::
  "('m, 'k) linux_api \<Rightarrow> ('m \<Rightarrow> nat set) \<Rightarrow> ('k \<Rightarrow> nat set) \<Rightarrow> nat set \<Rightarrow> bool" where
  "documented api members allowed online \<longleftrightarrow>
     members (cpu_zero api) = {} \<and>
     (\<forall>c m. unat c < 1024 \<longrightarrow> members (cpu_set_bit api c m) = insert (unat c) (members m)) \<and>
     (\<forall>m k rc k1. pthread_setaffinity api m k = (rc, k1) \<longrightarrow>
        (if rc = 0 then allowed k1 = members m \<inter> online \<and> allowed k1 \<noteq> {} else allowed k1 = allowed k)) \<and>
     (\<forall>k. 0 \<le> sint (sched_getcpu api k) \<longrightarrow> unat (sched_getcpu api k) \<in> allowed k)"

lemma documented_pin:
  assumes "documented api members allowed online" and "unat core_id < 1024"
    and "pin_linux api core_id k = (r, k1)"
  shows "if outcome r = Pinned then os_status r = 0 \<and> unat core_id \<in> online \<and> allowed k1 = {unat core_id}
    else outcome r = Unsupported \<and> os_status r \<noteq> 0 \<and> allowed k1 = allowed k"
proof -
  let ?m = "cpu_set_bit api core_id (cpu_zero api)"
  obtain rc k2 where call: "pthread_setaffinity api ?m k = (rc, k2)" by force
  have "members ?m = {unat core_id}" using assms(1,2) by (simp add: documented_def)
  moreover have "\<forall>m k rc k1. pthread_setaffinity api m k = (rc, k1) \<longrightarrow>
      (if rc = 0 then allowed k1 = members m \<inter> online \<and> allowed k1 \<noteq> {} else allowed k1 = allowed k)"
    using assms(1) unfolding documented_def by (elim conjE)
  note this [rule_format, OF call]
  ultimately show ?thesis using assms(3) by (auto simp: pin_linux_def call split: if_splits)
qed

text \<open>
  C32: the outcome is honest.  On Linux \<open>pin_current_thread_to_core\<close> makes one call of
  \<open>pthread_setaffinity_np\<close>, with the set that holds just \<open>core_id\<close>; it leaves what that call leaves,
  reports the status the call returned, and reports \<open>Pinned\<close> exactly when that status is 0 and
  \<open>Unsupported\<close> otherwise.  On macOS it makes one call of \<open>thread_policy_set\<close>, reports its status, and
  reports a hint exactly when the kernel took it; it never claims to know the core.  Elsewhere it
  reports \<open>Unsupported\<close> with status 0 and does nothing.  Where the Linux calls behave as documented,
  \<open>Pinned\<close> means that \<open>core_id\<close> is online, that the thread may run on it and nowhere else, and that
  \<open>current_core_id()\<close>, when it answers, answers \<open>core_id\<close>; any other outcome leaves the thread's CPUs
  as they were.
\<close>

theorem pin_reports_honestly:
  assumes "documented api members allowed online" and "unat core_id < 1024"
    and "pthread_setaffinity api (cpu_set_bit api core_id (cpu_zero api)) k = (rc, k1)"
    and "thread_policy_set mac core_id j = (kr, j1)"
  shows "pin_current_thread_to_core (Linux api) core_id k =
      (\<lparr>outcome = (if rc = 0 then Pinned else Unsupported), os_status = rc\<rparr>, k1) \<and>
    (if rc = 0 then unat core_id \<in> online \<and> allowed k1 = {unat core_id} else allowed k1 = allowed k) \<and>
    (rc = 0 \<longrightarrow> (\<forall>c. current_core_id (Linux api) k1 = Some c \<longrightarrow> c = core_id)) \<and>
    pin_current_thread_to_core (Apple mac) core_id j =
      (\<lparr>outcome = (if kr = 0 then BestEffortHint else Unsupported), os_status = kr\<rparr>, j1) \<and>
    current_core_id (Apple mac) j1 = None \<and>
    pin_current_thread_to_core OtherPlatform core_id i = (\<lparr>outcome = Unsupported, os_status = 0\<rparr>, i) \<and>
    current_core_id OtherPlatform i = None"
proof -
  have p: "pin_linux api core_id k = (\<lparr>outcome = (if rc = 0 then Pinned else Unsupported), os_status = rc\<rparr>, k1)"
    using assms(3) by (simp add: pin_linux_def)
  have d: "if rc = 0 then unat core_id \<in> online \<and> allowed k1 = {unat core_id} else allowed k1 = allowed k"
    using documented_pin [OF assms(1,2) p] by (simp split: if_splits)
  have "c = core_id" if "rc = 0" "core_linux api k1 = Some c" for c
  proof -
    have "c = sched_getcpu api k1" "0 \<le> sint c" using that(2) by (auto simp: core_linux_def Let_def split: if_splits)
    then have "unat c \<in> allowed k1" using assms(1) by (simp add: documented_def)
    with d that(1) show ?thesis by (simp add: word_unat_eq_iff)
  qed
  with p d show ?thesis using assms(4) by (simp add: pin_apple_def)
qed

text \<open>A machine with four CPUs that behaves as documented; 22 is \<open>EINVAL\<close>.\<close>

definition four_cores :: "(nat list, nat list) linux_api" where
  "four_cores = \<lparr>cpu_zero = [], cpu_set_bit = (\<lambda>c m. unat c # m),
     pthread_setaffinity = (\<lambda>m k. case filter (\<lambda>c. c < 4) m of [] \<Rightarrow> (22, k) | c # cs \<Rightarrow> (0, c # cs)),
     sched_getcpu = (\<lambda>k. case k of [] \<Rightarrow> - 1 | c # cs \<Rightarrow> if c < 4 then of_nat c else - 1)\<rparr>"

lemma four_cores_documented: "documented four_cores set set {0..<4}"
proof -
  have "set xs = set m \<inter> {0..<4}" if "filter (\<lambda>c. c < 4) m = xs" for m xs :: "nat list"
    using that by auto
  then have "if rc = 0 then set k1 = set m \<inter> {0..<4} \<and> set k1 \<noteq> {} else set k1 = set k"
    if "pthread_setaffinity four_cores m k = (rc, k1)" for m k rc k1
    using that by (fastforce simp: four_cores_def split: list.splits)
  moreover have "unat (of_nat c :: 32 word) = c" if "c < 4" for c
    using that by (simp add: unat_of_nat take_bit_nat_eq_self)
  then have "unat (sched_getcpu four_cores k) \<in> set k" if "0 \<le> sint (sched_getcpu four_cores k)" for k
    using that by (auto simp: four_cores_def split: list.splits if_splits)
  moreover have "set (cpu_zero four_cores) = {}" "set (cpu_set_bit four_cores c m) = insert (unat c) (set m)"
    for c m by (simp_all add: four_cores_def)
  ultimately show ?thesis unfolding documented_def by blast
qed

definition refusing_mac :: "unit apple_api" where
  "refusing_mac = \<lparr>thread_policy_set = (\<lambda>tag j. (46, j))\<rparr>"

theorem pin_reports_honestly_witness:
  "\<exists>k1. pin_current_thread_to_core (Linux four_cores) 2 [0, 1, 2, 3] = (\<lparr>outcome = Pinned, os_status = 0\<rparr>, k1) \<and>
     set k1 = {2} \<and> (\<forall>c. current_core_id (Linux four_cores) k1 = Some c \<longrightarrow> c = 2) \<and>
     pin_current_thread_to_core (Apple refusing_mac) 2 () = (\<lparr>outcome = Unsupported, os_status = 46\<rparr>, ())"
proof -
  have "pthread_setaffinity four_cores (cpu_set_bit four_cores 2 (cpu_zero four_cores)) [0, 1, 2, 3] = (0, [2])"
    by (simp add: four_cores_def)
  moreover have "thread_policy_set refusing_mac 2 () = (46, ())" by (simp add: refusing_mac_def)
  ultimately show ?thesis
    using pin_reports_honestly [OF four_cores_documented, of 2 "[0, 1, 2, 3]" 0 "[2]" refusing_mac "()" 46 "()"]
    by simp
qed

text \<open>A CPU the machine does not have: the call fails and the thread keeps its CPUs.\<close>

lemma pin_missing_core:
  "pin_current_thread_to_core (Linux four_cores) 7 [0, 1, 2, 3] =
     (\<lparr>outcome = Unsupported, os_status = 22\<rparr>, [0, 1, 2, 3])"
  by (simp add: pin_linux_def four_cores_def)

end
