(* ===== verification/Bench_Workloads.thy ===== *)
theory Bench_Workloads
  imports Latency_Harness Printed_Text Core_Affinity Order_Book Ring_Buffer Price_Scan
begin

section \<open>The benchmark driver (bench_main.cpp)\<close>

text \<open>
  The five workloads, the pinning report and the order in which \<open>main\<close> runs them.  What a workload
  captures by reference is a record, its closure; the benchmark's result is what it prints: the
  summary and the value on the line below it, from which \<open>bench_stdout\<close> makes the text.  An exception out of \<open>add_limit_order\<close> would end the
  program and is \<open>None\<close>, like an index out of a vector.  The clock is \<open>tick\<close> over its own state
  \<open>'c\<close>.  A \<open>for\<close> loop that runs a step a fixed number of times is \<open>warm_up\<close>.
\<close>

definition kWarmupIters :: nat where "kWarmupIters = 2000"
definition kMeasuredIters :: nat where "kMeasuredIters = 50000"

subsection \<open>The pinning report\<close>

fun pin_outcome_name :: "PinOutcome \<Rightarrow> string" where
  "pin_outcome_name Pinned = ''Pinned (kernel-enforced, Linux)''"
| "pin_outcome_name BestEffortHint =
     ''BestEffortHint (macOS thread_policy_set accepted, but Apple Silicon '' @
     ''does not honor it -- not real pinning)''"
| "pin_outcome_name Unsupported = ''Unsupported (OS call rejected the request outright -- no pinning)''"

definition report_pin_attempt :: "('m, 'k) platform \<Rightarrow> 'k \<Rightarrow> (string \<times> cint \<times> cint option) \<times> 'k" where
  "report_pin_attempt plat k =
     (case pin_current_thread_to_core plat 0 k of (result, k1) \<Rightarrow>
        ((pin_outcome_name (outcome result), os_status result, current_core_id plat k1), k1))"

subsection \<open>Workloads 1 and 2: add_limit_order\<close>

record insert_bench =
  ib_book :: order_book
  ib_next_id :: OrderId

definition kFixedPrice :: Price where "kFixedPrice = 100"

definition insert_workload :: "side \<Rightarrow> insert_bench \<Rightarrow> insert_bench option" where
  "insert_workload sd s = do {
     (r, b) \<leftarrow> add_limit_order (ib_next_id s) sd kFixedPrice 1 (ib_book s);
     case r of Inl e \<Rightarrow> None | Inr trades \<Rightarrow> Some \<lparr>ib_book = b, ib_next_id = ib_next_id s + 1\<rparr>
   }"

definition bench_resting_insert ::
  "int64 \<Rightarrow> ('c \<Rightarrow> int64 \<times> 'c) \<Rightarrow> 'c \<Rightarrow> ((LatencyStats \<times> size_t) \<times> 'c) option" where
  "bench_resting_insert nan tick c = do {
     b \<leftarrow> book_new;
     (stats, c1, s) \<leftarrow> measure_latency_ns nan (read_clock tick) (apart (insert_workload Buy))
       kWarmupIters kMeasuredIters (c, \<lparr>ib_book = b, ib_next_id = 1\<rparr>);
     Some ((stats, order_count (ib_book s)), c1)
   }"

definition bench_crossing_insert ::
  "int64 \<Rightarrow> ('c \<Rightarrow> int64 \<times> 'c) \<Rightarrow> 'c \<Rightarrow> ((LatencyStats \<times> size_t) \<times> 'c) option" where
  "bench_crossing_insert nan tick c = do {
     b \<leftarrow> book_new;
     let total_iters = kWarmupIters + kMeasuredIters;
     seeded \<leftarrow> warm_up (insert_workload Sell) total_iters \<lparr>ib_book = b, ib_next_id = 1\<rparr>;
     (stats, c1, s) \<leftarrow> measure_latency_ns nan (read_clock tick) (apart (insert_workload Buy))
       kWarmupIters kMeasuredIters (c, \<lparr>ib_book = ib_book seeded, ib_next_id = 1000000000\<rparr>);
     Some ((stats, order_count (ib_book s)), c1)
   }"

subsection \<open>Workload 3: cancel_order\<close>

record cancel_bench =
  cb_book :: order_book
  cb_ids :: "OrderId list"
  cb_next_index :: size_t

text \<open>The seeding loop, from \<open>i\<close> on, with \<open>n\<close> rounds to go.\<close>

fun seed_orders :: "nat \<Rightarrow> nat \<Rightarrow> order_book \<Rightarrow> OrderId list \<Rightarrow> (order_book \<times> OrderId list) option" where
  "seed_orders i 0 b ids = Some (b, ids)"
| "seed_orders i (Suc n) b ids = do {
     let order = of_nat i + 1;
     (r, b1) \<leftarrow> add_limit_order order Buy kFixedPrice 1 b;
     case r of Inl e \<Rightarrow> None | Inr trades \<Rightarrow> seed_orders (i + 1) n b1 (ids @ [order])
   }"

definition cancel_workload :: "cancel_bench \<Rightarrow> cancel_bench option" where
  "cancel_workload s = do {
     guard (unat (cb_next_index s) < length (cb_ids s));
     (cancelled, b) \<leftarrow> cancel_order (cb_ids s ! unat (cb_next_index s)) (cb_book s);
     Some (s\<lparr>cb_book := b, cb_next_index := cb_next_index s + 1\<rparr>)
   }"

definition bench_cancel ::
  "int64 \<Rightarrow> ('c \<Rightarrow> int64 \<times> 'c) \<Rightarrow> 'c \<Rightarrow> ((LatencyStats \<times> size_t) \<times> 'c) option" where
  "bench_cancel nan tick c = do {
     b \<leftarrow> book_new;
     let total_iters = kWarmupIters + kMeasuredIters;
     (b1, ids) \<leftarrow> seed_orders 0 total_iters b [];
     (stats, c1, s) \<leftarrow> measure_latency_ns nan (read_clock tick) (apart cancel_workload)
       kWarmupIters kMeasuredIters (c, \<lparr>cb_book = b1, cb_ids = ids, cb_next_index = 0\<rparr>);
     Some ((stats, order_count (cb_book s)), c1)
   }"

subsection \<open>Workload 4: a push and a pop\<close>

text \<open>Moving out of a \<open>std::uint64_t\<close> leaves it as it was: \<open>moved\<close> is the identity.\<close>

record ring_bench =
  rg_ring :: "uint64 ring"
  rg_next_value :: uint64
  rg_sink :: uint64

definition ring_workload :: "ring_bench \<Rightarrow> ring_bench option" where
  "ring_workload s = do {
     (pushed, r1) \<leftarrow> try_push 1024 (rg_next_value s) (rg_ring s);
     (popped, out, r2) \<leftarrow> try_pop_ref 1024 id 0 r1;
     Some \<lparr>rg_ring = r2, rg_next_value = rg_next_value s + 1, rg_sink = out\<rparr>
   }"

definition bench_ring_buffer_round_trip ::
  "int64 \<Rightarrow> ('c \<Rightarrow> int64 \<times> 'c) \<Rightarrow> 'c \<Rightarrow> ((LatencyStats \<times> uint64) \<times> 'c) option" where
  "bench_ring_buffer_round_trip nan tick c = do {
     (stats, c1, s) \<leftarrow> measure_latency_ns nan (read_clock tick) (apart ring_workload)
       kWarmupIters kMeasuredIters (c, \<lparr>rg_ring = ring_new 1024 0, rg_next_value = 0, rg_sink = 0\<rparr>);
     Some ((stats, rg_sink s), c1)
   }"

subsection \<open>Workload 5: the depth scan\<close>

fun bench_levels :: "nat \<Rightarrow> nat \<Rightarrow> ScanLevel list \<Rightarrow> ScanLevel list option" where
  "bench_levels i 0 levels = Some levels"
| "bench_levels i (Suc n) levels = do {
     price \<leftarrow> checked_add 100 (Int64 (of_nat i));
     bench_levels (i + 1) n (levels @ [\<lparr>scan_price = price, scan_quantity = 10\<rparr>])
   }"

definition scan_workload :: "target \<Rightarrow> ScanLevel list \<Rightarrow> Price \<Rightarrow> Quantity \<Rightarrow> Quantity option" where
  "scan_workload t levels limit_price sink = do {
     result \<leftarrow> scan_quantity_at_or_better t levels (length levels) limit_price Buy;
     Some (total_quantity result)
   }"

definition bench_price_scan ::
  "target \<Rightarrow> nat \<Rightarrow> int64 \<Rightarrow> ('c \<Rightarrow> int64 \<times> 'c) \<Rightarrow> 'c \<Rightarrow> ((LatencyStats \<times> Quantity) \<times> 'c) option" where
  "bench_price_scan t depth nan tick c = do {
     levels \<leftarrow> bench_levels 0 depth [];
     limit_price \<leftarrow> checked_add 100 (Int64 (of_nat (depth div 2)));
     (stats, c1, sink) \<leftarrow> measure_latency_ns nan (read_clock tick) (apart (scan_workload t levels limit_price))
       kWarmupIters kMeasuredIters (c, 0);
     Some ((stats, sink), c1)
   }"

subsection \<open>The driver\<close>

text \<open>What \<open>main\<close> prints: the pinning report, then the five kinds of rows in order.\<close>

record bench_output =
  pin_report :: "string \<times> cint \<times> cint option"
  resting_row :: "LatencyStats \<times> size_t"
  crossing_row :: "LatencyStats \<times> size_t"
  cancel_row :: "LatencyStats \<times> size_t"
  ring_row :: "LatencyStats \<times> uint64"
  scan16_row :: "LatencyStats \<times> Quantity"
  scan64_row :: "LatencyStats \<times> Quantity"

definition bench_main ::
  "('m, 'k) platform \<Rightarrow> target \<Rightarrow> int64 \<Rightarrow> ('c \<Rightarrow> int64 \<times> 'c) \<Rightarrow> 'k \<Rightarrow> 'c \<Rightarrow> bench_output option" where
  "bench_main plat t nan tick k c = do {
     let pin = fst (report_pin_attempt plat k);
     (resting, c1) \<leftarrow> bench_resting_insert nan tick c;
     (crossing, c2) \<leftarrow> bench_crossing_insert nan tick c1;
     (cancelling, c3) \<leftarrow> bench_cancel nan tick c2;
     (ring, c4) \<leftarrow> bench_ring_buffer_round_trip nan tick c3;
     (scan16, c5) \<leftarrow> bench_price_scan t 16 nan tick c4;
     (scan64, c6) \<leftarrow> bench_price_scan t 64 nan tick c5;
     Some \<lparr>pin_report = pin, resting_row = resting, crossing_row = crossing, cancel_row = cancelling,
       ring_row = ring, scan16_row = scan16, scan64_row = scan64\<rparr>
   }"

subsection \<open>The text it writes\<close>

text \<open>The lines of the pinning report; \<open>%d\<close> reads a C \<open>int\<close> as a signed number.\<close>

definition show_cint :: "cint \<Rightarrow> string" where
  "show_cint c = show_int (sint c)"

definition pin_text :: "string \<times> cint \<times> cint option \<Rightarrow> string" where
  "pin_text report = (case report of (name, status, core) \<Rightarrow>
     ''core pinning attempt (core 0): '' @ name @ '' [os_status='' @ show_cint status @ '']'' @ newline @
     (case core of
        Some i \<Rightarrow> ''current_core_id() reports: '' @ show_cint i @ newline
      | None \<Rightarrow> ''current_core_id(): not available on this platform (see core_affinity.hpp)'' @ newline) @
     newline)"

definition build_text :: "bool \<Rightarrow> string" where
  "build_text ndebug =
     (if ndebug then ''build: Release-like (NDEBUG defined)'' @ newline
      else ''build: assertions ENABLED (NDEBUG not defined) -- if this was meant to be an '' @
        ''optimized benchmark run, re-configure with -DCMAKE_BUILD_TYPE=Release and rebuild; '' @
        ''an assert-laden/Debug build's numbers are NOT representative of real latency.'' @ newline) @
     ''warmup_iters='' @ decimal kWarmupIters @ '' measured_iters='' @ decimal kMeasuredIters @
     '' per workload (see file header for why these were chosen '' @
     ''and their tail-percentile-resolution limits)'' @ newline @ newline"

text \<open>The name of each row and the line below it, without its end.\<close>

definition resting_name :: string where
  "resting_name = ''OrderBook::add_limit_order (resting, non-crossing)''"

definition resting_note :: "size_t \<Rightarrow> string" where
  "resting_note n = ''    -> final order_count='' @ show_unsigned n @
     '', slab growth_events reflected internally (not exposed here)''"

definition crossing_name :: string where
  "crossing_name = ''OrderBook::add_limit_order (crossing, consumes 1 resting order)''"

definition crossing_note :: "size_t \<Rightarrow> string" where
  "crossing_note n = ''    -> final order_count='' @ show_unsigned n @
     '' (expected 0: every seeded ask should be consumed)''"

definition cancel_name :: string where
  "cancel_name = ''OrderBook::cancel_order''"

definition cancel_note :: "size_t \<Rightarrow> string" where
  "cancel_note n = ''    -> final order_count='' @ show_unsigned n @
     '' (expected 0: every seeded order should be cancelled)''"

definition ring_name :: string where
  "ring_name = ''SpscRingBuffer push+pop round trip (single-threaded)''"

definition ring_note :: "uint64 \<Rightarrow> string" where
  "ring_note v = ''    -> last popped value observed: '' @ show_unsigned v"

definition scan_name :: "nat \<Rightarrow> string" where
  "scan_name depth = ''scan_quantity_at_or_better (NEON dispatch, depth='' @ decimal depth @ '')''"

definition scan_note :: "Quantity \<Rightarrow> string" where
  "scan_note q = ''    -> last scan total_quantity observed: '' @ show_signed q"

definition table :: "bench_output \<Rightarrow> (string \<times> LatencyStats \<times> string) list" where
  "table out =
     [(resting_name, fst (resting_row out), resting_note (snd (resting_row out))),
      (crossing_name, fst (crossing_row out), crossing_note (snd (crossing_row out))),
      (cancel_name, fst (cancel_row out), cancel_note (snd (cancel_row out))),
      (ring_name, fst (ring_row out), ring_note (snd (ring_row out))),
      (scan_name 16, fst (scan16_row out), scan_note (snd (scan16_row out))),
      (scan_name 64, fst (scan64_row out), scan_note (snd (scan64_row out)))]"

definition bench_stdout :: "bool \<Rightarrow> bench_output \<Rightarrow> string" where
  "bench_stdout ndebug out = build_text ndebug @ pin_text (pin_report out) @
     concat (map (\<lambda>(name, stats, note). show_row name (of_nat kWarmupIters) stats @ note @ newline) (table out)) @
     newline @ ''These are a local developer sanity-check run, not the reviewed/authoritative numbers -- '' @
     ''see src/bench_main.cpp's file header and README.md's Results section.'' @ newline"

end
