(* ===== verification/Bench_Properties.thy ===== *)
theory Bench_Properties
  imports Bench_Workloads Book_Observers Scan_Properties
begin

section \<open>What the benchmark workloads do\<close>

text \<open>
  The order book workloads keep a book with one price level of unit orders; \<open>level_ids b sd ids\<close>
  says so, with the ids in the order they wait.  Adding on the same side appends an id, an
  incoming order of the other side takes the first one, a cancel of the first one removes it.
\<close>

subsection \<open>A book with one level of unit orders\<close>

definition units :: "RestingOrder list \<Rightarrow> bool" where
  "units q \<longleftrightarrow> (\<forall>r \<in> set q. order_price r = kFixedPrice \<and> order_quantity r = 1)"

definition single :: "RestingOrder list \<Rightarrow> depth" where
  "single q = (if q = [] then [] else [(kFixedPrice, q)])"

definition one_level :: "side \<Rightarrow> RestingOrder list \<Rightarrow> Sequence \<Rightarrow> spec_book" where
  "one_level sd q sq = \<lparr>sp_bids = (if sd = Buy then single q else []),
     sp_asks = (if sd = Buy then [] else single q), sp_sequence = sq\<rparr>"

definition level_ids :: "order_book \<Rightarrow> side \<Rightarrow> OrderId list \<Rightarrow> bool" where
  "level_ids b sd ids \<longleftrightarrow> (\<exists>q sq. represents b (one_level sd q sq) \<and> units q \<and> map order_id q = ids)"

lemma spec_ids_one_level: "spec_ids (one_level sd q sq) = map order_id q"
  by (simp add: spec_ids_def spec_orders_def one_level_def single_def)

lemma one_less_int64: "\<not> (1::int64) \<le> 0" "(0::int64) < 1" "(1::int64) \<le> 1" "\<not> (1::int64) < 1"
  by (simp_all add: int64_order_defs)

lemma level_ids_new:
  assumes "book_new = Some b"
  shows "level_ids b sd []"
proof -
  have "represents b spec_new" using assms book_new_refines by (metis option.inject)
  then show ?thesis
    unfolding level_ids_def by (intro exI [of _ "[]"] exI [of _ 0])
      (simp add: one_level_def single_def spec_new_def units_def)
qed

lemma level_ids_count: "level_ids b sd ids \<Longrightarrow> order_count b = of_nat (length ids)"
  unfolding level_ids_def
  by (auto simp: in_use_order_count(2) spec_orders_def one_level_def single_def)

lemma enqueue_single:
  assumes "order_price r = kFixedPrice" and "\<not> lt kFixedPrice kFixedPrice"
  shows "enqueue lt r (single q) = single (q @ [r])"
  using assms by (simp add: enqueue_def single_def)

lemma same_price: "\<not> bids_cmp kFixedPrice kFixedPrice" "\<not> asks_cmp kFixedPrice kFixedPrice"
  by (simp_all add: bids_cmp_def asks_cmp_def)

lemma add_same_side:
  assumes "level_ids b sd ids" and "i \<notin> set ids"
  shows "\<exists>b'. add_limit_order i sd kFixedPrice 1 b = Some (Inr [], b') \<and> level_ids b' sd (ids @ [i])"
proof -
  obtain q sq where q: "represents b (one_level sd q sq)" "units q" "map order_id q = ids"
    using assms(1) by (auto simp: level_ids_def)
  let ?r = "\<lparr>order_id = i, order_price = kFixedPrice, order_quantity = 1, order_sequence = sq\<rparr>"
  have "i \<notin> set (spec_ids (one_level sd q sq))" using assms(2) q(3) by (simp add: spec_ids_one_level)
  then have "spec_add i sd kFixedPrice 1 (one_level sd q sq) = (Inr [], one_level sd (q @ [?r]) (sq + 1))"
    by (cases sd) (simp_all add: spec_add_def spec_match_def spec_rest_def one_level_def one_less_int64
        enqueue_single same_price Let_def)
  with add_refines [OF q(1), of i sd kFixedPrice 1] obtain b' where
    "add_limit_order i sd kFixedPrice 1 b = Some (Inr [], b')" "represents b' (one_level sd (q @ [?r]) (sq + 1))"
    by auto
  moreover have "units (q @ [?r])" "map order_id (q @ [?r]) = ids @ [i]" using q(2,3) by (auto simp: units_def)
  ultimately show ?thesis unfolding level_ids_def by blast
qed

lemma cross_first:
  assumes "level_ids b Sell (j # ids)" and "i \<notin> set (j # ids)"
  shows "\<exists>b' t. add_limit_order i Buy kFixedPrice 1 b = Some (Inr [t], b') \<and> level_ids b' Sell ids"
proof -
  obtain r q sq where q: "represents b (one_level Sell (r # q) sq)" "units (r # q)" "order_id r = j" "map order_id q = ids"
    using assms(1) by (auto simp: level_ids_def)
  have r: "order_quantity r = 1" using q(2) by (simp add: units_def)
  have "fill_queue i Buy kFixedPrice 1 sq (r # q) = ([trade_with i Buy kFixedPrice 1 sq r], 0, sq + 1, q)"
    by (simp add: r one_less_int64 Let_def fill_queue_stop)
  moreover have "fill_depth stop i Buy 0 s [] = ([], 0, s, [])" for stop s by simp
  moreover have "\<not> kFixedPrice > kFixedPrice" by simp
  ultimately have match: "spec_match i Buy kFixedPrice 1 (one_level Sell (r # q) sq) =
      ([trade_with i Buy kFixedPrice 1 sq r], 0, one_level Sell q (sq + 1))"
    by (simp add: spec_match_def one_level_def single_def one_less_int64 del: fill_queue.simps)
  have "i \<notin> set (spec_ids (one_level Sell (r # q) sq))" using assms(2) q(3,4) by (simp add: spec_ids_one_level)
  then have "spec_add i Buy kFixedPrice 1 (one_level Sell (r # q) sq) =
      (Inr [trade_with i Buy kFixedPrice 1 sq r], one_level Sell q (sq + 1))"
    by (simp add: spec_add_def match one_less_int64)
  with add_refines [OF q(1), of i Buy kFixedPrice 1] obtain b' where
    "add_limit_order i Buy kFixedPrice 1 b = Some (Inr [trade_with i Buy kFixedPrice 1 sq r], b')"
    "represents b' (one_level Sell q (sq + 1))" by auto
  moreover have "units q" using q(2) by (simp add: units_def)
  ultimately show ?thesis using q(4) unfolding level_ids_def by blast
qed

lemma cancel_first:
  assumes "level_ids b sd (j # ids)"
  shows "\<exists>b'. cancel_order j b = Some (True, b') \<and> level_ids b' sd ids"
proof -
  obtain r q sq where q: "represents b (one_level sd (r # q) sq)" "units (r # q)" "order_id r = j" "map order_id q = ids"
    using assms(1) by (auto simp: level_ids_def)
  have "distinct (spec_ids (one_level sd (r # q) sq))" using q(1) by (simp add: represents_def spec_inv_def)
  then have "order_id r \<notin> order_id ` set q" by (simp add: spec_ids_one_level)
  then have "\<forall>x \<in> set q. order_id x \<noteq> j" unfolding q(3) [symmetric] by (metis imageI)
  then have "filter (\<lambda>x. order_id x \<noteq> j) (r # q) = q" using q(3) by simp
  then have "drop_order j (single (r # q)) = single q" "drop_order j [] = []"
    by (simp_all add: drop_order_def single_def)
  then have "spec_cancel j (one_level sd (r # q) sq) = (True, one_level sd q sq)"
    using q(3) by (cases sd) (simp_all add: spec_cancel_def spec_ids_one_level, simp_all add: one_level_def)
  with cancel_refines [OF q(1), of j] obtain b' where
    "cancel_order j b = Some (True, b')" "represents b' (one_level sd q sq)" by auto
  moreover have "units q" using q(2) by (simp add: units_def)
  ultimately show ?thesis using q(4) unfolding level_ids_def by blast
qed

subsection \<open>The loops\<close>

definition ids_upto :: "nat \<Rightarrow> OrderId list" where
  "ids_upto n = map of_nat [1..<Suc n]"

lemma ids_upto_simps:
  "ids_upto 0 = []" "ids_upto (Suc n) = ids_upto n @ [of_nat (Suc n)]" "length (ids_upto n) = n"
  by (simp_all add: ids_upto_def)

lemma new_id: "n < i \<Longrightarrow> i < 2 ^ 64 \<Longrightarrow> of_nat i \<notin> set (ids_upto n)"
  by (auto simp: ids_upto_def of_nat_word_eq_iff)

lemma insert_loop:
  assumes "level_ids b sd (ids_upto i)" and "i + n < 2 ^ 64"
  shows "\<exists>b'. warm_up (insert_workload sd) n \<lparr>ib_book = b, ib_next_id = of_nat (Suc i)\<rparr> =
      Some \<lparr>ib_book = b', ib_next_id = of_nat (Suc (i + n))\<rparr> \<and> level_ids b' sd (ids_upto (i + n))"
  using assms
proof (induction n arbitrary: b i)
  case (Suc n)
  have "of_nat (Suc i) \<notin> set (ids_upto i)" using Suc.prems(2) by (intro new_id) simp_all
  from add_same_side [OF Suc.prems(1) this] obtain b1 where
    b1: "add_limit_order (of_nat (Suc i)) sd kFixedPrice 1 b = Some (Inr [], b1)" "level_ids b1 sd (ids_upto (Suc i))"
    by (auto simp: ids_upto_simps)
  have "of_nat (Suc i) + 1 = (of_nat (Suc (Suc i)) :: OrderId)" by simp
  with b1(1) have "insert_workload sd \<lparr>ib_book = b, ib_next_id = of_nat (Suc i)\<rparr> =
      Some \<lparr>ib_book = b1, ib_next_id = of_nat (Suc (Suc i))\<rparr>"
    by (simp add: insert_workload_def del: of_nat_Suc)
  with Suc.IH [OF b1(2)] Suc.prems(2) show ?case by (simp del: of_nat_Suc)
qed auto

lemma cross_loop:
  assumes "level_ids b Sell (js @ ks)" and "\<forall>k. i \<le> k \<and> k < i + length js \<longrightarrow> of_nat k \<notin> set (js @ ks)"
  shows "\<exists>b'. warm_up (insert_workload Buy) (length js) \<lparr>ib_book = b, ib_next_id = of_nat i\<rparr> =
      Some \<lparr>ib_book = b', ib_next_id = of_nat (i + length js)\<rparr> \<and> level_ids b' Sell ks"
  using assms
proof (induction js arbitrary: b i)
  case (Cons j js)
  have first: "level_ids b Sell (j # js @ ks)" "of_nat i \<notin> set (j # js @ ks)" using Cons.prems by simp_all
  from cross_first [OF first] obtain b1 t where
    b1: "add_limit_order (of_nat i) Buy kFixedPrice 1 b = Some (Inr [t], b1)" "level_ids b1 Sell (js @ ks)"
    by blast
  have "of_nat i + 1 = (of_nat (Suc i) :: OrderId)" by simp
  with b1(1) have "insert_workload Buy \<lparr>ib_book = b, ib_next_id = of_nat i\<rparr> =
      Some \<lparr>ib_book = b1, ib_next_id = of_nat (Suc i)\<rparr>"
    by (simp add: insert_workload_def del: of_nat_Suc)
  with Cons.IH [OF b1(2), of "Suc i"] Cons.prems(2) show ?case by (simp del: of_nat_Suc)
qed auto

lemma seed_loop:
  assumes "level_ids b Buy (ids_upto i)" and "i + n < 2 ^ 64"
  shows "\<exists>b'. seed_orders i n b (ids_upto i) = Some (b', ids_upto (i + n)) \<and> level_ids b' Buy (ids_upto (i + n))"
  using assms
proof (induction n arbitrary: b i)
  case (Suc n)
  have "of_nat (Suc i) \<notin> set (ids_upto i)" using Suc.prems(2) by (intro new_id) simp_all
  from add_same_side [OF Suc.prems(1) this] obtain b1 where
    b1: "add_limit_order (of_nat (Suc i)) Buy kFixedPrice 1 b = Some (Inr [], b1)" "level_ids b1 Buy (ids_upto (Suc i))"
    by (auto simp: ids_upto_simps)
  have "of_nat i + 1 = (of_nat (Suc i) :: OrderId)" by simp
  with b1(1) Suc.IH [OF b1(2)] Suc.prems(2) show ?case by (simp add: ids_upto_simps del: of_nat_Suc)
qed auto

lemma cancel_loop:
  assumes "level_ids (cb_book s) Buy (drop i (cb_ids s))" and "cb_next_index s = of_nat i"
    and "i + n \<le> length (cb_ids s)" and "length (cb_ids s) < 2 ^ 64"
  shows "\<exists>s'. warm_up cancel_workload n s = Some s' \<and> level_ids (cb_book s') Buy (drop (i + n) (cb_ids s))"
  using assms
proof (induction n arbitrary: s i)
  case (Suc n)
  have i: "unat (of_nat i :: 64 word) = i" "i < length (cb_ids s)" using Suc.prems(3,4) by (simp_all add: unat_of_nat64)
  then have "drop i (cb_ids s) = cb_ids s ! i # drop (Suc i) (cb_ids s)" by (simp add: Cons_nth_drop_Suc)
  with Suc.prems(1) cancel_first [of "cb_book s" Buy "cb_ids s ! i"] obtain b1 where
    b1: "cancel_order (cb_ids s ! i) (cb_book s) = Some (True, b1)" "level_ids b1 Buy (drop (Suc i) (cb_ids s))"
    by auto
  let ?s = "s\<lparr>cb_book := b1, cb_next_index := of_nat (Suc i)\<rparr>"
  have "of_nat i + 1 = (of_nat (Suc i) :: size_t)" by simp
  with b1(1) i Suc.prems(2) have "cancel_workload s = Some ?s" by (simp add: cancel_workload_def del: of_nat_Suc)
  with Suc.IH [of ?s "Suc i"] b1(2) Suc.prems(3,4) show ?case by (simp del: of_nat_Suc)
qed auto

lemma capacity_1024: "capacity_ok 1024"
  by (simp add: capacity_ok_def)

lemma ring_round:
  assumes "ring_rep 1024 (rg_ring s) []"
  shows "\<exists>r. ring_workload s = Some \<lparr>rg_ring = r, rg_next_value = rg_next_value s + 1, rg_sink = rg_next_value s\<rparr> \<and>
    ring_rep 1024 r []"
proof -
  obtain r1 where r1: "try_push 1024 (rg_next_value s) (rg_ring s) = Some (True, r1)" "ring_rep 1024 r1 [rg_next_value s]"
    using ring_push [OF assms, of "rg_next_value s"] by auto
  obtain r2 where r2: "try_pop 1024 id 0 r1 = Some (Some (rg_next_value s), r2)" "ring_rep 1024 r2 []"
    using ring_pop [OF r1(2), of id 0] by auto
  from r2(1) have "try_pop_ref 1024 id 0 r1 = Some (True, rg_next_value s, r2)"
    by (auto simp: try_pop_def bind_Some_iff split: if_splits)
  with r1(1) r2(2) show ?thesis by (simp add: ring_workload_def)
qed

lemma ring_loop:
  assumes "ring_rep 1024 (rg_ring s) []"
  shows "\<exists>s'. warm_up ring_workload (Suc n) s = Some s' \<and> rg_sink s' = rg_next_value s + of_nat n"
  using assms
proof (induction n arbitrary: s)
  case 0
  with ring_round [OF 0] show ?case by auto
next
  case (Suc n)
  from ring_round [OF Suc.prems] obtain r where
    r: "ring_workload s = Some \<lparr>rg_ring = r, rg_next_value = rg_next_value s + 1, rg_sink = rg_next_value s\<rparr>"
    "ring_rep 1024 r []" by blast
  from Suc.IH [of "\<lparr>rg_ring = r, rg_next_value = rg_next_value s + 1, rg_sink = rg_next_value s\<rparr>"] r
  show ?case by (auto simp: add.assoc)
qed

lemma scan_loop_constant:
  assumes "scan_quantity_at_or_better t levels (length levels) limit_price Buy = Some res"
  shows "warm_up (scan_workload t levels limit_price) (Suc n) sink = Some (total_quantity res)"
  by (induction n arbitrary: sink) (simp_all add: scan_workload_def assms)

subsection \<open>The benchmarks\<close>

lemma iterations: "kMeasuredIters < 2 ^ 64" "kWarmupIters + kMeasuredIters = 52000" "kWarmupIters + kMeasuredIters < 2 ^ 64"
  by (simp_all add: kWarmupIters_def kMeasuredIters_def)

lemmas measured = measure_apart [OF _ _ iterations(1)]

lemma resting_bench:
  assumes "\<forall>c. 0 \<le> fst (tick c)"
  shows "\<exists>st c'. bench_resting_insert nan tick c = Some ((st, 52000), c')"
proof -
  obtain b where b: "book_new = Some b" "level_ids b Buy (ids_upto 0)"
    using book_new_refines level_ids_new by (metis ids_upto_simps(1))
  from insert_loop [OF b(2), of "kWarmupIters + kMeasuredIters"] iterations(3) obtain b' s' where
    s': "warm_up (insert_workload Buy) (kWarmupIters + kMeasuredIters) \<lparr>ib_book = b, ib_next_id = 1\<rparr> = Some s'"
    "level_ids (ib_book s') Buy (ids_upto (kWarmupIters + kMeasuredIters))" by auto
  have "order_count (ib_book s') = 52000"
    using level_ids_count [OF s'(2)] by (simp add: ids_upto_simps iterations(2))
  with measured [OF assms s'(1), of nan c] show ?thesis by (auto simp: bench_resting_insert_def b(1))
qed

lemma crossing_bench:
  assumes "\<forall>c. 0 \<le> fst (tick c)"
  shows "\<exists>st c'. bench_crossing_insert nan tick c = Some ((st, 0), c')"
proof -
  let ?n = "kWarmupIters + kMeasuredIters"
  obtain b where b: "book_new = Some b" "level_ids b Sell (ids_upto 0)"
    using book_new_refines level_ids_new by (metis ids_upto_simps(1))
  from insert_loop [OF b(2), of ?n] iterations(3) obtain s1 where
    s1: "warm_up (insert_workload Sell) ?n \<lparr>ib_book = b, ib_next_id = 1\<rparr> = Some s1"
    "level_ids (ib_book s1) Sell (ids_upto ?n @ [])" by auto
  have "of_nat k \<notin> set (ids_upto ?n @ [])" if "1000000000 \<le> k" "k < 1000000000 + length (ids_upto ?n)" for k
    using that new_id [of ?n k] by (simp add: ids_upto_simps iterations(2))
  with cross_loop [OF s1(2), of 1000000000] obtain s2 where
    s2: "warm_up (insert_workload Buy) ?n \<lparr>ib_book = ib_book s1, ib_next_id = 1000000000\<rparr> = Some s2"
    "level_ids (ib_book s2) Sell []" by (auto simp: ids_upto_simps(3))
  have "order_count (ib_book s2) = 0" using level_ids_count [OF s2(2)] by simp
  with measured [OF assms s2(1), of nan c] show ?thesis by (auto simp: bench_crossing_insert_def b(1) s1(1) Let_def)
qed

lemma cancel_bench:
  assumes "\<forall>c. 0 \<le> fst (tick c)"
  shows "\<exists>st c'. bench_cancel nan tick c = Some ((st, 0), c')"
proof -
  let ?n = "kWarmupIters + kMeasuredIters"
  obtain b where b: "book_new = Some b" "level_ids b Buy (ids_upto 0)"
    using book_new_refines level_ids_new by (metis ids_upto_simps(1))
  from seed_loop [OF b(2), of ?n] iterations(3) obtain b1 where
    b1: "seed_orders 0 ?n b [] = Some (b1, ids_upto ?n)" "level_ids b1 Buy (ids_upto ?n)"
    by (auto simp: ids_upto_simps(1))
  obtain s2 where s2: "warm_up cancel_workload ?n \<lparr>cb_book = b1, cb_ids = ids_upto ?n, cb_next_index = 0\<rparr> = Some s2"
    "level_ids (cb_book s2) Buy []"
    using cancel_loop [of "\<lparr>cb_book = b1, cb_ids = ids_upto ?n, cb_next_index = 0\<rparr>" 0 ?n] b1(2) iterations(3)
    by (auto simp: ids_upto_simps(3))
  have "order_count (cb_book s2) = 0" using level_ids_count [OF s2(2)] by simp
  with measured [OF assms s2(1), of nan c] show ?thesis by (auto simp: bench_cancel_def b(1) b1(1) Let_def)
qed

lemma ring_bench:
  assumes "\<forall>c. 0 \<le> fst (tick c)"
  shows "\<exists>st c'. bench_ring_buffer_round_trip nan tick c = Some ((st, 51999), c')"
proof -
  let ?s = "\<lparr>rg_ring = ring_new 1024 0, rg_next_value = 0, rg_sink = 0\<rparr>"
  have "kWarmupIters + kMeasuredIters = Suc 51999" by (simp add: iterations(2))
  moreover have "ring_rep 1024 (rg_ring ?s) []" using ring_new_rep [OF capacity_1024] by simp
  ultimately obtain s' where
    s': "warm_up ring_workload (kWarmupIters + kMeasuredIters) ?s = Some s'" "rg_sink s' = 51999"
    using ring_loop [of ?s 51999] by auto
  with measured [OF assms s'(1), of nan c] show ?thesis by (auto simp: bench_ring_buffer_round_trip_def)
qed

lemma scan_bench:
  assumes "\<forall>c. 0 \<le> fst (tick c)" and "bench_levels 0 depth [] = Some levels"
    and "checked_add 100 (Int64 (of_nat (depth div 2))) = Some limit_price"
    and "levels_ok Buy limit_price levels (length levels)"
  shows "\<exists>st c' total. bench_price_scan t depth nan tick c = Some ((st, total), c') \<and>
    val total = hit_total Buy limit_price levels (length levels)"
proof -
  obtain res where res: "scan_quantity_at_or_better t levels (length levels) limit_price Buy = Some res"
    using dispatch_defined [OF assms(4)] by blast
  then have "res = scan_bits Buy limit_price levels (length levels)" by (rule dispatch_bits [OF order.refl])
  then have total: "val (total_quantity res) = hit_total Buy limit_price levels (length levels)"
    using scan_bits_exact(1) [OF assms(4)] by simp
  have "kWarmupIters + kMeasuredIters = Suc 51999" by (simp add: iterations(2))
  with scan_loop_constant [OF res, of 51999] have
    "warm_up (scan_workload t levels limit_price) (kWarmupIters + kMeasuredIters) 0 = Some (total_quantity res)"
    by simp
  from measured [OF assms(1) this, of nan c] total show ?thesis
    by (auto simp: bench_price_scan_def assms(2,3))
qed

text \<open>The two depths the driver uses: the levels it builds, and the total below the limit.\<close>

definition bench_fixture :: "nat \<Rightarrow> Price \<Rightarrow> int \<Rightarrow> bool" where
  "bench_fixture depth limit_price amount \<longleftrightarrow>
     checked_add 100 (Int64 (of_nat (depth div 2))) = Some limit_price \<and>
     (case bench_levels 0 depth [] of None \<Rightarrow> False | Some levels \<Rightarrow>
        length levels = depth \<and> list_all (\<lambda>l. 0 \<le> scan_quantity l) levels \<and>
        hit_total Buy limit_price levels depth = amount)"

lemma fixtures: "bench_fixture 16 108 90" "bench_fixture 64 132 330"
  by code_simp+

lemma fixture_bench:
  assumes "\<forall>c. 0 \<le> fst (tick c)" and "bench_fixture depth limit_price (val amount)" and "depth < 2 ^ 63"
  shows "\<exists>st c'. bench_price_scan t depth nan tick c = Some ((st, amount), c')"
proof -
  obtain levels where l: "checked_add 100 (Int64 (of_nat (depth div 2))) = Some limit_price"
    "bench_levels 0 depth [] = Some levels" "length levels = depth"
    "list_all (\<lambda>l. 0 \<le> scan_quantity l) levels" "hit_total Buy limit_price levels depth = val amount"
    using assms(2) by (auto simp: bench_fixture_def split: option.splits)
  then have "levels_ok Buy limit_price levels (length levels)"
    using assms(3) val_range(2) [of amount] by (intro levels_ok_nonneg) (simp_all add: list_all_length)
  from scan_bench [OF assms(1) l(2,1) this, of t nan c] show ?thesis
    unfolding l(3,5) val_inject by blast
qed

subsection \<open>The whole driver\<close>

text \<open>Four of the five names are longer than the column \<open>print_latency_row\<close> lays out for them.\<close>

lemma names_overflow_their_column:
  "map (length \<circ> fst) (table out) = [50, 63, 23, 52, 52, 52]"
proof -
  have "decimal 16 = ''16''" "decimal 64 = ''64''" by (simp_all add: decimal.simps digit_values)
  then show ?thesis
    by (simp add: table_def resting_name_def crossing_name_def cancel_name_def ring_name_def scan_name_def)
qed

text \<open>They are names that can be read back from the rows, see \<open>row_determines_stats\<close>.\<close>

lemma names_plain: "list_all (\<lambda>row. plain (fst row)) (table out)"
proof -
  have "decimal 16 = ''16''" "decimal 64 = ''64''" by (simp_all add: decimal.simps digit_values)
  then show ?thesis
    by (simp add: table_def resting_name_def crossing_name_def cancel_name_def ring_name_def scan_name_def plain_def)
qed

lemma bench_notes:
  "resting_note 52000 = ''    -> final order_count=52000, slab growth_events reflected internally (not exposed here)''"
  "crossing_note 0 = ''    -> final order_count=0 (expected 0: every seeded ask should be consumed)''"
  "cancel_note 0 = ''    -> final order_count=0 (expected 0: every seeded order should be cancelled)''"
  "ring_note 51999 = ''    -> last popped value observed: 51999''"
  "scan_note 90 = ''    -> last scan total_quantity observed: 90''"
  "scan_note 330 = ''    -> last scan total_quantity observed: 330''"
proof -
  have "show_unsigned 52000 = ''52000''" "show_unsigned 0 = ''0''" "show_unsigned 51999 = ''51999''"
    "show_signed 90 = ''90''" "show_signed 330 = ''330''"
    by (simp_all add: show_unsigned_def show_signed_def show_int_def val_numeral decimal.simps digit_values)
  then show "resting_note 52000 = ''    -> final order_count=52000, slab growth_events reflected internally (not exposed here)''"
    "crossing_note 0 = ''    -> final order_count=0 (expected 0: every seeded ask should be consumed)''"
    "cancel_note 0 = ''    -> final order_count=0 (expected 0: every seeded order should be cancelled)''"
    "ring_note 51999 = ''    -> last popped value observed: 51999''"
    "scan_note 90 = ''    -> last scan total_quantity observed: 90''"
    "scan_note 330 = ''    -> last scan total_quantity observed: 330''"
    by (simp_all add: resting_note_def crossing_note_def cancel_note_def ring_note_def scan_note_def)
qed

text \<open>
  C26: the benchmark program ends, and the lines below its rows are the ones its comments promise.
  On every platform and target, with any clock whose readings are not negative, no workload runs
  into undefined behaviour or an uncaught exception; the resting workload leaves one order per
  iteration, the crossing and the cancelling ones an empty book, the ring returns the last value
  pushed, and the scans sum the levels up to the middle of the depth.
\<close>

theorem bench_main_ends:
  assumes "\<forall>c. 0 \<le> fst (tick c)"
  shows "\<exists>out. bench_main plat t nan tick k c = Some out \<and> snd (resting_row out) = 52000 \<and>
    snd (crossing_row out) = 0 \<and> snd (cancel_row out) = 0 \<and> snd (ring_row out) = 51999 \<and>
    snd (scan16_row out) = 90 \<and> snd (scan64_row out) = 330 \<and>
    map (snd \<circ> snd) (table out) =
     [''    -> final order_count=52000, slab growth_events reflected internally (not exposed here)'',
      ''    -> final order_count=0 (expected 0: every seeded ask should be consumed)'',
      ''    -> final order_count=0 (expected 0: every seeded order should be cancelled)'',
      ''    -> last popped value observed: 51999'',
      ''    -> last scan total_quantity observed: 90'',
      ''    -> last scan total_quantity observed: 330'']"
proof -
  obtain st1 c1 where 1: "bench_resting_insert nan tick c = Some ((st1, 52000), c1)"
    using resting_bench [OF assms] by blast
  obtain st2 c2 where 2: "bench_crossing_insert nan tick c1 = Some ((st2, 0), c2)"
    using crossing_bench [OF assms] by blast
  obtain st3 c3 where 3: "bench_cancel nan tick c2 = Some ((st3, 0), c3)"
    using cancel_bench [OF assms] by blast
  obtain st4 c4 where 4: "bench_ring_buffer_round_trip nan tick c3 = Some ((st4, 51999), c4)"
    using ring_bench [OF assms] by blast
  have fits: "bench_fixture 16 108 (val 90)" "bench_fixture 64 132 (val 330)"
    using fixtures by (simp_all add: val_numeral)
  obtain st5 c5 where 5: "bench_price_scan t 16 nan tick c4 = Some ((st5, 90), c5)"
    using fixture_bench [OF assms fits(1), of t nan c4] by auto
  obtain st6 c6 where 6: "bench_price_scan t 64 nan tick c5 = Some ((st6, 330), c6)"
    using fixture_bench [OF assms fits(2), of t nan c5] by auto
  show ?thesis by (simp add: bench_main_def 1 2 3 4 5 6 table_def bench_notes)
qed

theorem bench_main_ends_witness:
  "\<exists>out. bench_main (Linux four_cores) \<lparr>has_neon = False, has_avx2 = True\<rparr> 0 (\<lambda>c. (5, Suc c)) [0, 1, 2, 3] 0 = Some out \<and>
     snd (crossing_row out) = 0 \<and> snd (cancel_row out) = 0"
proof -
  have "\<forall>c :: nat. 0 \<le> fst ((5 :: int64), Suc c)" by (simp add: less_eq_int64_def val_numeral)
  from bench_main_ends [OF this, of "Linux four_cores" "\<lparr>has_neon = False, has_avx2 = True\<rparr>" 0 "[0, 1, 2, 3]" 0]
  show ?thesis by blast
qed

end
