(* ===== verification/Demo_Programs.thy ===== *)
theory Demo_Programs
  imports Printed_Text Price_Scan Book_Observers Scan_Properties
begin

section \<open>The demo and the AVX2 smoke check (main.cpp, avx2_smoke_check.cpp)\<close>

text \<open>
  The two small programs of the repository, as the text they write: the demo drives an order book
  through a fixed script, the smoke check compares the scans on fixed arrays.  An uncaught
  exception and a dereferenced empty optional are \<open>None\<close>.
\<close>

subsection \<open>The demo\<close>

fun side_name :: "side \<Rightarrow> string" where
  "side_name Buy = ''BUY''"
| "side_name Sell = ''SELL''"

definition trade_line :: "Trade \<Rightarrow> string" where
  "trade_line t = ''  TRADE aggressor='' @ show_unsigned (aggressor_order_id t) @
     '' ('' @ side_name (aggressor_side t) @ '') resting='' @ show_unsigned (resting_order_id t) @
     '' price='' @ show_signed (trade_price t) @ '' qty='' @ show_signed (trade_quantity t) @
     '' seq='' @ show_unsigned (trade_sequence t) @ newline"

definition print_trades :: "Trade list \<Rightarrow> string" where
  "print_trades trades = concat (map trade_line trades)"

text \<open>\<open>print_trades(book.add_limit_order(...))\<close>\<close>

definition add_and_print ::
  "OrderId \<Rightarrow> side \<Rightarrow> Price \<Rightarrow> Quantity \<Rightarrow> order_book \<Rightarrow> (string \<times> order_book) option" where
  "add_and_print i sd price quantity b = do {
     (r, b1) \<leftarrow> add_limit_order i sd price quantity b;
     case r of Inl e \<Rightarrow> None | Inr trades \<Rightarrow> Some (print_trades trades, b1)
   }"

definition truth :: "bool \<Rightarrow> string" where
  "truth x = (if x then ''true'' else ''false'')"

definition demo_main :: "string option" where
  "demo_main = do {
     book \<leftarrow> book_new;
     (l1, book) \<leftarrow> add_and_print 1 Buy 100 10 book;
     (l2, book) \<leftarrow> add_and_print 2 Sell 105 5 book;
     bid \<leftarrow> best_bid book;
     ask \<leftarrow> best_ask book;
     let l3 = ''best_bid='' @ show_signed bid @ '' best_ask='' @ show_signed ask @
       '' order_count='' @ show_unsigned (order_count book) @ newline;
     (l4, book) \<leftarrow> add_and_print 3 Buy 105 8 book;
     bid \<leftarrow> best_bid book;
     let l5 = ''best_bid='' @ show_signed bid @ '' best_ask='' @
       (if best_ask book \<noteq> None then ''set'' else ''none'') @
       '' order_count='' @ show_unsigned (order_count book) @ newline;
     (cancelled, book) \<leftarrow> cancel_order 1 book;
     let l6 = ''cancel(1) = '' @ truth cancelled @ newline;
     (cancelled, book) \<leftarrow> cancel_order 999 book;
     let l7 = ''cancel(999) = '' @ truth cancelled @ newline;
     let l8 = ''order_count='' @ show_unsigned (order_count book) @ newline;
     Some (''-- resting orders, no cross --'' @ newline @ l1 @ l2 @ l3 @
       ''-- crossing order, partial fill --'' @ newline @ l4 @ l5 @
       ''-- cancel --'' @ newline @ l6 @ l7 @ l8)
   }"

subsection \<open>The smoke check\<close>

text \<open>
  One \<open>check\<close> on an AVX2 target: the line it prints, and whether the scalar, the AVX2 and the
  dispatched scan agree.
\<close>

definition avx2_target :: target where
  "avx2_target = \<lparr>has_neon = False, has_avx2 = True\<rparr>"

definition show_result :: "ScanResult \<Rightarrow> string" where
  "show_result r = ''{'' @ show_signed (total_quantity r) @ '','' @ show_unsigned (hit_count r) @ ''}''"

definition check_scans :: "string \<Rightarrow> ScanLevel list \<Rightarrow> Price \<Rightarrow> side \<Rightarrow> (string \<times> bool) option" where
  "check_scans name levels limit_price sd = do {
     scalar \<leftarrow> scan_quantity_at_or_better_scalar levels (length levels) limit_price sd;
     avx2 \<leftarrow> scan_quantity_at_or_better_avx2 levels (length levels) limit_price sd;
     dispatch \<leftarrow> scan_quantity_at_or_better avx2_target levels (length levels) limit_price sd;
     let ok = (scalar = avx2 \<and> scalar = dispatch);
     Some (left_justified 28 name @ '' scalar='' @ show_result scalar @ '' avx2='' @ show_result avx2 @
       '' dispatch='' @ show_result dispatch @ '' '' @ (if ok then ''OK'' else ''MISMATCH'') @ newline, ok)
   }"

definition levels_from :: "(Price \<times> Quantity) list \<Rightarrow> ScanLevel list" where
  "levels_from pqs = map (\<lambda>(p, q). \<lparr>scan_price = p, scan_quantity = q\<rparr>) pqs"

definition depth16_asks :: "ScanLevel list" where
  "depth16_asks = levels_from (map (\<lambda>i. (100 + Int64 (of_nat i), 10 + Int64 (of_nat i))) [0..<16])"

definition smoke_cases :: "(string \<times> ScanLevel list \<times> Price \<times> side) list" where
  "smoke_cases =
    [(''empty'', [], 100, Buy),
     (''single_boundary_buy'', levels_from [(100, 5)], 100, Buy),
     (''single_boundary_sell'', levels_from [(100, 5)], 100, Sell),
     (''single_no_match_buy'', levels_from [(150, 5)], 100, Buy),
     (''single_no_match_sell'', levels_from [(50, 5)], 100, Sell),
     (''odd_length_buy'', levels_from [(90, 1), (95, 2), (200, 3)], 100, Buy),
     (''all_match_buy'', levels_from [(10, 1), (20, 2), (30, 3), (40, 4)], 1000, Buy),
     (''none_match_sell'', levels_from [(10, 1), (20, 2), (30, 3), (40, 4)], 1000, Sell),
     (''depth16_buy_limit_105'', depth16_asks, 105, Buy),
     (''depth16_buy_limit_below_all'', depth16_asks, 50, Buy),
     (''depth16_buy_limit_above_all'', depth16_asks, 999, Buy),
     (''negative_prices_buy'', levels_from [(- 50, 1), (- 10, 2), (0, 3), (10, 4)], - 10, Buy)]"

text \<open>The calls of \<open>check\<close> in order, with \<open>stdout\<close> and \<open>g_all_ok\<close>.\<close>

fun run_checks :: "(string \<times> ScanLevel list \<times> Price \<times> side) list \<Rightarrow> string \<Rightarrow> bool \<Rightarrow> (string \<times> bool) option" where
  "run_checks [] out all_ok = Some (out, all_ok)"
| "run_checks ((name, levels, limit_price, sd) # cases) out all_ok = do {
     (text, ok) \<leftarrow> check_scans name levels limit_price sd;
     run_checks cases (out @ text) (if ok then all_ok else False)
   }"

text \<open>\<open>stdout\<close>, \<open>stderr\<close> and the exit status.\<close>

definition smoke_main :: "(string \<times> string \<times> int) option" where
  "smoke_main = do {
     (out, all_ok) \<leftarrow> run_checks smoke_cases [] True;
     Some (if \<not> all_ok
       then (out, ''AVX2 SMOKE CHECK FAILED -- see MISMATCH lines above'' @ newline, 1)
       else (out @ ''ALL AVX2 VS SCALAR SMOKE CHECKS PASSED (ubuntu-latest, real x86_64 AVX2)'' @ newline, [], 0))
   }"

subsection \<open>Properties\<close>

text \<open>The demo through the specification: a call answers as specified and the book follows.\<close>

lemma add_and_print_refines:
  assumes "represents b A" and "spec_add i sd price quantity A = (Inr ts, A1)"
  shows "\<exists>b1. add_and_print i sd price quantity b = Some (print_trades ts, b1) \<and> represents b1 A1"
  using add_refines [OF assms(1), of i sd price quantity] assms(2) by (auto simp: add_and_print_def)

definition demo_1 :: spec_book where "demo_1 = snd (spec_add 1 Buy 100 10 spec_new)"
definition demo_2 :: spec_book where "demo_2 = snd (spec_add 2 Sell 105 5 demo_1)"
definition demo_3 :: spec_book where "demo_3 = snd (spec_add 3 Buy 105 8 demo_2)"

definition demo_trade :: Trade where
  "demo_trade = \<lparr>aggressor_order_id = 3, resting_order_id = 2, aggressor_side = Buy, trade_price = 105,
     trade_quantity = 5, trade_sequence = 2\<rparr>"

lemma demo_adds:
  "spec_add 1 Buy 100 10 spec_new = (Inr [], demo_1)"
  "spec_add 2 Sell 105 5 demo_1 = (Inr [], demo_2)"
  "spec_add 3 Buy 105 8 demo_2 = (Inr [demo_trade], demo_3)"
  by code_simp+

lemma demo_books:
  "map fst (sp_bids demo_2) = [100]" "map fst (sp_asks demo_2) = [105]" "length (spec_orders demo_2) = 2"
  "map fst (sp_bids demo_3) = [105, 100]" "map fst (sp_asks demo_3) = []" "length (spec_orders demo_3) = 2"
  "fst (spec_cancel 1 demo_3)" "\<not> fst (spec_cancel 999 (snd (spec_cancel 1 demo_3)))"
  "length (spec_orders (snd (spec_cancel 999 (snd (spec_cancel 1 demo_3))))) = 1"
  by code_simp+

lemma best_of_keys:
  assumes "represents b A"
  shows "map fst (sp_bids A) = p # ps \<Longrightarrow> best_bid b = Some p"
    and "map fst (sp_asks A) = p # ps \<Longrightarrow> best_ask b = Some p"
    and "map fst (sp_asks A) = [] \<Longrightarrow> best_ask b = None"
  using best_refines [OF assms] by (auto split: list.splits prod.splits)

text \<open>
  The demo prints what its comments say.  Order 3 fills order 2 for 5 at 105 with sequence
  number 2 and its remainder becomes the best bid, no ask is left; order 1 can be cancelled, 999
  cannot, and one order remains.
\<close>

theorem demo_output:
  "demo_main = Some (concat (map (\<lambda>line. line @ newline)
     [''-- resting orders, no cross --'',
      ''best_bid=100 best_ask=105 order_count=2'',
      ''-- crossing order, partial fill --'',
      ''  TRADE aggressor=3 (BUY) resting=2 price=105 qty=5 seq=2'',
      ''best_bid=105 best_ask=none order_count=2'',
      ''-- cancel --'',
      ''cancel(1) = true'',
      ''cancel(999) = false'',
      ''order_count=1'']))"
proof -
  obtain b0 where b0: "book_new = Some b0" "represents b0 spec_new" by (rule book_new_refines)
  obtain b1 where b1: "add_and_print 1 Buy 100 10 b0 = Some (print_trades [], b1)" "represents b1 demo_1"
    using add_and_print_refines [OF b0(2) demo_adds(1)] by blast
  obtain b2 where b2: "add_and_print 2 Sell 105 5 b1 = Some (print_trades [], b2)" "represents b2 demo_2"
    using add_and_print_refines [OF b1(2) demo_adds(2)] by blast
  obtain b3 where b3: "add_and_print 3 Buy 105 8 b2 = Some (print_trades [demo_trade], b3)" "represents b3 demo_3"
    using add_and_print_refines [OF b2(2) demo_adds(3)] by blast
  obtain b4 where b4: "cancel_order 1 b3 = Some (True, b4)" "represents b4 (snd (spec_cancel 1 demo_3))"
    using cancel_refines [OF b3(2), of 1] demo_books(7) by auto
  obtain b5 where b5: "cancel_order 999 b4 = Some (False, b5)"
    "represents b5 (snd (spec_cancel 999 (snd (spec_cancel 1 demo_3))))"
    using cancel_refines [OF b4(2), of 999] demo_books(8) by auto
  note best2 = best_of_keys(1) [OF b2(2) demo_books(1)] best_of_keys(2) [OF b2(2) demo_books(2)]
    and best3 = best_of_keys(1) [OF b3(2) demo_books(4)] best_of_keys(3) [OF b3(2) demo_books(5)]
  have counts: "order_count b2 = 2" "order_count b3 = 2" "order_count b5 = 1"
    using in_use_order_count(2) [OF b2(2)] in_use_order_count(2) [OF b3(2)] in_use_order_count(2) [OF b5(2)]
    by (simp_all add: demo_books)
  have shown: "show_signed 100 = ''100''" "show_signed 105 = ''105''" "show_signed 5 = ''5''"
    "show_unsigned 1 = ''1''" "show_unsigned 2 = ''2''" "show_unsigned 3 = ''3''"
    by code_simp+
  show ?thesis
    by (simp add: demo_main_def b0(1) b1(1) b2(1) b3(1) b4(1) b5(1) best2 best3 counts Let_def
        print_trades_def trade_line_def demo_trade_def truth_def shown)
qed

lemma check_passes:
  assumes "levels_ok sd limit_price levels (length levels)"
  shows "\<exists>text. check_scans name levels limit_price sd = Some (text, True)"
proof -
  let ?n = "length levels"
  have scan: "scan_quantity_at_or_better t levels ?n limit_price sd = Some (scan_bits sd limit_price levels ?n)" for t
    using dispatch_defined [OF assms, of t] dispatch_bits [OF order.refl] by blast
  have "scan_quantity_at_or_better_scalar levels ?n limit_price sd = Some (scan_bits sd limit_price levels ?n)"
    "scan_quantity_at_or_better_avx2 levels ?n limit_price sd = Some (scan_bits sd limit_price levels ?n)"
    using scan [of "\<lparr>has_neon = False, has_avx2 = False\<rparr>"] scan [of "\<lparr>has_neon = False, has_avx2 = True\<rparr>"]
    by (simp_all add: scan_quantity_at_or_better_def)
  then show ?thesis using scan [of avx2_target] by (simp add: check_scans_def)
qed

lemma run_checks_pass:
  assumes "list_all (\<lambda>(name, levels, limit_price, sd). levels_ok sd limit_price levels (length levels)) cases"
  shows "\<exists>text. run_checks cases out all_ok = Some (out @ text, all_ok)"
  using assms
proof (induction cases arbitrary: out)
  case (Cons c cases)
  obtain name levels limit_price sd where c: "c = (name, levels, limit_price, sd)" by (cases c) auto
  obtain line where "check_scans name levels limit_price sd = Some (line, True)"
    using check_passes Cons.prems c by fastforce
  with Cons.IH [of "out @ line"] Cons.prems c show ?case by auto
qed simp

lemma small_levels_ok:
  assumes "length levels \<le> 1000" and "list_all (\<lambda>l. 0 \<le> scan_quantity l \<and> scan_quantity l \<le> 1000) levels"
  shows "levels_ok sd limit_price levels (length levels)"
proof -
  have q: "0 \<le> scan_quantity (levels ! j)" "scan_quantity (levels ! j) \<le> 1000" if "j < length levels" for j
    using assms(2) that by (auto simp: list_all_iff)
  have "val (hit_quantity sd limit_price levels j) \<le> 1000" if "j < length levels" for j
    using q [OF that] by (simp add: hit_quantity_def less_eq_int64_def val_numeral)
  then have "hit_total sd limit_price levels (length levels) \<le> (\<Sum>j<length levels. 1000)"
    unfolding hit_total_def by (intro sum_mono) simp
  with assms(1) q(1) show ?thesis by (intro levels_ok_nonneg) simp_all
qed

lemma smoke_cases_ok:
  "list_all (\<lambda>(name, levels, limit_price, sd). levels_ok sd limit_price levels (length levels)) smoke_cases"
proof -
  have "list_all (\<lambda>(name, levels, limit_price, sd). length levels \<le> 1000 \<and>
      list_all (\<lambda>l. 0 \<le> scan_quantity l \<and> scan_quantity l \<le> 1000) levels) smoke_cases"
    by code_simp
  then show ?thesis by (rule list.pred_mono_strong) (auto intro: small_levels_ok)
qed

text \<open>
  The smoke check.  A \<open>check\<close> of levels whose matching quantities have absolute values adding up to
  less than \<open>2 ^ 63\<close> never reports a mismatch, and the twelve checks of the program all pass: it writes nothing
  to \<open>stderr\<close>, ends with the line that all have passed and exits with 0.
\<close>

theorem smoke_check_passes:
  assumes "levels_ok sd limit_price levels (length levels)"
  shows "(\<exists>text. check_scans name levels limit_price sd = Some (text, True)) \<and>
    (\<exists>text. smoke_main = Some (text @
      ''ALL AVX2 VS SCALAR SMOKE CHECKS PASSED (ubuntu-latest, real x86_64 AVX2)'' @ newline, [], 0))"
  using check_passes [OF assms] run_checks_pass [OF smoke_cases_ok, of "[]" True] by (auto simp: smoke_main_def)

theorem smoke_check_passes_witness:
  "\<exists>text. check_scans ''five'' five_asks 101 Buy = Some (text, True)"
proof -
  have "length five_asks = 5" by code_simp
  then show ?thesis using smoke_check_passes [of Buy 101 five_asks "''five''"] five_asks_ok by simp
qed

end
