(* ===== verification/Spec2Isabelle.thy ===== *)
theory Spec2Isabelle
  imports Prelude Book_Properties Book_Accounting Matching_Rounds Book_Typing Exhaustion_Properties Slab_Exhaustion
    Scan_Properties Ring_Throwing Ring_Refinement Ring_Layout Matching_Pipeline Latency_Harness Printed_Text
    Test_Oracles
    Core_Affinity Bench_Properties Demo_Programs
begin

text \<open>
  A verification library for the low-latency execution core: an order-matching engine in C++ with
  its memory pool, its inbound queue, its SIMD depth scan, its latency harness and the programs
  that drive them.  Every theory models the sources it names; this root imports them all.

  \<^bold>\<open>The program and its model.\<close>
  A client thread feeds orders to one \<open>OrderBook\<close> (order_book.hpp, order_book.cpp).  The book keeps
  two ordered maps from prices to levels, a level is an intrusive doubly linked list of nodes, the
  nodes come from a \<open>SlabAllocator\<close> (slab_allocator.hpp), and a hash index finds a node by order id.
  Commands arrive through an \<open>SpscRingBuffer\<close> (ring_buffer.hpp).  The depth scan (price_scan.cpp),
  the latency harness (latency_harness.cpp) and core pinning (core_affinity.cpp) stand beside it,
  and bench_main.cpp, main.cpp and avx2_smoke_check.cpp drive them.

  \<^item> Prelude, Market_Types: undefined behaviour as \<open>None\<close>, 64-bit signed and unsigned integers with
    overflow and wrap-around, the value types of types.hpp, trade.hpp and order.hpp.
  \<^item> Ordered_Map: \<open>std::map\<close> as an association list in the order of its comparator; the locale
    \<open>comparator\<close> holds the laws of lookup, update and removal, interpreted for \<open>std::less\<close> (asks)
    and \<open>std::greater\<close> (bids).
  \<^item> Slab_Allocator: chunks, blocks and the free list threaded through the free blocks, every
    read and write of a block checked.  Slab_Properties: held blocks are disjoint, aligned and
    inside their chunk, growth happens exactly when no block is free, the counters count, the free
    list is a stack, and the unchecked size computation wraps.  Slab_Exhaustion: a pool that cannot
    grow throws and stays as it was; a chunk that \<open>chunks_\<close> has no room for is never given back.
  \<^item> Intrusive_List: \<open>push_back\<close>, \<open>pop_front\<close>, \<open>erase\<close> and the walks over a level, as loads and
    stores through pointers; \<open>level_rep\<close> relates the nodes of a level to a list of orders.
  \<^item> Order_Book: the state and every public operation of the class, its two matching loops
    (\<open>partial_function (option)\<close>, so that not returning is \<open>None\<close>), the destructor.
  \<^item> Book_Spec: the specification, a book of plain queues, and its own theory (invariant, price-time
    priority by \<open>greedy\<close>, conservation).  Book_Invariant: the invariant and the locale \<open>price_order\<close>,
    interpreted for both sides.  Book_Matching, Book_Refinement: a simulation; \<open>represents b A\<close> says
    that the pointers, pool and index of \<open>b\<close> implement the queues of \<open>A\<close>, every operation keeps it
    and answers what the specification answers.  The code repeats each operation for bids and asks;
    the proofs read both as one operation on the levels of a side (\<open>levels_of\<close>, \<open>side_cmp\<close>).  Book_Observers: the observers and the destructor.
  \<^item> Book_Properties, Book_Accounting: what the class promises, derived from the refinement.
    Book_Typing: every pointer the book stores names a live node, as a predicate on the state.
  \<^item> Book_Exhaustion: \<open>add_limit_order\<close> when one of its allocations throws \<open>std::bad_alloc\<close>; a \<open>fault\<close>
    names the allocation (the vector of trades, a node of a price map, a chunk of the pool, a node of
    the index).  Exhaustion_Properties: the interrupted call is defined, and what it leaves behind:
    the book of a smaller order, a level without an order, or an order the index does not know.
    Matching_Rounds: how often the loops of \<open>add_limit_order\<close> go round, by running them with a budget.
  \<^item> Ring_Buffer: the queue called from one thread; the locale \<open>bounded_queue\<close> is the contract of a
    bounded FIFO, interpreted on the ring for every capacity.  Ring_Concurrent: the same code as a
    step relation, one memory access per step, producer and consumer interleaved, acquire loads
    that may return any value not older than the last one seen; a race is an access to a slot
    whose last access by the other thread is not published.  Ring_Progress: wait-freedom.
    Ring_Refinement: each step is a step of an atomic bounded queue (\<open>queue_step\<close>), and a call that is
    not interrupted does what the function of Ring_Buffer does.  Ring_Throwing: the queue after an
    element's assignment has thrown.  Ring_Layout: the members lie on different cache lines.
  \<^item> Matching_Pipeline: the ring between a producer thread and the thread of the matching engine.
    The loops of the two threads are not in the repository; the model lets the producer push
    whatever it likes whenever it likes, and the engine execute each command it has popped before
    it touches the ring again.  Whatever the interleaving, the engine does what \<open>run\<close> does on the
    commands in the order of their pushes, and it can always catch up.
  \<^item> Price_Scan: the scalar, NEON and AVX2 scans over lanes; Scan_Properties: all are exact while
    the absolute values of the matching quantities add up to less than \<open>2 ^ 63\<close>, agree wherever they
    are defined, and differ in where they overflow, which is characterised for each.
  \<^item> Latency_Stats: doubles as rationals rounded to 53 bits, the percentile arithmetic in 128-bit
    words; the nearest-rank percentile is exact for every percentage of two decimals.
    Latency_Harness: the measuring loop over any program state and clock; the summary.
    Test_Oracles: the integer oracle of the percentile tests agrees with the code on every input.
    Printed_Text: \<open>print_latency_row\<close> with the conversions of \<open>printf\<close> it uses, as strings;
    a row can be read back.
  \<^item> Core_Affinity: pinning on the three platforms, over the operating system calls as parameters.
  \<^item> Bench_Workloads, Bench_Properties: the benchmark driver and the text it writes.
    Demo_Programs: the demo and the smoke check, their text and exit status.

  \<^bold>\<open>What is assumed.\<close>
  Outside Book_Exhaustion, Exhaustion_Properties and Slab_Exhaustion every allocation succeeds,
  outside Ring_Throwing every assignment of an element; the containers of the standard library behave as specified; vector intrinsics act on their lanes as the instruction set manuals describe; atomic
  accesses follow the release/acquire rules of C++; arithmetic on doubles rounds to nearest, ties
  to even.  \<open>llround\<close> of NaN, the clock, the state of a thread and the system calls on it, the
  value left behind by a move and the target macros are parameters.  What Linux promises of its
  affinity calls is the hypothesis \<open>documented\<close> of one property, with a machine that meets it.

  \<^bold>\<open>Bounds.\<close>
  No definition of the code uses fuel: loops over pointers are \<open>partial_function (option)\<close> and proved to return under
  the representation invariant, all others are structural or have a measure.
  The budgets of Matching_Rounds, the number of levels and of resting orders of the other side, are
  proved to be enough.  Sequence numbers,
  ring counters and pool counters are words and may wrap around; sizes that must not
  (\<open>sizes_fit\<close>, \<open>length xs < 2 ^ 64\<close>) are hypotheses.

  \<^bold>\<open>Not modelled.\<close>
  Allocations that fail outside \<open>add_limit_order\<close> and the pool (in the vectors the observers
  return, which change no state, and in the harness); two failures in one call cannot happen, as
  the first one ends it.  The buffering and the errors of \<open>stdout\<close>, the sign of a zero and of NaN,
  code generation by the compiler.  Of the test programs only the oracle of the percentile tests:
  the others call the modelled operations on fixed inputs.
\<close>

end
